(* ===== verification/Prelude.thy ===== *)
theory Prelude
  imports Main "HOL-Library.Word" "HOL-Library.Monad_Syntax"
begin

unbundle bit_operations_syntax

text \<open>
  What the components share: names for the machine integers of the C sources (LP64, the
  \<^verbatim>\<open>__x86_64__\<close> branch of the sources), the collections the component proofs draw on, and the
  generic facts about words, lists and options they use.

  Fallible code is in the option monad throughout: \<open>None\<close> is a fault of the C program (a NULL or
  dangling dereference, an index outside its array, an undefined shift) or a loop that does not
  end, so a theorem \<open>f x = Some y\<close> says that \<open>f\<close> is safe, that it ends and what it returns.
\<close>

type_synonym u8 = "8 word"
type_synonym u16 = "16 word"
type_synonym u32 = "32 word"
type_synonym u64 = "64 word"

named_theorems packing \<open>reading back what a store of a packed word wrote\<close>
named_theorems focus \<open>what an operation does at the focus of a zipper\<close>

subsection \<open>Words\<close>

lemma three_is_mask: "(3::'a::len word) = mask 2"
  by (simp add: mask_eq_exp_minus_1)

lemma one_is_mask: "(1::'a::len word) = mask 1"
  by (simp add: mask_eq_exp_minus_1)

lemma aligned_iff_bits: "(a::'a::len word) AND mask k = 0 \<longleftrightarrow> (\<forall>n<k. \<not> bit a n)"
  by (auto simp: bit_eq_iff bit_simps dest: bit_imp_le_length)

lemma bit_less: "unat (x::'a::len word) < 2 ^ k \<Longrightarrow> bit x n \<Longrightarrow> n < k"
proof -
  assume "unat x < 2 ^ k" and b: "bit x n"
  then have "take_bit k (unat x) = unat x" by (simp add: take_bit_nat_eq_self_iff)
  moreover have "bit (unat x) n" using b by (simp add: bit_unsigned_iff)
  ultimately show "n < k" by (metis bit_take_bit_iff)
qed

lemma unat8_less: "unat (b::u8) < 256"
  using unsigned_less [of b] by simp

lemma sint64_of_int: "- (2 ^ 63) \<le> x \<Longrightarrow> x < 2 ^ 63 \<Longrightarrow> sint (word_of_int x :: u64) = x"
  unfolding sint_sbintrunc' by (simp add: signed_take_bit_int_eq_self)

subsection \<open>Lists\<close>

lemma distinct_rotate_mid: "distinct (xs @ a # ys) \<longleftrightarrow> a \<notin> set (xs @ ys) \<and> distinct (xs @ ys)"
  by auto

lemma hd_tl_append: "xs \<noteq> [] \<Longrightarrow> hd (xs @ ys) = hd xs \<and> tl (xs @ ys) = tl xs @ ys"
  by (cases xs) simp_all

lemma split_unique:
  "xs @ a # ys = xs' @ a # ys' \<Longrightarrow> a \<notin> set xs \<Longrightarrow> a \<notin> set xs' \<Longrightarrow> xs = xs' \<and> ys = ys'"
proof (induction xs arbitrary: xs')
  case (Cons x xs)
  then show ?case by (cases xs') auto
qed (auto simp: append_eq_Cons_conv Cons_eq_append_conv)

lemma takeWhile_stop: "\<not> P a \<Longrightarrow> takeWhile P (xs @ a # ys) = takeWhile P xs"
  by (induction xs) simp_all

lemma dropWhile_stop: "\<not> P a \<Longrightarrow> dropWhile P (xs @ a # ys) = dropWhile P xs @ a # ys"
  by (induction xs) simp_all

lemma takeWhile_shorter: "length (takeWhile P xs) < length xs \<longleftrightarrow> (\<exists>x \<in> set xs. \<not> P x)"
  by (induction xs) auto

lemma takeWhile_neq: "c \<notin> set xs \<Longrightarrow> takeWhile (\<lambda>x. x \<noteq> c) xs = xs"
  by (induction xs) auto

lemma takeWhile_split:
  "c \<in> set xs \<Longrightarrow> xs = takeWhile (\<lambda>x. x \<noteq> c) xs @ c # drop (Suc (length (takeWhile (\<lambda>x. x \<noteq> c) xs))) xs"
  by (induction xs) auto

subsection \<open>Loops over a list of values\<close>

text \<open>\<^verbatim>\<open>for (x in xs) s = f(x, s)\<close>, where a step may fault.\<close>

primrec foldM :: "('a \<Rightarrow> 's \<Rightarrow> 's option) \<Rightarrow> 'a list \<Rightarrow> 's \<Rightarrow> 's option" where
  "foldM f [] s = Some s"
| "foldM f (x # xs) s = do { s \<leftarrow> f x s; foldM f xs s }"

lemma foldM_append [simp]: "foldM f (xs @ ys) s = foldM f xs s \<bind> foldM f ys"
  by (induction xs arbitrary: s) (simp_all add: Option.bind_assoc cong: bind_option_cong)

text \<open>A loop keeps what each of its steps keeps.\<close>

lemma foldM_inv:
  assumes "I xs s" and "\<And>x ys s. I (x # ys) s \<Longrightarrow> \<exists>s'. f x s = Some s' \<and> I ys s'"
  shows "\<exists>s'. foldM f xs s = Some s' \<and> I [] s'"
  using assms(1)
proof (induction xs arbitrary: s)
  case (Cons x xs)
  from assms(2) [OF Cons.prems] Cons.IH show ?case by auto
qed simp

end
