(* ===== verification/RBTree.thy ===== *)
theory RBTree
  imports Prelude
begin

unbundle bit_operations_syntax

text \<open>
  The red-black tree of \<^verbatim>\<open>smart-queue.c\<close>, at the level of its pointers: a memory maps node
  addresses to \<open>rb_node\<close> structs, whose first field packs the parent pointer and the colour bit.
\<close>

record rb_node =
  rb_parent_color :: u64
  rb_right :: u64
  rb_left :: u64

record rb_mem =
  nodes :: "u64 \<rightharpoonup> rb_node"
  rb_root :: u64

definition RB_RED :: u64 where "RB_RED = 0"
definition RB_BLACK :: u64 where "RB_BLACK = 1"

definition rb_parent :: "rb_node \<Rightarrow> u64" where
  "rb_parent r = rb_parent_color r AND NOT 3"

definition rb_color :: "rb_node \<Rightarrow> u64" where
  "rb_color r = rb_parent_color r AND 1"

definition rb_is_red :: "rb_node \<Rightarrow> bool" where
  "rb_is_red r \<longleftrightarrow> rb_color r = 0"

definition rb_is_black :: "rb_node \<Rightarrow> bool" where
  "rb_is_black r \<longleftrightarrow> rb_color r \<noteq> 0"

text \<open>A load and a read-modify-write of one node; both fault on NULL and on unmapped memory.\<close>

definition ld :: "rb_mem \<Rightarrow> u64 \<Rightarrow> rb_node option" where
  "ld m p = (if p = 0 then None else nodes m p)"

definition upd :: "u64 \<Rightarrow> (rb_node \<Rightarrow> rb_node) \<Rightarrow> rb_mem \<Rightarrow> rb_mem option" where
  "upd p f m = do { n \<leftarrow> ld m p; Some (m\<lparr>nodes := (nodes m)(p \<mapsto> f n)\<rparr>) }"

definition set_right :: "u64 \<Rightarrow> u64 \<Rightarrow> rb_mem \<Rightarrow> rb_mem option" where
  "set_right p q = upd p (\<lambda>n. n\<lparr>rb_right := q\<rparr>)"

definition set_left :: "u64 \<Rightarrow> u64 \<Rightarrow> rb_mem \<Rightarrow> rb_mem option" where
  "set_left p q = upd p (\<lambda>n. n\<lparr>rb_left := q\<rparr>)"

definition rb_set_red :: "u64 \<Rightarrow> rb_mem \<Rightarrow> rb_mem option" where
  "rb_set_red p = upd p (\<lambda>n. n\<lparr>rb_parent_color := rb_parent_color n AND NOT 1\<rparr>)"

definition rb_set_black :: "u64 \<Rightarrow> rb_mem \<Rightarrow> rb_mem option" where
  "rb_set_black p = upd p (\<lambda>n. n\<lparr>rb_parent_color := rb_parent_color n OR 1\<rparr>)"

definition rb_set_parent :: "u64 \<Rightarrow> u64 \<Rightarrow> rb_mem \<Rightarrow> rb_mem option" where
  "rb_set_parent rb p = upd rb (\<lambda>n. n\<lparr>rb_parent_color := (rb_parent_color n AND 3) OR p\<rparr>)"

definition rb_set_color :: "u64 \<Rightarrow> u64 \<Rightarrow> rb_mem \<Rightarrow> rb_mem option" where
  "rb_set_color rb color =
     upd rb (\<lambda>n. n\<lparr>rb_parent_color := (rb_parent_color n AND NOT 1) OR color\<rparr>)"

text \<open>The pointer \<^verbatim>\<open>struct rb_node **link\<close>: the root's field or a child field of a node.\<close>

datatype rb_link = LinkRoot | LinkLeft u64 | LinkRight u64

fun link_get :: "rb_link \<Rightarrow> rb_mem \<Rightarrow> u64 option" where
  "link_get LinkRoot m = Some (rb_root m)"
| "link_get (LinkLeft p) m = map_option rb_left (ld m p)"
| "link_get (LinkRight p) m = map_option rb_right (ld m p)"

fun link_set :: "rb_link \<Rightarrow> u64 \<Rightarrow> rb_mem \<Rightarrow> rb_mem option" where
  "link_set LinkRoot q m = Some (m\<lparr>rb_root := q\<rparr>)"
| "link_set (LinkLeft p) q m = set_left p q m"
| "link_set (LinkRight p) q m = set_right p q m"

definition rb_link_node :: "u64 \<Rightarrow> u64 \<Rightarrow> rb_link \<Rightarrow> rb_mem \<Rightarrow> rb_mem option" where
  "rb_link_node node parent lnk m = do {
     m \<leftarrow> upd node (\<lambda>n. n\<lparr>rb_parent_color := parent\<rparr>) m;
     m \<leftarrow> set_right node 0 m;
     m \<leftarrow> set_left node 0 m;
     link_set lnk node m }"

definition do_rb_rotate_left :: "u64 \<Rightarrow> rb_mem \<Rightarrow> rb_mem option" where
  "do_rb_rotate_left node m = do {
     nd \<leftarrow> ld m node;
     let right = rb_right nd;
     let parent = rb_parent nd;
     rn \<leftarrow> ld m right;
     m \<leftarrow> set_right node (rb_left rn) m;
     m \<leftarrow> (if rb_left rn \<noteq> 0 then do { rn \<leftarrow> ld m right; rb_set_parent (rb_left rn) node m }
          else Some m);
     m \<leftarrow> set_left right node m;
     m \<leftarrow> rb_set_parent right parent m;
     m \<leftarrow> (if parent \<noteq> 0
          then do { pn \<leftarrow> ld m parent;
                    if node = rb_left pn then set_left parent right m
                    else set_right parent right m }
          else Some (m\<lparr>rb_root := right\<rparr>));
     rb_set_parent node right m }"

definition do_rb_rotate_right :: "u64 \<Rightarrow> rb_mem \<Rightarrow> rb_mem option" where
  "do_rb_rotate_right node m = do {
     nd \<leftarrow> ld m node;
     let left = rb_left nd;
     let parent = rb_parent nd;
     ln \<leftarrow> ld m left;
     m \<leftarrow> set_left node (rb_right ln) m;
     m \<leftarrow> (if rb_right ln \<noteq> 0 then do { ln \<leftarrow> ld m left; rb_set_parent (rb_right ln) node m }
          else Some m);
     m \<leftarrow> set_right left node m;
     m \<leftarrow> rb_set_parent left parent m;
     m \<leftarrow> (if parent \<noteq> 0
          then do { pn \<leftarrow> ld m parent;
                    if node = rb_right pn then set_right parent left m
                    else set_left parent left m }
          else Some (m\<lparr>rb_root := left\<rparr>));
     rb_set_parent node left m }"

text \<open>The tests \<^verbatim>\<open>p && rb_is_red(p)\<close> and \<^verbatim>\<open>!p || rb_is_black(p)\<close>.\<close>

definition nonnull_red :: "u64 \<Rightarrow> rb_mem \<Rightarrow> bool option" where
  "nonnull_red p m = (if p = 0 then Some False else map_option rb_is_red (ld m p))"

definition null_or_black :: "u64 \<Rightarrow> rb_mem \<Rightarrow> bool option" where
  "null_or_black p m = (if p = 0 then Some True else map_option rb_is_black (ld m p))"

text \<open>One pass through the body of the loop of \<open>rb_insert_color\<close> where \<open>parent\<close> is the left
  child of \<open>gparent\<close>, and where it is the right child: the node and the memory with which the loop
  goes on.\<close>

definition insert_color_left :: "u64 \<Rightarrow> u64 \<Rightarrow> u64 \<Rightarrow> rb_mem \<Rightarrow> (u64 \<times> rb_mem) option" where
  "insert_color_left node parent gparent m = do {
     gn \<leftarrow> ld m gparent;
     let uncle = rb_right gn;
     red \<leftarrow> nonnull_red uncle m;
     if red then do {
       m \<leftarrow> rb_set_black uncle m;
       m \<leftarrow> rb_set_black parent m;
       m \<leftarrow> rb_set_red gparent m;
       Some (gparent, m) }
     else do {
       pn \<leftarrow> ld m parent;
       (node, parent, m) \<leftarrow>
         (if rb_right pn = node
          then do { m \<leftarrow> do_rb_rotate_left parent m; Some (parent, node, m) }
          else Some (node, parent, m));
       m \<leftarrow> rb_set_black parent m;
       m \<leftarrow> rb_set_red gparent m;
       m \<leftarrow> do_rb_rotate_right gparent m;
       Some (node, m) } }"

definition insert_color_right :: "u64 \<Rightarrow> u64 \<Rightarrow> u64 \<Rightarrow> rb_mem \<Rightarrow> (u64 \<times> rb_mem) option" where
  "insert_color_right node parent gparent m = do {
     gn \<leftarrow> ld m gparent;
     let uncle = rb_left gn;
     red \<leftarrow> nonnull_red uncle m;
     if red then do {
       m \<leftarrow> rb_set_black uncle m;
       m \<leftarrow> rb_set_black parent m;
       m \<leftarrow> rb_set_red gparent m;
       Some (gparent, m) }
     else do {
       pn \<leftarrow> ld m parent;
       (node, parent, m) \<leftarrow>
         (if rb_left pn = node
          then do { m \<leftarrow> do_rb_rotate_right parent m; Some (parent, node, m) }
          else Some (node, parent, m));
       m \<leftarrow> rb_set_black parent m;
       m \<leftarrow> rb_set_red gparent m;
       m \<leftarrow> do_rb_rotate_left gparent m;
       Some (node, m) } }"

partial_function (option) insert_color_loop :: "u64 \<Rightarrow> rb_mem \<Rightarrow> rb_mem option" where
  "insert_color_loop node m = do {
     nd \<leftarrow> ld m node;
     let parent = rb_parent nd;
     red \<leftarrow> nonnull_red parent m;
     if \<not> red then Some m
     else do {
       pn \<leftarrow> ld m parent;
       let gparent = rb_parent pn;
       gn \<leftarrow> ld m gparent;
       (node, m) \<leftarrow> (if parent = rb_left gn then insert_color_left node parent gparent m
                    else insert_color_right node parent gparent m);
       insert_color_loop node m } }"

definition rb_insert_color :: "u64 \<Rightarrow> rb_mem \<Rightarrow> rb_mem option" where
  "rb_insert_color node m = do {
     m \<leftarrow> insert_color_loop node m;
     rb_set_black (rb_root m) m }"

text \<open>The two halves of the loop body of \<open>__rb_erase_color\<close>, for a node that is the left and the
  right child of \<open>parent\<close>; \<open>_rest\<close> is the half from the test of the sibling's children on.
  \<open>Inl\<close> is the next iteration, \<open>Inr\<close> the \<^verbatim>\<open>break\<close>.\<close>

definition erase_color_left_rest ::
  "u64 \<Rightarrow> u64 \<Rightarrow> rb_mem \<Rightarrow> (u64 \<times> u64 \<times> rb_mem + u64 \<times> rb_mem) option" where
  "erase_color_left_rest parent other m = do {
     otn \<leftarrow> ld m other;
     lblack \<leftarrow> null_or_black (rb_left otn) m;
     rblack \<leftarrow> (if lblack then null_or_black (rb_right otn) m else Some False);
     if lblack \<and> rblack then do {
       m \<leftarrow> rb_set_red other m;
       pn \<leftarrow> ld m parent;
       Some (Inl (parent, rb_parent pn, m)) }
     else do {
       black \<leftarrow> null_or_black (rb_right otn) m;
       (other, m) \<leftarrow>
         (if black then do {
            m \<leftarrow> (if rb_left otn \<noteq> 0 then rb_set_black (rb_left otn) m else Some m);
            m \<leftarrow> rb_set_red other m;
            m \<leftarrow> do_rb_rotate_right other m;
            pn \<leftarrow> ld m parent;
            Some (rb_right pn, m) }
          else Some (other, m));
       pn \<leftarrow> ld m parent;
       m \<leftarrow> rb_set_color other (rb_color pn) m;
       m \<leftarrow> rb_set_black parent m;
       otn \<leftarrow> ld m other;
       m \<leftarrow> (if rb_right otn \<noteq> 0 then rb_set_black (rb_right otn) m else Some m);
       m \<leftarrow> do_rb_rotate_left parent m;
       Some (Inr (rb_root m, m)) } }"

definition erase_color_left ::
  "u64 \<Rightarrow> rb_mem \<Rightarrow> (u64 \<times> u64 \<times> rb_mem + u64 \<times> rb_mem) option" where
  "erase_color_left parent m = do {
     pn \<leftarrow> ld m parent;
     let other = rb_right pn;
     otn \<leftarrow> ld m other;
     (other, m) \<leftarrow>
       (if rb_is_red otn then do {
          m \<leftarrow> rb_set_black other m;
          m \<leftarrow> rb_set_red parent m;
          m \<leftarrow> do_rb_rotate_left parent m;
          pn \<leftarrow> ld m parent;
          Some (rb_right pn, m) }
        else Some (other, m));
     erase_color_left_rest parent other m }"

definition erase_color_right_rest ::
  "u64 \<Rightarrow> u64 \<Rightarrow> rb_mem \<Rightarrow> (u64 \<times> u64 \<times> rb_mem + u64 \<times> rb_mem) option" where
  "erase_color_right_rest parent other m = do {
     otn \<leftarrow> ld m other;
     lblack \<leftarrow> null_or_black (rb_left otn) m;
     rblack \<leftarrow> (if lblack then null_or_black (rb_right otn) m else Some False);
     if lblack \<and> rblack then do {
       m \<leftarrow> rb_set_red other m;
       pn \<leftarrow> ld m parent;
       Some (Inl (parent, rb_parent pn, m)) }
     else do {
       black \<leftarrow> null_or_black (rb_left otn) m;
       (other, m) \<leftarrow>
         (if black then do {
            m \<leftarrow> (if rb_right otn \<noteq> 0 then rb_set_black (rb_right otn) m else Some m);
            m \<leftarrow> rb_set_red other m;
            m \<leftarrow> do_rb_rotate_left other m;
            pn \<leftarrow> ld m parent;
            Some (rb_left pn, m) }
          else Some (other, m));
       pn \<leftarrow> ld m parent;
       m \<leftarrow> rb_set_color other (rb_color pn) m;
       m \<leftarrow> rb_set_black parent m;
       otn \<leftarrow> ld m other;
       m \<leftarrow> (if rb_left otn \<noteq> 0 then rb_set_black (rb_left otn) m else Some m);
       m \<leftarrow> do_rb_rotate_right parent m;
       Some (Inr (rb_root m, m)) } }"

definition erase_color_right ::
  "u64 \<Rightarrow> rb_mem \<Rightarrow> (u64 \<times> u64 \<times> rb_mem + u64 \<times> rb_mem) option" where
  "erase_color_right parent m = do {
     pn \<leftarrow> ld m parent;
     let other = rb_left pn;
     otn \<leftarrow> ld m other;
     (other, m) \<leftarrow>
       (if rb_is_red otn then do {
          m \<leftarrow> rb_set_black other m;
          m \<leftarrow> rb_set_red parent m;
          m \<leftarrow> do_rb_rotate_right parent m;
          pn \<leftarrow> ld m parent;
          Some (rb_left pn, m) }
        else Some (other, m));
     erase_color_right_rest parent other m }"

partial_function (option) erase_color_loop ::
  "u64 \<Rightarrow> u64 \<Rightarrow> rb_mem \<Rightarrow> (u64 \<times> rb_mem) option" where
  "erase_color_loop node parent m = do {
     black \<leftarrow> null_or_black node m;
     if black \<and> node \<noteq> rb_root m then do {
       pn \<leftarrow> ld m parent;
       r \<leftarrow> (if rb_left pn = node then erase_color_left parent m
            else erase_color_right parent m);
       (case r of
          Inl (node, parent, m) \<Rightarrow> erase_color_loop node parent m
        | Inr (node, m) \<Rightarrow> Some (node, m)) }
     else Some (node, m) }"

definition do_rb_erase_color :: "u64 \<Rightarrow> u64 \<Rightarrow> rb_mem \<Rightarrow> rb_mem option" where
  "do_rb_erase_color node parent m = do {
     (node, m) \<leftarrow> erase_color_loop node parent m;
     if node \<noteq> 0 then rb_set_black node m else Some m }"

text \<open>The loops \<^verbatim>\<open>while (n->rb_left) n = n->rb_left\<close> and \<^verbatim>\<open>while (n->rb_right) n = n->rb_right\<close>.\<close>

partial_function (option) go_left :: "u64 \<Rightarrow> rb_mem \<Rightarrow> u64 option" where
  "go_left n m = do {
     nd \<leftarrow> ld m n;
     if rb_left nd \<noteq> 0 then go_left (rb_left nd) m else Some n }"

partial_function (option) go_right :: "u64 \<Rightarrow> rb_mem \<Rightarrow> u64 option" where
  "go_right n m = do {
     nd \<leftarrow> ld m n;
     if rb_right nd \<noteq> 0 then go_right (rb_right nd) m else Some n }"

text \<open>\<open>rb_erase\<close> of a node with at most one child, from the second \<^verbatim>\<open>parent = rb_parent(node)\<close>
  on; of a node with two children, the \<^verbatim>\<open>else\<close> block that ends in \<^verbatim>\<open>goto color\<close>, which
  unlinks the successor and puts it in the node's place; and the function.\<close>

definition erase_unlink :: "u64 \<Rightarrow> u64 \<Rightarrow> rb_mem \<Rightarrow> (u64 \<times> u64 \<times> rb_mem) option" where
  "erase_unlink node child m = do {
     nd \<leftarrow> ld m node;
     let parent = rb_parent nd;
     let color = rb_color nd;
     m \<leftarrow> (if child \<noteq> 0 then rb_set_parent child parent m else Some m);
     m \<leftarrow> (if parent \<noteq> 0
          then do { pn \<leftarrow> ld m parent;
                    if rb_left pn = node then set_left parent child m
                    else set_right parent child m }
          else Some (m\<lparr>rb_root := child\<rparr>));
     Some (color, parent, m) }"

definition splice_unlink :: "u64 \<Rightarrow> rb_mem \<Rightarrow> (u64 \<times> u64 \<times> u64 \<times> u64 \<times> rb_mem) option" where
  "splice_unlink old m = do {
     on \<leftarrow> ld m old;
     node \<leftarrow> go_left (rb_right on) m;
     nd \<leftarrow> ld m node;
     let child = rb_right nd;
     let parent = rb_parent nd;
     let color = rb_color nd;
     m \<leftarrow> (if child \<noteq> 0 then rb_set_parent child parent m else Some m);
     (parent, m) \<leftarrow>
       (if parent = old then do { m \<leftarrow> set_right parent child m; Some (node, m) }
        else do { m \<leftarrow> set_left parent child m; Some (parent, m) });
     Some (node, child, color, parent, m) }"

definition splice_replace :: "u64 \<Rightarrow> u64 \<Rightarrow> rb_mem \<Rightarrow> rb_mem option" where
  "splice_replace old node m = do {
     on \<leftarrow> ld m old;
     m \<leftarrow> upd node (\<lambda>n. n\<lparr>rb_parent_color := rb_parent_color on\<rparr>) m;
     m \<leftarrow> set_right node (rb_right on) m;
     m \<leftarrow> set_left node (rb_left on) m;
     m \<leftarrow> (if rb_parent on \<noteq> 0
          then do { gn \<leftarrow> ld m (rb_parent on);
                    if rb_left gn = old then set_left (rb_parent on) node m
                    else set_right (rb_parent on) node m }
          else Some (m\<lparr>rb_root := node\<rparr>));
     on \<leftarrow> ld m old;
     m \<leftarrow> rb_set_parent (rb_left on) node m;
     on \<leftarrow> ld m old;
     (if rb_right on \<noteq> 0 then rb_set_parent (rb_right on) node m else Some m) }"

definition erase_splice :: "u64 \<Rightarrow> rb_mem \<Rightarrow> (u64 \<times> u64 \<times> u64 \<times> rb_mem) option" where
  "erase_splice old m = do {
     (node, child, color, parent, m) \<leftarrow> splice_unlink old m;
     m \<leftarrow> splice_replace old node m;
     Some (child, color, parent, m) }"

definition rb_erase :: "u64 \<Rightarrow> rb_mem \<Rightarrow> rb_mem option" where
  "rb_erase node m = do {
     nd \<leftarrow> ld m node;
     (child, color, parent, m) \<leftarrow>
       (if rb_left nd = 0 then do {
          (color, parent, m) \<leftarrow> erase_unlink node (rb_right nd) m;
          Some (rb_right nd, color, parent, m) }
        else if rb_right nd = 0 then do {
          (color, parent, m) \<leftarrow> erase_unlink node (rb_left nd) m;
          Some (rb_left nd, color, parent, m) }
        else erase_splice node m);
     if color = RB_BLACK then do_rb_erase_color child parent m else Some m }"

definition rb_first :: "rb_mem \<Rightarrow> u64 option" where
  "rb_first m = (if rb_root m = 0 then Some 0 else go_left (rb_root m) m)"

definition rb_last :: "rb_mem \<Rightarrow> u64 option" where
  "rb_last m = (if rb_root m = 0 then Some 0 else go_right (rb_root m) m)"

text \<open>\<^verbatim>\<open>while ((parent = rb_parent(node)) && node == parent->rb_right) node = parent;\<close>\<close>

partial_function (option) climb_right :: "u64 \<Rightarrow> rb_mem \<Rightarrow> u64 option" where
  "climb_right node m = do {
     nd \<leftarrow> ld m node;
     let parent = rb_parent nd;
     if parent = 0 then Some 0
     else do {
       pn \<leftarrow> ld m parent;
       if node = rb_right pn then climb_right parent m else Some parent } }"

partial_function (option) climb_left :: "u64 \<Rightarrow> rb_mem \<Rightarrow> u64 option" where
  "climb_left node m = do {
     nd \<leftarrow> ld m node;
     let parent = rb_parent nd;
     if parent = 0 then Some 0
     else do {
       pn \<leftarrow> ld m parent;
       if node = rb_left pn then climb_left parent m else Some parent } }"

definition rb_next :: "u64 \<Rightarrow> rb_mem \<Rightarrow> u64 option" where
  "rb_next node m = do {
     nd \<leftarrow> ld m node;
     if rb_parent nd = node then Some 0
     else if rb_right nd \<noteq> 0 then go_left (rb_right nd) m
     else climb_right node m }"

definition rb_prev :: "u64 \<Rightarrow> rb_mem \<Rightarrow> u64 option" where
  "rb_prev node m = do {
     nd \<leftarrow> ld m node;
     if rb_parent nd = node then Some 0
     else if rb_left nd \<noteq> 0 then go_right (rb_left nd) m
     else climb_left node m }"

definition rb_replace_node :: "u64 \<Rightarrow> u64 \<Rightarrow> rb_mem \<Rightarrow> rb_mem option" where
  "rb_replace_node victim new m = do {
     vn \<leftarrow> ld m victim;
     let parent = rb_parent vn;
     m \<leftarrow> (if parent \<noteq> 0
          then do { pn \<leftarrow> ld m parent;
                    if victim = rb_left pn then set_left parent new m
                    else set_right parent new m }
          else Some (m\<lparr>rb_root := new\<rparr>));
     vn \<leftarrow> ld m victim;
     m \<leftarrow> (if rb_left vn \<noteq> 0 then rb_set_parent (rb_left vn) new m else Some m);
     vn \<leftarrow> ld m victim;
     m \<leftarrow> (if rb_right vn \<noteq> 0 then rb_set_parent (rb_right vn) new m else Some m);
     vn \<leftarrow> ld m victim;
     upd new (\<lambda>_. vn) m }"

end
