(* ===== verification/RBShape.thy ===== *)
theory RBShape
  imports RBTree
begin

unbundle bit_operations_syntax

text \<open>
  The tree a memory holds. \<open>ptree\<close> is the shape with the address and the colour of every node; a
  zipper (\<open>frame list\<close>, innermost first) is the rest of the tree around one subtree. \<open>zrep m k t\<close>
  says that memory \<open>m\<close> holds the tree \<open>plug k t\<close>, all its child and parent pointers included,
  and the focus lemmas say what each pointer operation does to the subtree in focus.
\<close>

datatype color = Red | Black

datatype ptree = PL | PN ptree u64 color ptree

datatype frame = FL u64 color ptree | FR ptree u64 color

type_synonym zipper = "frame list"

fun addrs :: "ptree \<Rightarrow> u64 list" where
  "addrs PL = []"
| "addrs (PN l a c r) = addrs l @ a # addrs r"

fun root_of :: "ptree \<Rightarrow> u64" where
  "root_of PL = 0"
| "root_of (PN l a c r) = a"

fun plug :: "zipper \<Rightarrow> ptree \<Rightarrow> ptree" where
  "plug [] t = t"
| "plug (FL a c r # k) t = plug k (PN t a c r)"
| "plug (FR l a c # k) t = plug k (PN l a c t)"

text \<open>The addresses left and right of the focus, in tree order.\<close>

fun zleft :: "zipper \<Rightarrow> u64 list" where
  "zleft [] = []"
| "zleft (FL a c r # k) = zleft k"
| "zleft (FR l a c # k) = zleft k @ addrs l @ [a]"

fun zright :: "zipper \<Rightarrow> u64 list" where
  "zright [] = []"
| "zright (FL a c r # k) = a # addrs r @ zright k"
| "zright (FR l a c # k) = zright k"

fun zpar :: "zipper \<Rightarrow> u64" where
  "zpar [] = 0"
| "zpar (FL a c r # k) = a"
| "zpar (FR l a c # k) = a"

lemma addrs_plug: "addrs (plug k t) = zleft k @ addrs t @ zright k"
  by (induction k t rule: plug.induct) simp_all

lemma plug_append: "plug (k1 @ k2) t = plug k2 (plug k1 t)"
  by (induction k1 t rule: plug.induct) simp_all

subsection \<open>Nodes in memory\<close>

fun col :: "color \<Rightarrow> u64" where
  "col Red = RB_RED"
| "col Black = RB_BLACK"

definition mk_node :: "u64 \<Rightarrow> color \<Rightarrow> u64 \<Rightarrow> u64 \<Rightarrow> rb_node" where
  "mk_node par c r l = \<lparr>rb_parent_color = par OR col c, rb_right = r, rb_left = l\<rparr>"

abbreviation aligned :: "u64 \<Rightarrow> bool" where
  "aligned a \<equiv> a AND 3 = 0"

lemmas col_defs = RB_RED_def RB_BLACK_def

lemma mask_bits:
  "bit (3::int) n \<longleftrightarrow> n < 2" "bit (-4::int) n \<longleftrightarrow> 2 \<le> n" "bit (-2::int) n \<longleftrightarrow> 1 \<le> n"
proof -
  have m: "(3::int) = mask 2" "(-4::int) = NOT (mask 2)" "(-2::int) = NOT (mask 1)"
    by (simp_all add: mask_eq_exp_minus_1 not_int_def)
  show "bit (3::int) n \<longleftrightarrow> n < 2" "bit (-4::int) n \<longleftrightarrow> 2 \<le> n" "bit (-2::int) n \<longleftrightarrow> 1 \<le> n"
    unfolding m by (auto simp: bit_simps)
qed

lemma aligned_bits: "aligned a \<longleftrightarrow> (\<forall>n. n < 2 \<longrightarrow> \<not> bit a n)"
  unfolding three_is_mask by (rule aligned_iff_bits)

lemma bit_col: "bit (col c) n \<longleftrightarrow> n = 0 \<and> c = Black"
  by (cases c) (auto simp: col_defs bit_simps)

lemmas pack_bits = bit_and_iff bit_or_iff bit_1_iff bit_col mask_bits

lemma pack_parent [packing]: "aligned p \<Longrightarrow> (p OR col c) AND -4 = p"
  unfolding aligned_bits by (rule bit_word_eqI) (auto simp: pack_bits not_less [symmetric])

lemma pack_color [packing]: "aligned p \<Longrightarrow> (p OR col c) AND 1 = col c"
  unfolding aligned_bits by (rule bit_word_eqI) (auto simp: pack_bits)

lemma pack_low [packing]: "aligned p \<Longrightarrow> ((p OR col c) AND 3) OR q = q OR col c"
  unfolding aligned_bits by (rule bit_word_eqI) (auto simp: pack_bits)

lemma pack_red [packing]: "aligned p \<Longrightarrow> (p OR col c) AND -2 = p"
  unfolding aligned_bits
  by (rule bit_word_eqI) (auto simp: pack_bits Suc_le_eq intro!: gr0I)

lemma pack_black [packing]: "(p OR col c) OR 1 = p OR 1"
  by (rule bit_word_eqI) (auto simp: pack_bits)

lemma mk_node_sel [simp]:
  "rb_right (mk_node p c r l) = r" "rb_left (mk_node p c r l) = l"
  "(mk_node p c r l)\<lparr>rb_right := x\<rparr> = mk_node p c x l"
  "(mk_node p c r l)\<lparr>rb_left := x\<rparr> = mk_node p c r x"
  by (simp_all add: mk_node_def)

lemma mk_node_parent [simp]: "aligned p \<Longrightarrow> rb_parent (mk_node p c r l) = p"
  by (simp add: mk_node_def rb_parent_def packing)

lemma mk_node_color [simp]: "aligned p \<Longrightarrow> rb_color (mk_node p c r l) = col c"
  by (simp add: mk_node_def rb_color_def packing)

lemma mk_node_red [simp]: "aligned p \<Longrightarrow> rb_is_red (mk_node p c r l) \<longleftrightarrow> c = Red"
  by (cases c) (simp_all add: rb_is_red_def col_defs)

lemma mk_node_black [simp]: "aligned p \<Longrightarrow> rb_is_black (mk_node p c r l) \<longleftrightarrow> c = Black"
  by (cases c) (simp_all add: rb_is_black_def col_defs)

text \<open>The field may have been read from an earlier version of the struct that is written.\<close>

lemma mk_node_set_parent [simp]:
  "aligned p \<Longrightarrow>
   (mk_node p' c' r' l')\<lparr>rb_parent_color := (rb_parent_color (mk_node p c r l) AND 3) OR q\<rparr>
     = mk_node q c r' l'"
  "aligned p \<Longrightarrow>
   (mk_node p' c' r' l')\<lparr>rb_parent_color := rb_parent_color (mk_node p c r l) AND 3\<rparr>
     = mk_node 0 c r' l'"
proof -
  show "aligned p \<Longrightarrow>
   (mk_node p' c' r' l')\<lparr>rb_parent_color := (rb_parent_color (mk_node p c r l) AND 3) OR q\<rparr>
     = mk_node q c r' l'" for q
    by (simp add: mk_node_def packing)
  from this [of 0] show "aligned p \<Longrightarrow>
   (mk_node p' c' r' l')\<lparr>rb_parent_color := rb_parent_color (mk_node p c r l) AND 3\<rparr>
     = mk_node 0 c r' l'"
    by simp
qed

lemma mk_node_set_red [simp]:
  "aligned p \<Longrightarrow>
   (mk_node p' c' r' l')\<lparr>rb_parent_color := rb_parent_color (mk_node p c r l) AND -2\<rparr>
     = mk_node p Red r' l'"
  by (simp add: mk_node_def packing) (simp add: col_defs)

lemma mk_node_set_black [simp]:
  "(mk_node p' c' r' l')\<lparr>rb_parent_color := rb_parent_color (mk_node p c r l) OR 1\<rparr>
     = mk_node p Black r' l'"
  by (simp add: mk_node_def packing) (simp add: col_defs)

lemma mk_node_set_color [simp]:
  "aligned p \<Longrightarrow>
   (mk_node p' c' r' l')\<lparr>rb_parent_color := (rb_parent_color (mk_node p c r l) AND -2) OR col d\<rparr>
     = mk_node p d r' l'"
  by (simp add: mk_node_def packing)

lemma mk_node_copy [simp]:
  "(mk_node p c r l)\<lparr>rb_parent_color := rb_parent_color (mk_node q d r' l')\<rparr> = mk_node q d r l"
  by (simp add: mk_node_def)

subsection \<open>Trees and zippers in memory\<close>

fun heap_tree :: "(u64 \<rightharpoonup> rb_node) \<Rightarrow> u64 \<Rightarrow> ptree \<Rightarrow> bool" where
  "heap_tree h par PL \<longleftrightarrow> True"
| "heap_tree h par (PN l a c r) \<longleftrightarrow>
     a \<noteq> 0 \<and> aligned a \<and> h a = Some (mk_node par c (root_of r) (root_of l))
     \<and> heap_tree h a l \<and> heap_tree h a r"

fun heap_zip :: "(u64 \<rightharpoonup> rb_node) \<Rightarrow> u64 \<Rightarrow> zipper \<Rightarrow> u64 \<Rightarrow> bool" where
  "heap_zip h rt [] p \<longleftrightarrow> rt = p"
| "heap_zip h rt (FL a c r # k) p \<longleftrightarrow>
     a \<noteq> 0 \<and> aligned a \<and> h a = Some (mk_node (zpar k) c (root_of r) p)
     \<and> heap_tree h a r \<and> heap_zip h rt k a"
| "heap_zip h rt (FR l a c # k) p \<longleftrightarrow>
     a \<noteq> 0 \<and> aligned a \<and> h a = Some (mk_node (zpar k) c p (root_of l))
     \<and> heap_tree h a l \<and> heap_zip h rt k a"

definition zrep :: "rb_mem \<Rightarrow> zipper \<Rightarrow> ptree \<Rightarrow> bool" where
  "zrep m k t \<longleftrightarrow> heap_zip (nodes m) (rb_root m) k (root_of t)
     \<and> heap_tree (nodes m) (zpar k) t \<and> distinct (zleft k @ addrs t @ zright k)"

abbreviation rep :: "rb_mem \<Rightarrow> ptree \<Rightarrow> bool" where
  "rep m t \<equiv> zrep m [] t"

lemma zrep_FL: "zrep m (FL a c r # k) t \<longleftrightarrow> zrep m k (PN t a c r)"
  by (auto simp: zrep_def)

lemma zrep_FR: "zrep m (FR l a c # k) t \<longleftrightarrow> zrep m k (PN l a c t)"
  by (auto simp: zrep_def)

lemma zrep_plug: "zrep m k t \<longleftrightarrow> rep m (plug k t)"
  by (induction k t rule: plug.induct) (simp_all add: zrep_FL zrep_FR)

lemma heap_tree_upd [simp]:
  "a \<notin> set (addrs t) \<Longrightarrow> heap_tree (h(a \<mapsto> x)) par t = heap_tree h par t"
  by (induction t arbitrary: par) auto

lemma heap_zip_upd [simp]:
  "a \<notin> set (zleft k) \<Longrightarrow> a \<notin> set (zright k) \<Longrightarrow>
   heap_zip (h(a \<mapsto> x)) rt k p = heap_zip h rt k p"
  by (induction k arbitrary: p rule: zleft.induct) auto

lemma zpar_in: "k \<noteq> [] \<Longrightarrow> zpar k \<in> set (zleft k @ zright k)"
  by (cases k rule: zpar.cases) auto

lemma root_of_in: "t \<noteq> PL \<Longrightarrow> root_of t \<in> set (addrs t)"
  by (cases t) auto

lemma heap_zip_aligned: "heap_zip h rt k p \<Longrightarrow> aligned (zpar k)"
  by (cases k rule: zpar.cases) auto

lemma heap_zip_zpar: "heap_zip h rt k p \<Longrightarrow> zpar k = 0 \<longleftrightarrow> k = []"
  by (cases k rule: zpar.cases) auto

lemma heap_tree_root: "heap_tree h par t \<Longrightarrow> root_of t = 0 \<longleftrightarrow> t = PL"
  by (cases t) auto

lemma heap_tree_nonzero: "heap_tree h par t \<Longrightarrow> 0 \<notin> set (addrs t)"
  by (induction t arbitrary: par) auto

lemma root_of_neq:
  "a \<notin> set (addrs t) \<Longrightarrow> a \<noteq> 0 \<Longrightarrow> root_of t \<noteq> a"
  "a \<notin> set (addrs t) \<Longrightarrow> a \<noteq> 0 \<Longrightarrow> a \<noteq> root_of t"
  by (cases t; auto)+

subsection \<open>Operations at the focus\<close>

text \<open>\<open>ends g m res k t\<close>: the operation returned \<open>g m'\<close> (no fault), the memory \<open>m'\<close> holds
  \<open>plug k t\<close>, and no node outside that tree was written.\<close>

definition ends :: "(rb_mem \<Rightarrow> 'a) \<Rightarrow> rb_mem \<Rightarrow> 'a option \<Rightarrow> zipper \<Rightarrow> ptree \<Rightarrow> bool" where
  "ends g m res k t \<longleftrightarrow> (\<exists>m'. res = Some (g m') \<and> zrep m' k t
     \<and> (\<forall>a. a \<notin> set (addrs (plug k t)) \<longrightarrow> nodes m' a = nodes m a))"

abbreviation becomes :: "rb_mem \<Rightarrow> rb_mem option \<Rightarrow> zipper \<Rightarrow> ptree \<Rightarrow> bool" where
  "becomes \<equiv> ends (\<lambda>m. m)"

lemmas becomes_def = ends_def

lemma ends_FL: "ends g m res (FL a c r # k) t \<longleftrightarrow> ends g m res k (PN t a c r)"
  by (simp add: ends_def zrep_FL)

lemma ends_FR: "ends g m res (FR l a c # k) t \<longleftrightarrow> ends g m res k (PN l a c t)"
  by (simp add: ends_def zrep_FR)

lemma ends_Some: "zrep m k t \<Longrightarrow> ends g m (Some (g m)) k t"
  by (auto simp: ends_def)

lemma ends_bind:
  assumes "ends g m res k t"
    and "\<And>m'. zrep m' k t \<Longrightarrow> ends g' m' (f (g m')) k' t'"
    and "set (addrs (plug k' t')) = set (addrs (plug k t))"
  shows "ends g' m (res \<bind> f) k' t'"
  using assms by (force simp: ends_def)

lemma ld_focus [focus]:
  "zrep m k (PN l a c r) \<Longrightarrow> ld m a = Some (mk_node (zpar k) c (root_of r) (root_of l))"
  by (simp add: zrep_def ld_def)

lemma zrep_aligned [focus]: "zrep m k t \<Longrightarrow> aligned (zpar k)"
  by (auto simp: zrep_def dest: heap_zip_aligned)

lemma zrep_zpar: "zrep m k t \<Longrightarrow> zpar k = 0 \<longleftrightarrow> k = []"
  by (auto simp: zrep_def dest: heap_zip_zpar)

lemma zrep_root: "zrep m k t \<Longrightarrow> root_of t = 0 \<longleftrightarrow> t = PL"
  by (auto simp: zrep_def dest: heap_tree_root)

lemma zrep_root_node: "zrep m k (PN l a c r) \<Longrightarrow> a \<noteq> 0"
  by (simp add: zrep_def)

lemma zrep_sibling:
  "zrep m k (PN u g c (PN l a d r)) \<Longrightarrow> root_of u \<noteq> a \<and> a \<noteq> root_of u"
  "zrep m k (PN (PN l a d r) g c u) \<Longrightarrow> root_of u \<noteq> a \<and> a \<noteq> root_of u"
  by (cases u; auto simp: zrep_def)+

lemma color_focus:
  assumes z: "zrep m k (PN l a c r)"
    and f: "f (mk_node (zpar k) c (root_of r) (root_of l)) = mk_node (zpar k) d (root_of r) (root_of l)"
  shows "becomes m (upd a f m) k (PN l a d r)"
  using z f by (auto simp: becomes_def upd_def ld_focus [OF z] zrep_def addrs_plug)

lemma rb_set_black_focus [focus]:
  "zrep m k (PN l a c r) \<Longrightarrow> becomes m (rb_set_black a m) k (PN l a Black r)"
  unfolding rb_set_black_def by (rule color_focus) simp_all

lemma rb_set_red_focus [focus]:
  "zrep m k (PN l a c r) \<Longrightarrow> becomes m (rb_set_red a m) k (PN l a Red r)"
  unfolding rb_set_red_def by (rule color_focus) (simp_all add: zrep_aligned)

lemma rb_set_color_focus [focus]:
  "zrep m k (PN l a c r) \<Longrightarrow> becomes m (rb_set_color a (col d) m) k (PN l a d r)"
  unfolding rb_set_color_def by (rule color_focus) (simp_all add: zrep_aligned)

lemmas field_defs = upd_def set_left_def set_right_def rb_set_parent_def ld_def


lemma zrep_above [focus]:
  "zrep m (FL a c r # k) t \<Longrightarrow> aligned (zpar k)"
  "zrep m (FR l a c # k) t \<Longrightarrow> aligned (zpar k)"
  by (auto simp: zrep_def dest: heap_zip_aligned)

lemma rotate_left_focus [focus]:
  assumes z: "zrep m k (PN l a c (PN rl b d rr))"
  shows "becomes m (do_rb_rotate_left a m) k (PN (PN l a c rl) b d rr)"
proof -
  have ne: "a \<noteq> b" "b \<noteq> a" using z by (auto simp: zrep_def)
  note al = zrep_aligned [OF z]
  show ?thesis
  proof (cases k rule: zpar.cases)
    case 1
    show ?thesis
      using z al ne unfolding 1
      by (cases rl; clarsimp simp: zrep_def)
         (simp_all add: do_rb_rotate_left_def field_defs becomes_def zrep_def addrs_plug root_of_neq)
  next
    case (2 p e s k')
    have "aligned (zpar k')" using z 2 by (auto intro: focus)
    then show ?thesis
      using z al ne unfolding 2
      by (cases rl; clarsimp simp: zrep_def)
         (simp_all add: do_rb_rotate_left_def field_defs becomes_def zrep_def addrs_plug root_of_neq)
  next
    case (3 s p e k')
    have "aligned (zpar k')" using z 3 by (auto intro: focus)
    then show ?thesis
      using z al ne unfolding 3
      by (cases rl; clarsimp simp: zrep_def)
         (simp_all add: do_rb_rotate_left_def field_defs becomes_def zrep_def addrs_plug root_of_neq)
  qed
qed

lemma rotate_right_focus [focus]:
  assumes z: "zrep m k (PN (PN ll b d lr) a c r)"
  shows "becomes m (do_rb_rotate_right a m) k (PN ll b d (PN lr a c r))"
proof -
  have ne: "a \<noteq> b" "b \<noteq> a" using z by (auto simp: zrep_def)
  note al = zrep_aligned [OF z]
  show ?thesis
  proof (cases k rule: zpar.cases)
    case 1
    show ?thesis
      using z al ne unfolding 1
      by (cases lr; clarsimp simp: zrep_def)
         (simp_all add: do_rb_rotate_right_def field_defs becomes_def zrep_def addrs_plug root_of_neq)
  next
    case (2 p e s k')
    have "aligned (zpar k')" using z 2 by (auto intro: focus)
    then show ?thesis
      using z al ne unfolding 2
      by (cases lr; clarsimp simp: zrep_def)
         (simp_all add: do_rb_rotate_right_def field_defs becomes_def zrep_def addrs_plug root_of_neq)
  next
    case (3 s p e k')
    have "aligned (zpar k')" using z 3 by (auto intro: focus)
    then show ?thesis
      using z al ne unfolding 3
      by (cases lr; clarsimp simp: zrep_def)
         (simp_all add: do_rb_rotate_right_def field_defs becomes_def zrep_def addrs_plug root_of_neq)
  qed
qed


text \<open>The same operations on the children and grandchildren of the focus.\<close>

lemmas at_left [focus] =
  rb_set_black_focus [where k = "FL a' c' r' # k'", unfolded zrep_FL ends_FL]
  rb_set_red_focus [where k = "FL a' c' r' # k'", unfolded zrep_FL ends_FL]
  rb_set_color_focus [where k = "FL a' c' r' # k'", unfolded zrep_FL ends_FL]
  rotate_left_focus [where k = "FL a' c' r' # k'", unfolded zrep_FL ends_FL]
  rotate_right_focus [where k = "FL a' c' r' # k'", unfolded zrep_FL ends_FL] for a' c' r' k'

lemmas at_right [focus] =
  rb_set_black_focus [where k = "FR l' a' c' # k'", unfolded zrep_FR ends_FR]
  rb_set_red_focus [where k = "FR l' a' c' # k'", unfolded zrep_FR ends_FR]
  rb_set_color_focus [where k = "FR l' a' c' # k'", unfolded zrep_FR ends_FR]
  rotate_left_focus [where k = "FR l' a' c' # k'", unfolded zrep_FR ends_FR]
  rotate_right_focus [where k = "FR l' a' c' # k'", unfolded zrep_FR ends_FR] for l' a' c' k'

lemmas at_left_left [focus] =
  rb_set_black_focus [where k = "FL a' c' r' # FL a'' c'' r'' # k'", unfolded zrep_FL ends_FL]
  for a' c' r' a'' c'' r'' k'

lemmas at_right_right [focus] =
  rb_set_black_focus [where k = "FR l' a' c' # FR l'' a'' c'' # k'", unfolded zrep_FR ends_FR]
  for l' a' c' l'' a'' c'' k'

lemmas at_left_right [focus] =
  rb_set_black_focus [where k = "FR l' a' c' # FL a'' c'' r'' # k'",
    unfolded zrep_FR ends_FR zrep_FL ends_FL]
  for l' a' c' a'' c'' r'' k'

lemmas at_right_left [focus] =
  rb_set_black_focus [where k = "FL a' c' r' # FR l'' a'' c'' # k'",
    unfolded zrep_FR ends_FR zrep_FL ends_FL]
  for a' c' r' l'' a'' c'' k'

lemma ld_left [focus]:
  "zrep m k (PN (PN ll b d lr) a c r) \<Longrightarrow> ld m b = Some (mk_node a d (root_of lr) (root_of ll))"
  using ld_focus [of m "FL a c r # k"] by (simp add: zrep_FL)

lemma ld_right [focus]:
  "zrep m k (PN l a c (PN rl b d rr)) \<Longrightarrow> ld m b = Some (mk_node a d (root_of rr) (root_of rl))"
  using ld_focus [of m "FR l a c # k"] by (simp add: zrep_FR)

end
