(* ===== verification/RBInsert.thy ===== *)
theory RBInsert
  imports RBShape
begin

text \<open>
  \<open>rb_insert_color\<close>: the red-black invariant on shapes and on zippers, and the proof that the
  pointer loop restores it. Every pass through the loop either ends it or moves the focus two
  levels up, so the proof is an induction on the length of the zipper.
\<close>

subsection \<open>The red-black invariant\<close>

fun color_of :: "ptree \<Rightarrow> color" where
  "color_of PL = Black"
| "color_of (PN l a c r) = c"

text \<open>No red node has a red child.\<close>

fun redok :: "ptree \<Rightarrow> bool" where
  "redok PL \<longleftrightarrow> True"
| "redok (PN l a c r) \<longleftrightarrow>
     redok l \<and> redok r \<and> (c = Red \<longrightarrow> color_of l = Black \<and> color_of r = Black)"

text \<open>All paths down from a node pass the same number of black nodes.\<close>

fun bh :: "ptree \<Rightarrow> nat" where
  "bh PL = 0"
| "bh (PN l a c r) = bh l + (if c = Black then 1 else 0)"

fun balanced :: "ptree \<Rightarrow> bool" where
  "balanced PL \<longleftrightarrow> True"
| "balanced (PN l a c r) \<longleftrightarrow> balanced l \<and> balanced r \<and> bh l = bh r"

definition rb_ok :: "ptree \<Rightarrow> bool" where
  "rb_ok t \<longleftrightarrow> redok t \<and> balanced t \<and> color_of t = Black"

fun blacken :: "ptree \<Rightarrow> ptree" where
  "blacken PL = PL"
| "blacken (PN l a c r) = PN l a Black r"

lemma blacken_simps [simp]:
  "addrs (blacken t) = addrs t" "root_of (blacken t) = root_of t" "color_of (blacken t) = Black"
  "balanced (blacken t) = balanced t"
  by (cases t; simp)+

lemma redok_blacken: "redok t \<Longrightarrow> redok (blacken t)"
  by (cases t) simp_all

lemma color_cases [simp]: "c \<noteq> Black \<longleftrightarrow> c = Red" "c \<noteq> Red \<longleftrightarrow> c = Black"
  by (cases c; simp)+

subsection \<open>The invariant of a tree from a zipper's\<close>

fun zcolor :: "zipper \<Rightarrow> color" where
  "zcolor [] = Black"
| "zcolor (FL a c r # k) = c"
| "zcolor (FR l a c # k) = c"

fun zred :: "zipper \<Rightarrow> bool" where
  "zred [] \<longleftrightarrow> True"
| "zred (FL a c r # k) \<longleftrightarrow>
     redok r \<and> (c = Red \<longrightarrow> color_of r = Black \<and> zcolor k = Black) \<and> zred k"
| "zred (FR l a c # k) \<longleftrightarrow>
     redok l \<and> (c = Red \<longrightarrow> color_of l = Black \<and> zcolor k = Black) \<and> zred k"

fun zbal :: "nat \<Rightarrow> zipper \<Rightarrow> bool" where
  "zbal n [] \<longleftrightarrow> True"
| "zbal n (FL a c r # k) \<longleftrightarrow> balanced r \<and> bh r = n \<and> zbal (n + (if c = Black then 1 else 0)) k"
| "zbal n (FR l a c # k) \<longleftrightarrow> balanced l \<and> bh l = n \<and> zbal (n + (if c = Black then 1 else 0)) k"

text \<open>The colour of the root, for a zipper that is not empty.\<close>

fun zroot :: "zipper \<Rightarrow> color" where
  "zroot [] = Black"
| "zroot [f] = zcolor [f]"
| "zroot (f # k) = zroot k"

lemma redok_plug: "redok (plug k t) \<longleftrightarrow> redok t \<and> zred k \<and> (color_of t = Red \<longrightarrow> zcolor k = Black)"
  by (induction k t rule: plug.induct) auto

lemma balanced_plug: "balanced (plug k t) \<longleftrightarrow> balanced t \<and> zbal (bh t) k"
  by (induction k t rule: plug.induct) auto

lemma color_plug: "color_of (plug k t) = (if k = [] then color_of t else zroot k)"
  by (induction k t rule: plug.induct) (auto simp: neq_Nil_conv)

lemma zroot_Cons: "k \<noteq> [] \<Longrightarrow> zroot (f # k) = zroot k"
  by (cases k) simp_all

lemmas plug_invs = redok_plug balanced_plug color_plug

subsection \<open>The loop\<close>

lemma nonnull_red_focus [focus]:
  "zrep m k t \<Longrightarrow> nonnull_red (root_of t) m = Some (color_of t = Red)"
  by (cases t) (auto simp: nonnull_red_def ld_focus zrep_aligned dest: zrep_root_node)

lemma null_or_black_focus [focus]:
  "zrep m k t \<Longrightarrow> null_or_black (root_of t) m = Some (color_of t = Black)"
  by (cases t) (auto simp: null_or_black_def ld_focus zrep_aligned dest: zrep_root_node)

lemma nonnull_red_left [focus]:
  "zrep m k (PN t a c r) \<Longrightarrow> nonnull_red (root_of t) m = Some (color_of t = Red)"
  by (rule nonnull_red_focus [of m "FL a c r # k"]) (simp add: zrep_FL)

lemma nonnull_red_right [focus]:
  "zrep m k (PN l a c t) \<Longrightarrow> nonnull_red (root_of t) m = Some (color_of t = Red)"
  by (rule nonnull_red_focus [of m "FR l a c # k"]) (simp add: zrep_FR)

lemma insert_color_left_recolor:
  assumes z: "zrep m k (PN (PN pl p pc pr) g gc (PN ul u Red ur))"
  shows "ends (Pair g) m (insert_color_left n p g m) k
           (PN (PN pl p Black pr) g Red (PN ul u Black ur))"
  unfolding insert_color_left_def
  apply (simp add: ld_focus [OF z] nonnull_red_right [OF z, simplified])
  apply (rule ends_bind, rule at_right(1) [OF z])
  apply (rule ends_bind, erule at_left(1))
  apply (rule ends_bind, erule rb_set_red_focus)
  apply (erule ends_Some)
  apply (simp_all add: addrs_plug)
  done

lemma insert_color_left_line:
  assumes z: "zrep m k (PN (PN (PN nl n nc nr) p pc s) g gc u)" and u: "color_of u = Black"
  shows "ends (Pair n) m (insert_color_left n p g m) k
           (PN (PN nl n nc nr) p Black (PN s g Red u))"
proof -
  have "root_of s \<noteq> n"
    using z by (intro root_of_neq) (auto simp: zrep_def)
  then show ?thesis
    unfolding insert_color_left_def
    apply (simp add: ld_focus [OF z] nonnull_red_right [OF z] ld_left [OF z] u)
    apply (rule ends_bind, rule at_left(1) [OF z])
    apply (rule ends_bind, erule rb_set_red_focus)
    apply (rule ends_bind, erule rotate_right_focus)
    apply (erule ends_Some)
    apply (simp_all add: addrs_plug)
    done
qed

lemma insert_color_left_bend:
  assumes z: "zrep m k (PN (PN s p pc (PN nl n nc nr)) g gc u)" and u: "color_of u = Black"
  shows "ends (Pair p) m (insert_color_left n p g m) k
           (PN (PN s p pc nl) n Black (PN nr g Red u))"
  unfolding insert_color_left_def
  apply (simp add: ld_focus [OF z] nonnull_red_right [OF z] ld_left [OF z] u)
  apply (rule ends_bind, rule at_left(4) [OF z])
  apply (rule ends_bind, erule at_left(1))
  apply (rule ends_bind, erule rb_set_red_focus)
  apply (rule ends_bind, erule rotate_right_focus)
  apply (erule ends_Some)
  apply (simp_all add: addrs_plug)
  done

lemma insert_color_right_recolor:
  assumes z: "zrep m k (PN (PN ul u Red ur) g gc (PN pl p pc pr))"
  shows "ends (Pair g) m (insert_color_right n p g m) k
           (PN (PN ul u Black ur) g Red (PN pl p Black pr))"
  unfolding insert_color_right_def
  apply (simp add: ld_focus [OF z] nonnull_red_left [OF z, simplified])
  apply (rule ends_bind, rule at_left(1) [OF z])
  apply (rule ends_bind, erule at_right(1))
  apply (rule ends_bind, erule rb_set_red_focus)
  apply (erule ends_Some)
  apply (simp_all add: addrs_plug)
  done

lemma insert_color_right_line:
  assumes z: "zrep m k (PN u g gc (PN s p pc (PN nl n nc nr)))" and u: "color_of u = Black"
  shows "ends (Pair n) m (insert_color_right n p g m) k
           (PN (PN u g Red s) p Black (PN nl n nc nr))"
proof -
  have "root_of s \<noteq> n"
    using z by (intro root_of_neq) (auto simp: zrep_def)
  then show ?thesis
    unfolding insert_color_right_def
    apply (simp add: ld_focus [OF z] nonnull_red_left [OF z] ld_right [OF z] u)
    apply (rule ends_bind, rule at_right(1) [OF z])
    apply (rule ends_bind, erule rb_set_red_focus)
    apply (rule ends_bind, erule rotate_left_focus)
    apply (erule ends_Some)
    apply (simp_all add: addrs_plug)
    done
qed

lemma insert_color_right_bend:
  assumes z: "zrep m k (PN u g gc (PN (PN nl n nc nr) p pc s))" and u: "color_of u = Black"
  shows "ends (Pair p) m (insert_color_right n p g m) k
           (PN (PN u g Red nl) n Black (PN nr p pc s))"
  unfolding insert_color_right_def
  apply (simp add: ld_focus [OF z] nonnull_red_left [OF z] ld_right [OF z] u)
  apply (rule ends_bind, rule at_right(5) [OF z])
  apply (rule ends_bind, erule at_right(1))
  apply (rule ends_bind, erule rb_set_red_focus)
  apply (rule ends_bind, erule rotate_left_focus)
  apply (erule ends_Some)
  apply (simp_all add: addrs_plug)
  done

lemma zrep_parent [focus]:
  "zrep m (FL p c s # k) t \<Longrightarrow> ld m p = Some (mk_node (zpar k) c (root_of s) (root_of t))"
  "zrep m (FR s p c # k) t \<Longrightarrow> ld m p = Some (mk_node (zpar k) c (root_of t) (root_of s))"
  by (simp_all add: zrep_def ld_def)

lemma nonnull_red_zpar [focus]:
  "zrep m k t \<Longrightarrow> nonnull_red (zpar k) m = Some (zcolor k = Red)"
  by (cases k rule: zpar.cases)
     (auto simp: nonnull_red_def zrep_parent zrep_above dest: zrep_zpar)

lemma insert_color_loop_stop:
  assumes z: "zrep m k (PN l n c r)" and "zcolor k = Black"
  shows "insert_color_loop n m = Some m"
  using assms(2)
  by (subst insert_color_loop.simps)
     (simp add: ld_focus [OF z] zrep_aligned [OF z] nonnull_red_zpar [OF z])

text \<open>\<open>fixed m res as\<close>: the operation returned a memory that holds a tree with the addresses
  \<open>as\<close> in this order, with no red node below a red one and balanced, and wrote nothing else.\<close>

definition fixed :: "rb_mem \<Rightarrow> rb_mem option \<Rightarrow> u64 list \<Rightarrow> bool" where
  "fixed m res as \<longleftrightarrow> (\<exists>t. becomes m res [] t \<and> addrs t = as \<and> redok t \<and> balanced t)"

lemma fixed_bind:
  assumes e: "ends g m res k t" and as: "addrs (plug k t) = as"
    and f: "\<And>m'. zrep m' k t \<Longrightarrow> fixed m' (f (g m')) as"
  shows "fixed m (res \<bind> f) as"
proof -
  from e obtain m' where m': "res = Some (g m')" "zrep m' k t"
    "\<forall>a. a \<notin> set as \<longrightarrow> nodes m' a = nodes m a"
    by (auto simp: ends_def as)
  from f [OF m'(2)] m' show ?thesis
    by (fastforce simp: fixed_def ends_def)
qed

lemma fixed_Some:
  "zrep m k t \<Longrightarrow> redok (plug k t) \<Longrightarrow> balanced (plug k t) \<Longrightarrow> addrs (plug k t) = as \<Longrightarrow>
   fixed m (Some m) as"
  unfolding fixed_def by (rule exI [of _ "plug k t"]) (auto simp: ends_def zrep_plug [of m k t])

lemma insert_color_loop_left:
  assumes n: "ld m n = Some nd" "rb_parent nd = p" and z: "zrep m k (PN (PN pl p Red pr) g gc u)"
  shows "insert_color_loop n m = insert_color_left n p g m \<bind> (\<lambda>(node, m). insert_color_loop node m)"
proof -
  have "nonnull_red p m = Some True" "aligned g"
    using nonnull_red_left [OF z] z by (auto simp: zrep_def)
  then show ?thesis
    by (subst insert_color_loop.simps) (simp add: n ld_left [OF z] ld_focus [OF z])
qed

lemma insert_color_loop_right:
  assumes n: "ld m n = Some nd" "rb_parent nd = p" and z: "zrep m k (PN u g gc (PN pl p Red pr))"
  shows "insert_color_loop n m = insert_color_right n p g m \<bind> (\<lambda>(node, m). insert_color_loop node m)"
proof -
  have "nonnull_red p m = Some True" "aligned g" "p \<noteq> root_of u"
    using nonnull_red_right [OF z] zrep_sibling(1) [OF z] z by (auto simp: zrep_def)
  then show ?thesis
    by (subst insert_color_loop.simps) (simp add: n ld_right [OF z] ld_focus [OF z])
qed

lemma insert_color_loop_stop_fixed:
  assumes "zrep m k (PN l n c r)" "zcolor k = Black" "redok (plug k (PN l n c r))"
    "balanced (plug k (PN l n c r))" "addrs (plug k (PN l n c r)) = as"
  shows "fixed m (insert_color_loop n m) as"
  using insert_color_loop_stop [OF assms(1,2)] fixed_Some [OF assms(1,3-)] by simp

text \<open>The invariant of the loop: the node in focus is red, everything else is in order but for
  its parent, which may be red too.\<close>

definition ins_inv :: "zipper \<Rightarrow> ptree \<Rightarrow> bool" where
  "ins_inv k t \<longleftrightarrow> color_of t = Red \<and> redok t \<and> balanced t \<and> zred k \<and> zbal (bh t) k \<and> zroot k = Black"

text \<open>A pass with a red uncle goes on from the grandparent, any other ends the loop.\<close>

lemma insert_pass_recolor_left:
  assumes n: "ld m n = Some nd" "rb_parent nd = p"
    and z: "zrep m k (PN (PN pl p Red pr) g gc u)" "color_of u = Red"
    and IH: "\<And>m'. zrep m' k (PN (PN pl p Black pr) g Red (blacken u)) \<Longrightarrow>
       fixed m' (insert_color_loop g m') as"
    and as: "addrs (plug k (PN (PN pl p Red pr) g gc u)) = as"
  shows "fixed m (insert_color_loop n m) as"
proof -
  from z obtain ul ua ur where u: "u = PN ul ua Red ur" by (cases u) auto
  from IH u as show ?thesis
    unfolding insert_color_loop_left [OF n z(1)]
    by (intro fixed_bind [OF insert_color_left_recolor [OF z(1) [unfolded u]]])
       (auto simp: addrs_plug)
qed

lemma insert_pass_recolor_right:
  assumes n: "ld m n = Some nd" "rb_parent nd = p"
    and z: "zrep m k (PN u g gc (PN pl p Red pr))" "color_of u = Red"
    and IH: "\<And>m'. zrep m' k (PN (blacken u) g Red (PN pl p Black pr)) \<Longrightarrow>
       fixed m' (insert_color_loop g m') as"
    and as: "addrs (plug k (PN u g gc (PN pl p Red pr))) = as"
  shows "fixed m (insert_color_loop n m) as"
proof -
  from z obtain ul ua ur where u: "u = PN ul ua Red ur" by (cases u) auto
  from IH u as show ?thesis
    unfolding insert_color_loop_right [OF n z(1)]
    by (intro fixed_bind [OF insert_color_right_recolor [OF z(1) [unfolded u]]])
       (auto simp: addrs_plug)
qed

lemma insert_pass_line_left:
  assumes n: "ld m n = Some nd" "rb_parent nd = p"
    and z: "zrep m k (PN (PN (PN nl n c nr) p Red s) g gc u)" "color_of u = Black"
    and ok: "redok (plug k (PN (PN nl n c nr) p Black (PN s g Red u)))"
      "balanced (plug k (PN (PN nl n c nr) p Black (PN s g Red u)))"
  shows "fixed m (insert_color_loop n m) (addrs (plug k (PN (PN (PN nl n c nr) p Red s) g gc u)))"
  unfolding insert_color_loop_left [OF n z(1)]
  using ok
  by (intro fixed_bind [OF insert_color_left_line [OF z]])
     (auto simp: addrs_plug zrep_FL
       intro!: insert_color_loop_stop_fixed [of _ "FL p Black (PN s g Red u) # k"])

lemma insert_pass_line_right:
  assumes n: "ld m n = Some nd" "rb_parent nd = p"
    and z: "zrep m k (PN u g gc (PN s p Red (PN nl n c nr)))" "color_of u = Black"
    and ok: "redok (plug k (PN (PN u g Red s) p Black (PN nl n c nr)))"
      "balanced (plug k (PN (PN u g Red s) p Black (PN nl n c nr)))"
  shows "fixed m (insert_color_loop n m) (addrs (plug k (PN u g gc (PN s p Red (PN nl n c nr)))))"
  unfolding insert_color_loop_right [OF n z(1)]
  using ok
  by (intro fixed_bind [OF insert_color_right_line [OF z]])
     (auto simp: addrs_plug zrep_FR
       intro!: insert_color_loop_stop_fixed [of _ "FR (PN u g Red s) p Black # k"])

lemma insert_pass_bend_left:
  assumes n: "ld m n = Some nd" "rb_parent nd = p"
    and z: "zrep m k (PN (PN s p Red (PN nl n c nr)) g gc u)" "color_of u = Black"
    and ok: "redok (plug k (PN (PN s p Red nl) n Black (PN nr g Red u)))"
      "balanced (plug k (PN (PN s p Red nl) n Black (PN nr g Red u)))"
  shows "fixed m (insert_color_loop n m) (addrs (plug k (PN (PN s p Red (PN nl n c nr)) g gc u)))"
  unfolding insert_color_loop_left [OF n z(1)]
  using ok
  by (intro fixed_bind [OF insert_color_left_bend [OF z]])
     (auto simp: addrs_plug zrep_FL
       intro!: insert_color_loop_stop_fixed [of _ "FL n Black (PN nr g Red u) # k"])

lemma insert_pass_bend_right:
  assumes n: "ld m n = Some nd" "rb_parent nd = p"
    and z: "zrep m k (PN u g gc (PN (PN nl n c nr) p Red s))" "color_of u = Black"
    and ok: "redok (plug k (PN (PN u g Red nl) n Black (PN nr p Red s)))"
      "balanced (plug k (PN (PN u g Red nl) n Black (PN nr p Red s)))"
  shows "fixed m (insert_color_loop n m) (addrs (plug k (PN u g gc (PN (PN nl n c nr) p Red s))))"
  unfolding insert_color_loop_right [OF n z(1)]
  using ok
  by (intro fixed_bind [OF insert_color_right_bend [OF z]])
     (auto simp: addrs_plug zrep_FR
       intro!: insert_color_loop_stop_fixed [of _ "FR (PN u g Red nl) n Black # k"])

lemma blacken_inv: "color_of u = Red \<Longrightarrow> redok u \<Longrightarrow> redok (blacken u) \<and> bh (blacken u) = Suc (bh u)"
  by (cases u) auto

lemma zroot_up: "zroot (f # g # k) = Black \<Longrightarrow> zroot k = Black"
  by (cases k) simp_all

lemma insert_color_loop_fixed:
  assumes "zrep m k (PN l n c r)" "ins_inv k (PN l n c r)"
  shows "fixed m (insert_color_loop n m) (addrs (plug k (PN l n c r)))"
  using assms
proof (induction "length k" arbitrary: m k l n c r rule: less_induct)
  case less
  note z = less.prems(1) and inv = less.prems(2)
  note nd = ld_focus [OF z] and al = zrep_aligned [OF z]
  show ?case
  proof (cases "zcolor k")
    case Black
    with z inv show ?thesis
      by (intro insert_color_loop_stop_fixed) (auto simp: ins_inv_def plug_invs)
  next
    case Red
    then obtain f g k' where k: "k = f # g # k'"
      using inv by (cases k rule: zroot.cases) (auto simp: ins_inv_def)
    have up: "fixed m' (insert_color_loop a m') as"
      if "addrs (plug k' (PN l' a Red r')) = as" "zrep m' k' (PN l' a Red r')" "redok (PN l' a Red r')" "balanced (PN l' a Red r')"
        "zbal (bh l') k'" for m' l' a r' as
      using less.hyps [of k' m' l' a Red r'] that k inv zroot_up [of f g k']
      by (cases f; cases g; auto simp: ins_inv_def)
    show ?thesis
    proof (cases g)
      case g: (FL ga gc u)
      show ?thesis
      proof (cases f)
        case f: (FL p pc s)
        with g k Red have z': "zrep m k' (PN (PN (PN l n c r) p Red s) ga gc u)"
          using z by (simp add: zrep_FL zrep_FR)
        have pa: "rb_parent (mk_node (zpar k) c (root_of r) (root_of l)) = p"
          using al f k by simp
        show ?thesis
        proof (cases "color_of u")
          case Red
          then show ?thesis
            using f g k inv blacken_inv [of u] \<open>zcolor k = Red\<close>
            by (intro insert_pass_recolor_left [OF nd pa z'])
               (auto simp: ins_inv_def addrs_plug intro!: up)
        next
          case Black
          then show ?thesis
            using insert_pass_line_left [OF nd pa z'] f g k inv \<open>zcolor k = Red\<close>
            by (auto simp: ins_inv_def plug_invs addrs_plug)
        qed
      next
        case f: (FR s p pc)
        with g k Red have z': "zrep m k' (PN (PN s p Red (PN l n c r)) ga gc u)"
          using z by (simp add: zrep_FL zrep_FR)
        have pa: "rb_parent (mk_node (zpar k) c (root_of r) (root_of l)) = p"
          using al f k by simp
        show ?thesis
        proof (cases "color_of u")
          case Red
          then show ?thesis
            using f g k inv blacken_inv [of u] \<open>zcolor k = Red\<close>
            by (intro insert_pass_recolor_left [OF nd pa z'])
               (auto simp: ins_inv_def addrs_plug intro!: up)
        next
          case Black
          then show ?thesis
            using insert_pass_bend_left [OF nd pa z'] f g k inv \<open>zcolor k = Red\<close>
            by (auto simp: ins_inv_def plug_invs addrs_plug)
        qed
      qed
    next
      case g: (FR u ga gc)
      show ?thesis
      proof (cases f)
        case f: (FL p pc s)
        with g k Red have z': "zrep m k' (PN u ga gc (PN (PN l n c r) p Red s))"
          using z by (simp add: zrep_FL zrep_FR)
        have pa: "rb_parent (mk_node (zpar k) c (root_of r) (root_of l)) = p"
          using al f k by simp
        show ?thesis
        proof (cases "color_of u")
          case Red
          then show ?thesis
            using f g k inv blacken_inv [of u] \<open>zcolor k = Red\<close>
            by (intro insert_pass_recolor_right [OF nd pa z'])
               (auto simp: ins_inv_def addrs_plug intro!: up)
        next
          case Black
          then show ?thesis
            using insert_pass_bend_right [OF nd pa z'] f g k inv \<open>zcolor k = Red\<close>
            by (auto simp: ins_inv_def plug_invs addrs_plug)
        qed
      next
        case f: (FR s p pc)
        with g k Red have z': "zrep m k' (PN u ga gc (PN s p Red (PN l n c r)))"
          using z by (simp add: zrep_FL zrep_FR)
        have pa: "rb_parent (mk_node (zpar k) c (root_of r) (root_of l)) = p"
          using al f k by simp
        show ?thesis
        proof (cases "color_of u")
          case Red
          then show ?thesis
            using f g k inv blacken_inv [of u] \<open>zcolor k = Red\<close>
            by (intro insert_pass_recolor_right [OF nd pa z'])
               (auto simp: ins_inv_def addrs_plug intro!: up)
        next
          case Black
          then show ?thesis
            using insert_pass_line_right [OF nd pa z'] f g k inv \<open>zcolor k = Red\<close>
            by (auto simp: ins_inv_def plug_invs addrs_plug)
        qed
      qed
    qed
  qed
qed

end
