(* ===== verification/RBErase.thy ===== *)
theory RBErase
  imports RBInsert
begin

text \<open>\<open>rb_erase\<close> and \<open>__rb_erase_color\<close>.\<close>

lemma null_or_black_left [focus]:
  "zrep m k (PN t a c r) \<Longrightarrow> null_or_black (root_of t) m = Some (color_of t = Black)"
  by (rule null_or_black_focus [of m "FL a c r # k"]) (simp add: zrep_FL)

lemma null_or_black_right [focus]:
  "zrep m k (PN l a c t) \<Longrightarrow> null_or_black (root_of t) m = Some (color_of t = Black)"
  by (rule null_or_black_focus [of m "FR l a c # k"]) (simp add: zrep_FR)


lemmas black_nephew_left =
  null_or_black_left [where k = "FR l' a' c' # k'", unfolded zrep_FR]
  null_or_black_right [where k = "FR l' a' c' # k'", unfolded zrep_FR] for l' a' c' k'

lemmas black_nephew_right =
  null_or_black_left [where k = "FL a' c' r' # k'", unfolded zrep_FL]
  null_or_black_right [where k = "FL a' c' r' # k'", unfolded zrep_FL] for r' a' c' k'

lemma erase_left_recolor:
  assumes z: "zrep m k (PN t p pc (PN sl s Black sr))"
    and c: "color_of sl = Black" "color_of sr = Black"
  shows "ends (\<lambda>m. Inl (p, zpar k, m)) m (erase_color_left_rest p s m) k (PN t p pc (PN sl s Red sr))"
  unfolding erase_color_left_rest_def
  apply (simp add: ld_right [OF z] c black_nephew_left [OF z])
  apply (rule ends_bind, rule at_right(2) [OF z])
  subgoal premises z' for m'
    by (simp add: ld_focus [OF z'] zrep_aligned [OF z'] ends_Some [OF z', of "\<lambda>m. Inl (p, zpar k, m)"])
  apply simp
  done

text \<open>The last steps of both halves: the sibling takes the parent's colour, the parent and the
  far nephew turn black, and a rotation at the parent ends the loop.\<close>

lemma erase_left_last:
  assumes z: "zrep m k (PN t p pc (PN sl s sc (PN a y yc b)))"
  shows "ends (\<lambda>m. Inr (rb_root m, m)) m
     (do { pn \<leftarrow> ld m p;
           m \<leftarrow> rb_set_color s (rb_color pn) m;
           m \<leftarrow> rb_set_black p m;
           otn \<leftarrow> ld m s;
           m \<leftarrow> (if rb_right otn \<noteq> 0 then rb_set_black (rb_right otn) m else Some m);
           m \<leftarrow> do_rb_rotate_left p m;
           Some (Inr (rb_root m, m)) }) k (PN (PN t p Black sl) s pc (PN a y Black b))"
proof -
  have y: "y \<noteq> 0" using z by (auto simp: zrep_def)
  show ?thesis
    apply (simp add: ld_focus [OF z] zrep_aligned [OF z])
    apply (rule ends_bind, rule at_right(3) [OF z])
    apply (rule ends_bind, erule rb_set_black_focus)
    subgoal premises z' for m1 m2
      apply (simp add: ld_right [OF z'(2)] y)
      apply (rule ends_bind, rule at_right_right [OF z'(2)])
      apply (rule ends_bind, erule rotate_left_focus)
      apply (erule ends_Some)
      apply (simp_all add: addrs_plug)
      done
    apply (simp_all add: addrs_plug)
    done
qed

lemma erase_left_far:
  assumes z: "zrep m k (PN t p pc (PN sl s Black (PN a y Red b)))"
  shows "ends (\<lambda>m. Inr (rb_root m, m)) m (erase_color_left_rest p s m) k
     (PN (PN t p Black sl) s pc (PN a y Black b))"
  using erase_left_last [OF z]
  unfolding erase_color_left_rest_def
  by (cases "color_of sl")
     (simp_all add: ld_right [OF z] black_nephew_left(1) [OF z] black_nephew_left(2) [OF z, simplified])

lemma erase_left_near:
  assumes z: "zrep m k (PN t p pc (PN (PN a x Red b) s Black sr))" and c: "color_of sr = Black"
  shows "ends (\<lambda>m. Inr (rb_root m, m)) m (erase_color_left_rest p s m) k
     (PN (PN t p Black a) x pc (PN b s Black sr))"
proof -
  have x: "x \<noteq> 0" using z by (auto simp: zrep_def)
  show ?thesis
    unfolding erase_color_left_rest_def
    apply (simp add: ld_right [OF z] c black_nephew_left(1) [OF z, simplified] black_nephew_left(2) [OF z] x)
    apply (rule ends_bind, rule at_right_left [OF z])
    apply (rule ends_bind, erule at_right(2))
    apply (rule ends_bind, erule at_right(5))
    subgoal premises z' for m1 m2 m3
      using erase_left_last [OF z'(3)] by (simp add: ld_focus [OF z'(3)] cong: if_cong)
    apply (simp_all add: addrs_plug)
    done
qed

lemma erase_right_recolor:
  assumes z: "zrep m k (PN (PN sl s Black sr) p pc t)"
    and c: "color_of sl = Black" "color_of sr = Black"
  shows "ends (\<lambda>m. Inl (p, zpar k, m)) m (erase_color_right_rest p s m) k (PN (PN sl s Red sr) p pc t)"
  unfolding erase_color_right_rest_def
  apply (simp add: ld_left [OF z] c black_nephew_right [OF z])
  apply (rule ends_bind, rule at_left(2) [OF z])
  subgoal premises z' for m'
    by (simp add: ld_focus [OF z'] zrep_aligned [OF z'] ends_Some [OF z', of "\<lambda>m. Inl (p, zpar k, m)"])
  apply simp
  done

lemma erase_right_last:
  assumes z: "zrep m k (PN (PN (PN a y yc b) s sc sr) p pc t)"
  shows "ends (\<lambda>m. Inr (rb_root m, m)) m
     (do { pn \<leftarrow> ld m p;
           m \<leftarrow> rb_set_color s (rb_color pn) m;
           m \<leftarrow> rb_set_black p m;
           otn \<leftarrow> ld m s;
           m \<leftarrow> (if rb_left otn \<noteq> 0 then rb_set_black (rb_left otn) m else Some m);
           m \<leftarrow> do_rb_rotate_right p m;
           Some (Inr (rb_root m, m)) }) k (PN (PN a y Black b) s pc (PN sr p Black t))"
proof -
  have y: "y \<noteq> 0" using z by (auto simp: zrep_def)
  show ?thesis
    apply (simp add: ld_focus [OF z] zrep_aligned [OF z])
    apply (rule ends_bind, rule at_left(3) [OF z])
    apply (rule ends_bind, erule rb_set_black_focus)
    subgoal premises z' for m1 m2
      apply (simp add: ld_left [OF z'(2)] y)
      apply (rule ends_bind, rule at_left_left [OF z'(2)])
      apply (rule ends_bind, erule rotate_right_focus)
      apply (erule ends_Some)
      apply (simp_all add: addrs_plug)
      done
    apply (simp_all add: addrs_plug)
    done
qed

lemma erase_right_far:
  assumes z: "zrep m k (PN (PN (PN a y Red b) s Black sr) p pc t)"
  shows "ends (\<lambda>m. Inr (rb_root m, m)) m (erase_color_right_rest p s m) k
     (PN (PN a y Black b) s pc (PN sr p Black t))"
  using erase_right_last [OF z]
  unfolding erase_color_right_rest_def
  by (cases "color_of sr")
     (simp_all add: ld_left [OF z] black_nephew_right(1) [OF z, simplified] black_nephew_right(2) [OF z])

lemma erase_right_near:
  assumes z: "zrep m k (PN (PN sl s Black (PN a x Red b)) p pc t)" and c: "color_of sl = Black"
  shows "ends (\<lambda>m. Inr (rb_root m, m)) m (erase_color_right_rest p s m) k
     (PN (PN sl s Black a) x pc (PN b p Black t))"
proof -
  have x: "x \<noteq> 0" using z by (auto simp: zrep_def)
  show ?thesis
    unfolding erase_color_right_rest_def
    apply (simp add: ld_left [OF z] c black_nephew_right(1) [OF z] black_nephew_right(2) [OF z, simplified] x)
    apply (rule ends_bind, rule at_left_right [OF z])
    apply (rule ends_bind, erule at_left(2))
    apply (rule ends_bind, erule at_left(4))
    subgoal premises z' for m1 m2 m3
      using erase_right_last [OF z'(3)] by (simp add: ld_focus [OF z'(3)] cong: if_cong)
    apply (simp_all add: addrs_plug)
    done
qed

text \<open>A black sibling goes straight to the tests of its children; a red one is rotated up first,
  and the loop body goes on one level further down with the former near nephew as the sibling.\<close>

lemma erase_left_black:
  assumes z: "zrep m k (PN t p pc (PN sl s Black sr))"
  shows "erase_color_left p m = erase_color_left_rest p s m"
  unfolding erase_color_left_def using z
  by (simp add: ld_focus [OF z] ld_right [OF z]) (simp add: zrep_def)

lemma erase_right_black:
  assumes z: "zrep m k (PN (PN sl s Black sr) p pc t)"
  shows "erase_color_right p m = erase_color_right_rest p s m"
  unfolding erase_color_right_def using z
  by (simp add: ld_focus [OF z] ld_left [OF z]) (simp add: zrep_def)

lemma erase_left_red:
  assumes z: "zrep m k (PN t p pc (PN sl s Red sr))" and as: "addrs (plug k (PN t p pc (PN sl s Red sr))) = as"
  obtains m' where "zrep m' k (PN (PN t p Red sl) s Black sr)"
    "\<forall>a. a \<notin> set as \<longrightarrow> nodes m' a = nodes m a"
    "erase_color_left p m = erase_color_left_rest p (root_of sl) m'"
proof -
  have "aligned p" using z by (simp add: zrep_def)
  have "ends (Pair (root_of sl)) m (do { m \<leftarrow> rb_set_black s m;
          m \<leftarrow> rb_set_red p m;
          m \<leftarrow> do_rb_rotate_left p m;
          pn \<leftarrow> ld m p;
          Some (rb_right pn, m) }) k (PN (PN t p Red sl) s Black sr)"
    apply (rule ends_bind, rule at_right(1) [OF z])
    apply (rule ends_bind, erule rb_set_red_focus)
    apply (rule ends_bind, erule rotate_left_focus)
    subgoal premises z' for m1 m2 m3
      by (simp add: ld_left [OF z'(3)] ends_Some [OF z'(3), of "Pair (root_of sl)"])
    apply (simp_all add: addrs_plug)
    done
  then obtain m' where m': "(do { m \<leftarrow> rb_set_black s m;
          m \<leftarrow> rb_set_red p m;
          m \<leftarrow> do_rb_rotate_left p m;
          pn \<leftarrow> ld m p;
          Some (rb_right pn, m) }) = Some (root_of sl, m')" "zrep m' k (PN (PN t p Red sl) s Black sr)"
    "\<forall>a. a \<notin> set as \<longrightarrow> nodes m' a = nodes m a"
    using as by (auto simp: ends_def addrs_plug)
  from m'(1) have "erase_color_left p m = erase_color_left_rest p (root_of sl) m'"
    using \<open>aligned p\<close> by (simp add: erase_color_left_def ld_focus [OF z] ld_right [OF z])
  with m'(2,3) show ?thesis by (rule that)
qed

lemma erase_right_red:
  assumes z: "zrep m k (PN (PN sl s Red sr) p pc t)" and as: "addrs (plug k (PN (PN sl s Red sr) p pc t)) = as"
  obtains m' where "zrep m' k (PN sl s Black (PN sr p Red t))"
    "\<forall>a. a \<notin> set as \<longrightarrow> nodes m' a = nodes m a"
    "erase_color_right p m = erase_color_right_rest p (root_of sr) m'"
proof -
  have "aligned p" using z by (simp add: zrep_def)
  have "ends (Pair (root_of sr)) m (do { m \<leftarrow> rb_set_black s m;
          m \<leftarrow> rb_set_red p m;
          m \<leftarrow> do_rb_rotate_right p m;
          pn \<leftarrow> ld m p;
          Some (rb_left pn, m) }) k (PN sl s Black (PN sr p Red t))"
    apply (rule ends_bind, rule at_left(1) [OF z])
    apply (rule ends_bind, erule rb_set_red_focus)
    apply (rule ends_bind, erule rotate_right_focus)
    subgoal premises z' for m1 m2 m3
      by (simp add: ld_right [OF z'(3)] ends_Some [OF z'(3), of "Pair (root_of sr)"])
    apply (simp_all add: addrs_plug)
    done
  then obtain m' where m': "(do { m \<leftarrow> rb_set_black s m;
          m \<leftarrow> rb_set_red p m;
          m \<leftarrow> do_rb_rotate_right p m;
          pn \<leftarrow> ld m p;
          Some (rb_left pn, m) }) = Some (root_of sr, m')" "zrep m' k (PN sl s Black (PN sr p Red t))"
    "\<forall>a. a \<notin> set as \<longrightarrow> nodes m' a = nodes m a"
    using as by (auto simp: ends_def addrs_plug)
  from m'(1) have "erase_color_right p m = erase_color_right_rest p (root_of sr) m'"
    using \<open>aligned p\<close> by (simp add: erase_color_right_def ld_focus [OF z] ld_left [OF z])
  with m'(2,3) show ?thesis by (rule that)
qed

subsection \<open>The loop of \<^verbatim>\<open>__rb_erase_color\<close>\<close>

text \<open>\<open>restored m res as\<close>: the operation returned a memory that holds a red-black tree with the
  addresses \<open>as\<close> in this order, and it wrote nothing else.\<close>

definition restored :: "rb_mem \<Rightarrow> rb_mem option \<Rightarrow> u64 list \<Rightarrow> bool" where
  "restored m res as \<longleftrightarrow> (\<exists>t. becomes m res [] t \<and> addrs t = as \<and> rb_ok t)"

lemma restoredI:
  "becomes m res k t \<Longrightarrow> rb_ok (plug k t) \<Longrightarrow> addrs (plug k t) = as \<Longrightarrow> restored m res as"
  unfolding restored_def by (rule exI [of _ "plug k t"]) (auto simp: ends_def zrep_plug [of _ k t])

lemma restored_bind:
  assumes e: "ends g m res k t" and as: "addrs (plug k t) = as"
    and f: "\<And>m'. zrep m' k t \<Longrightarrow> restored m' (f (g m')) as"
  shows "restored m (res \<bind> f) as"
proof -
  from e obtain m' where m': "res = Some (g m')" "zrep m' k t"
    "\<forall>a. a \<notin> set as \<longrightarrow> nodes m' a = nodes m a"
    by (auto simp: ends_def as)
  from f [OF m'(2)] m' show ?thesis
    by (fastforce simp: restored_def ends_def)
qed

lemma restored_frame:
  "restored m' res as \<Longrightarrow> \<forall>a. a \<notin> set as \<longrightarrow> nodes m' a = nodes m a \<Longrightarrow> restored m res as"
  by (force simp: restored_def ends_def)

text \<open>What the function does with the outcome of a pass.\<close>

definition erase_cont :: "(u64 \<times> u64 \<times> rb_mem + u64 \<times> rb_mem) \<Rightarrow> rb_mem option" where
  "erase_cont r = (case r of
      Inl (node, parent, m) \<Rightarrow> do_rb_erase_color node parent m
    | Inr (node, m) \<Rightarrow> if node \<noteq> 0 then rb_set_black node m else Some m)"

lemma do_rb_erase_color_unfold:
  "do_rb_erase_color node parent m = do {
     black \<leftarrow> null_or_black node m;
     if black \<and> node \<noteq> rb_root m then do {
       pn \<leftarrow> ld m parent;
       (if rb_left pn = node then erase_color_left parent m
            else erase_color_right parent m) \<bind> erase_cont }
     else erase_cont (Inr (node, m)) }"
  unfolding do_rb_erase_color_def erase_cont_def
  by (subst erase_color_loop.simps)
     (auto simp: bind_assoc do_rb_erase_color_def intro!: Option.bind_cong split: sum.splits prod.splits)

text \<open>The invariant of the loop: the subtree in focus is one black node short, and may have a red
  root with a red child, which the last step of the function blackens.\<close>

definition del_inv :: "zipper \<Rightarrow> ptree \<Rightarrow> bool" where
  "del_inv k t \<longleftrightarrow> redok (blacken t) \<and> balanced t \<and> zred k \<and> zbal (Suc (bh t)) k \<and> zroot k = Black"

lemma root_plug: "k \<noteq> [] \<Longrightarrow> root_of (plug k t) \<in> set (zleft k @ zright k)"
  by (induction k t rule: plug.induct) (auto, (case_tac k; auto)+)

lemma zrep_rb_root: "zrep m k t \<Longrightarrow> rb_root m = root_of (plug k t)"
  unfolding zrep_plug [of m k t] by (simp add: zrep_def)

lemma zrep_nonzero: "zrep m k t \<Longrightarrow> 0 \<notin> set (addrs (plug k t))"
  unfolding zrep_plug [of m k t] by (auto simp: zrep_def dest: heap_tree_nonzero)

lemma zrep_distinct: "zrep m k t \<Longrightarrow> distinct (addrs (plug k t))"
  by (simp add: zrep_def addrs_plug)

lemma zrep_not_root: "zrep m k t \<Longrightarrow> k \<noteq> [] \<Longrightarrow> root_of t \<noteq> rb_root m"
  using root_plug [of k t] zrep_rb_root [of m k t] zrep_nonzero [of m k t] zrep_distinct [of m k t]
  by (cases t) (auto simp: addrs_plug)

lemma erase_color_exit:
  assumes z: "zrep m k t" and inv: "del_inv k t" and c: "color_of t = Red \<or> k = []"
    and n: "root_of t = n" and as: "addrs (plug k t) = as"
  shows "restored m (do_rb_erase_color n par m) as"
proof -
  have "do_rb_erase_color (root_of t) par m = erase_cont (Inr (root_of t, m))"
    using c zrep_rb_root [OF z]
    by (subst do_rb_erase_color_unfold) (auto simp: null_or_black_focus [OF z])
  then show ?thesis
    using z inv c n as
    by (cases t)
       (auto simp: erase_cont_def del_inv_def plug_invs rb_ok_def addrs_plug zrep_root_node
         intro!: restoredI [OF ends_Some] restoredI [OF rb_set_black_focus])
qed

lemma erase_pass_ends:
  assumes "ends (\<lambda>m. Inr (rb_root m, m)) m res k t'" and ok: "rb_ok (plug k t')"
    and as: "addrs (plug k t') = as"
  shows "restored m (res \<bind> erase_cont) as"
proof (rule restored_bind [OF assms(1) as])
  fix m' assume z: "zrep m' k t'"
  then have "zrep m' [] (plug k t')" by (simp add: zrep_plug [of m' k t'])
  then show "restored m' (erase_cont (Inr (rb_root m', m'))) as"
    using ok as zrep_rb_root [OF z]
    by (cases "plug k t'")
       (auto simp: erase_cont_def rb_ok_def zrep_root_node
         intro!: restoredI [OF ends_Some] restoredI [OF rb_set_black_focus])
qed

lemma zroot_up_one: "zroot (f # k) = Black \<Longrightarrow> zroot k = Black"
  by (cases k) simp_all

text \<open>The tests of the sibling's children, for a black sibling. The hypothesis \<open>up\<close> is what the
  loop does from the parent on, which the recolouring case needs.\<close>

lemma erase_left_rest_restored:
  assumes z: "zrep m k (PN t p pc (PN sl s Black sr))"
    and inv: "del_inv (FL p pc (PN sl s Black sr) # k) t" "color_of t = Black"
    and up: "\<And>m'. color_of sl = Black \<Longrightarrow> color_of sr = Black \<Longrightarrow>
        zrep m' k (PN t p pc (PN sl s Red sr)) \<Longrightarrow> del_inv k (PN t p pc (PN sl s Red sr)) \<Longrightarrow>
        restored m' (do_rb_erase_color p (zpar k) m') as"
    and as: "addrs (plug k (PN t p pc (PN sl s Black sr))) = as"
  shows "restored m (erase_color_left_rest p s m \<bind> erase_cont) as"
proof -
  have t: "redok t" using inv by (cases t) (auto simp: del_inv_def)
  consider (recolor) "color_of sl = Black" "color_of sr = Black"
    | (near) a x b where "sl = PN a x Red b" "color_of sr = Black"
    | (far) a y b where "sr = PN a y Red b"
    by (cases sl; cases sr; simp) (metis color.exhaust)+
  then show ?thesis
  proof cases
    case recolor
    have "del_inv k (PN t p pc (PN sl s Red sr))"
      using inv t recolor zroot_up_one [of "FL p pc (PN sl s Black sr)" k] by (auto simp: del_inv_def)
    with recolor show ?thesis
      using as by (intro restored_bind [OF erase_left_recolor [OF z recolor]])
         (simp_all add: erase_cont_def addrs_plug up)
  next
    case near
    show ?thesis
      using inv t as zroot_Cons [of k] near
      by (intro erase_pass_ends [OF erase_left_near [OF z [unfolded near(1)] near(2)]])
         (auto simp: del_inv_def rb_ok_def plug_invs addrs_plug)
  next
    case far
    show ?thesis
      using inv t as zroot_Cons [of k] far
      by (intro erase_pass_ends [OF erase_left_far [OF z [unfolded far(1)]]])
         (auto simp: del_inv_def rb_ok_def plug_invs addrs_plug)
  qed
qed

lemma erase_right_rest_restored:
  assumes z: "zrep m k (PN (PN sl s Black sr) p pc t)"
    and inv: "del_inv (FR (PN sl s Black sr) p pc # k) t" "color_of t = Black"
    and up: "\<And>m'. color_of sl = Black \<Longrightarrow> color_of sr = Black \<Longrightarrow>
        zrep m' k (PN (PN sl s Red sr) p pc t) \<Longrightarrow> del_inv k (PN (PN sl s Red sr) p pc t) \<Longrightarrow>
        restored m' (do_rb_erase_color p (zpar k) m') as"
    and as: "addrs (plug k (PN (PN sl s Black sr) p pc t)) = as"
  shows "restored m (erase_color_right_rest p s m \<bind> erase_cont) as"
proof -
  have t: "redok t" using inv by (cases t) (auto simp: del_inv_def)
  consider (recolor) "color_of sl = Black" "color_of sr = Black"
    | (near) a x b where "sr = PN a x Red b" "color_of sl = Black"
    | (far) a y b where "sl = PN a y Red b"
    by (cases sl; cases sr; simp) (metis color.exhaust)+
  then show ?thesis
  proof cases
    case recolor
    have "del_inv k (PN (PN sl s Red sr) p pc t)"
      using inv t recolor zroot_up_one [of "FR (PN sl s Black sr) p pc" k] by (auto simp: del_inv_def)
    with recolor show ?thesis
      using as by (intro restored_bind [OF erase_right_recolor [OF z recolor]])
         (simp_all add: erase_cont_def addrs_plug up)
  next
    case near
    show ?thesis
      using inv t as zroot_Cons [of k] near
      by (intro erase_pass_ends [OF erase_right_near [OF z [unfolded near(1)] near(2)]])
         (auto simp: del_inv_def rb_ok_def plug_invs addrs_plug)
  next
    case far
    show ?thesis
      using inv t as zroot_Cons [of k] far
      by (intro erase_pass_ends [OF erase_right_far [OF z [unfolded far(1)]]])
         (auto simp: del_inv_def rb_ok_def plug_invs addrs_plug)
  qed
qed

text \<open>One whole pass. After the rotation of a red sibling the parent is red, so the recolouring case
  there ends the loop.\<close>

lemma erase_left_restored:
  assumes z: "zrep m (FL p pc u # k) t" and inv: "del_inv (FL p pc u # k) t" "color_of t = Black"
    and up: "\<And>m' t'. zrep m' k t' \<Longrightarrow> del_inv k t' \<Longrightarrow> addrs (plug k t') = as \<Longrightarrow>
        restored m' (do_rb_erase_color (root_of t') (zpar k) m') as"
    and as: "addrs (plug k (PN t p pc u)) = as"
  shows "restored m (erase_color_left p m \<bind> erase_cont) as"
proof -
  from inv obtain sl s sc sr where u: "u = PN sl s sc sr" by (cases u) (auto simp: del_inv_def)
  note z' = z [unfolded zrep_FL u]
  show ?thesis
  proof (cases sc)
    case Black
    then show ?thesis
      using inv z' as up [of _ "PN t p pc (PN sl s Red sr)"] unfolding u
      by (simp only: erase_left_black [OF z' [unfolded Black]])
         (rule erase_left_rest_restored, auto simp: addrs_plug)
  next
    case Red
    have as': "addrs (plug k (PN t p pc (PN sl s Red sr))) = as" using as u Red by simp
    obtain m' where z2: "zrep m' k (PN (PN t p Red sl) s Black sr)"
      and fr: "\<forall>a. a \<notin> set as \<longrightarrow> nodes m' a = nodes m a"
      and eq: "erase_color_left p m = erase_color_left_rest p (root_of sl) m'"
      by (rule erase_left_red [OF z' [unfolded Red] as'])
    from inv Red u obtain a x b where sl: "sl = PN a x Black b"
      by (cases sl) (auto simp: del_inv_def)
    let ?k = "FL s Black sr # k"
    have inv': "del_inv (FL p Red (PN a x Black b) # ?k) t"
      using inv u Red sl zroot_up_one [of "FL p pc u" k] by (cases k) (auto simp: del_inv_def)
    have "restored m' (erase_color_left_rest p x m' \<bind> erase_cont) as"
      using z2 as' sl inv' inv(2)
      by (intro erase_left_rest_restored [of m' ?k t p Red a x b])
         (auto simp: zrep_FL addrs_plug intro!: erase_color_exit [of _ ?k "PN t p Red (PN a x Red b)"])
    then show ?thesis
      using fr by (simp add: eq sl restored_frame)
  qed
qed

lemma erase_right_restored:
  assumes z: "zrep m (FR u p pc # k) t" and inv: "del_inv (FR u p pc # k) t" "color_of t = Black"
    and up: "\<And>m' t'. zrep m' k t' \<Longrightarrow> del_inv k t' \<Longrightarrow> addrs (plug k t') = as \<Longrightarrow>
        restored m' (do_rb_erase_color (root_of t') (zpar k) m') as"
    and as: "addrs (plug k (PN u p pc t)) = as"
  shows "restored m (erase_color_right p m \<bind> erase_cont) as"
proof -
  from inv obtain sl s sc sr where u: "u = PN sl s sc sr" by (cases u) (auto simp: del_inv_def)
  note z' = z [unfolded zrep_FR u]
  show ?thesis
  proof (cases sc)
    case Black
    then show ?thesis
      using inv z' as up [of _ "PN (PN sl s Red sr) p pc t"] unfolding u
      by (simp only: erase_right_black [OF z' [unfolded Black]])
         (rule erase_right_rest_restored, auto simp: addrs_plug)
  next
    case Red
    have as': "addrs (plug k (PN (PN sl s Red sr) p pc t)) = as" using as u Red by simp
    obtain m' where z2: "zrep m' k (PN sl s Black (PN sr p Red t))"
      and fr: "\<forall>a. a \<notin> set as \<longrightarrow> nodes m' a = nodes m a"
      and eq: "erase_color_right p m = erase_color_right_rest p (root_of sr) m'"
      by (rule erase_right_red [OF z' [unfolded Red] as'])
    from inv Red u obtain a x b where sr: "sr = PN a x Black b"
      by (cases sr) (auto simp: del_inv_def)
    let ?k = "FR sl s Black # k"
    have inv': "del_inv (FR (PN a x Black b) p Red # ?k) t"
      using inv u Red sr zroot_up_one [of "FR u p pc" k] by (cases k) (auto simp: del_inv_def)
    have "restored m' (erase_color_right_rest p x m' \<bind> erase_cont) as"
      using z2 as' sr inv' inv(2)
      by (intro erase_right_rest_restored [of m' ?k a x b p Red t])
         (auto simp: zrep_FR addrs_plug intro!: erase_color_exit [of _ ?k "PN (PN a x Red b) p Red t"])
    then show ?thesis
      using fr by (simp add: eq sr restored_frame)
  qed
qed

lemma do_rb_erase_color_restored:
  assumes "zrep m k t" "del_inv k t"
  shows "restored m (do_rb_erase_color (root_of t) (zpar k) m) (addrs (plug k t))"
  using assms
proof (induction k arbitrary: m t)
  case Nil
  then show ?case by (auto intro: erase_color_exit)
next
  case (Cons f k)
  note z = Cons.prems(1) and inv = Cons.prems(2)
  show ?case
  proof (cases "color_of t")
    case Red
    with z inv show ?thesis by (auto intro: erase_color_exit)
  next
    case Black
    have up: "restored m' (do_rb_erase_color (root_of t') (zpar k) m') (addrs (plug (f # k) t))"
      if "zrep m' k t'" "del_inv k t'" "addrs (plug k t') = addrs (plug (f # k) t)" for m' t'
      using Cons.IH [OF that(1,2)] that(3) by simp
    show ?thesis
    proof (cases f)
      case (FL p pc u)
      have "do_rb_erase_color (root_of t) p m = erase_color_left p m \<bind> erase_cont"
        using null_or_black_focus [OF z] zrep_not_root [OF z] zrep_parent(1) [OF z [unfolded FL]] Black
        by (subst do_rb_erase_color_unfold) simp
      moreover have "restored m (erase_color_left p m \<bind> erase_cont) (addrs (plug (f # k) t))"
        using FL by (intro erase_left_restored [OF z [unfolded FL] inv [unfolded FL] Black] up) simp_all
      ultimately show ?thesis using FL by simp
    next
      case (FR u p pc)
      with inv have "root_of u \<noteq> root_of t"
        using zrep_sibling(2) [of m k _ _ _ _ p pc t] z by (cases u) (auto simp: del_inv_def zrep_FR)
      then have "do_rb_erase_color (root_of t) p m = erase_color_right p m \<bind> erase_cont"
        using null_or_black_focus [OF z] zrep_not_root [OF z] zrep_parent(2) [OF z [unfolded FR]] Black
        by (subst do_rb_erase_color_unfold) simp
      moreover have "restored m (erase_color_right p m \<bind> erase_cont) (addrs (plug (f # k) t))"
        using FR by (intro erase_right_restored [OF z [unfolded FR] inv [unfolded FR] Black] up) simp_all
      ultimately show ?thesis using FR by simp
    qed
  qed
qed

end
