(* ===== verification/RBOps.thy ===== *)
theory RBOps
  imports RBErase
begin

text \<open>The operations of the red-black tree on whole trees: insertion, erasure, traversal and the
  replacement of a node.\<close>

subsection \<open>Unlinking a node\<close>

lemma erase_unlink_focus:
  assumes z: "zrep m k (PN l a c r)" and one: "l = PL \<and> u = r \<or> r = PL \<and> u = l"
  shows "ends (\<lambda>m. (col c, zpar k, m)) m (erase_unlink a (root_of u) m) k u"
proof -
  note al = zrep_aligned [OF z]
  show ?thesis
  proof (cases k rule: zpar.cases)
    case 1
    then show ?thesis
      using z al one unfolding 1
      by (cases u; clarsimp simp: zrep_def; elim disjE; clarsimp)
         (simp_all add: erase_unlink_def field_defs ends_def zrep_def addrs_plug root_of_neq)
  next
    case (2 p e s k')
    have "aligned (zpar k')" using z 2 by (auto intro: focus)
    then show ?thesis
      using z al one unfolding 2
      by (cases u; clarsimp simp: zrep_def; elim disjE; clarsimp)
         (simp_all add: erase_unlink_def field_defs ends_def zrep_def addrs_plug root_of_neq)
  next
    case (3 s p e k')
    have "aligned (zpar k')" using z 3 by (auto intro: focus)
    then show ?thesis
      using z al one unfolding 3
      by (cases u; clarsimp simp: zrep_def; elim disjE; clarsimp)
         (simp_all add: erase_unlink_def field_defs ends_def zrep_def addrs_plug root_of_neq)
  qed
qed

lemma zipper_append [simp]:
  "zleft (k1 @ k2) = zleft k2 @ zleft k1" "zright (k1 @ k2) = zright k1 @ zright k2"
  by (induction k1 rule: zleft.induct) simp_all

lemma zpar_append [simp]: "zpar (k1 @ k2) = (if k1 = [] then zpar k2 else zpar k1)"
  by (cases k1 rule: zpar.cases) simp_all

lemma zrep_append: "zrep m (k1 @ k2) t \<longleftrightarrow> zrep m k2 (plug k1 t)"
  by (simp add: zrep_plug [of m "k1 @ k2"] zrep_plug [of m k2] plug_append)

lemma ends_append: "ends g m res (k1 @ k2) t \<longleftrightarrow> ends g m res k2 (plug k1 t)"
  by (simp add: ends_def zrep_append plug_append)

lemma addrs_Nil [simp]: "addrs t = [] \<longleftrightarrow> t = PL"
  by (cases t) simp_all

lemma go_left_hd:
  "zrep m k t \<Longrightarrow> t \<noteq> PL \<Longrightarrow> go_left (root_of t) m = Some (hd (addrs t))"
proof (induction t arbitrary: k)
  case (PN l a c r)
  from PN.IH(1) [of "FL a c r # k"] PN.prems show ?case
    using zrep_root [of m "FL a c r # k" l]
    by (subst go_left.simps) (auto simp: ld_focus [OF PN.prems(1)] zrep_FL hd_tl_append)
qed simp

lemma go_right_last:
  "zrep m k t \<Longrightarrow> t \<noteq> PL \<Longrightarrow> go_right (root_of t) m = Some (last (addrs t))"
proof (induction t arbitrary: k)
  case (PN l a c r)
  from PN.IH(2) [of "FR l a c # k"] PN.prems show ?case
    using zrep_root [of m "FR l a c # k" r]
    by (subst go_right.simps) (auto simp: ld_focus [OF PN.prems(1)] zrep_FR)
qed simp

text \<open>The first node of a tree, and the way down to it, which leaves nothing on the left.\<close>

lemma first_focus:
  assumes "t \<noteq> PL"
  obtains kl s sc sr where "t = plug kl (PN PL s sc sr)" "zleft kl = []"
proof -
  have "\<exists>kl s sc sr. t = plug kl (PN PL s sc sr) \<and> zleft kl = []" using assms
  proof (induction t)
    case (PN l a c r)
    show ?case
    proof (cases l)
      case PL
      have "PN l a c r = plug [] (PN PL a c r) \<and> zleft [] = []" by (simp add: PL)
      then show ?thesis by blast
    next
      case (PN ll b d lr)
      with PN.IH obtain kl s sc sr where "l = plug kl (PN PL s sc sr)" "zleft kl = []" by auto
      then have "PN l a c r = plug (kl @ [FL a c r]) (PN PL s sc sr) \<and> zleft (kl @ [FL a c r]) = []"
        by (simp add: plug_append)
      then show ?thesis by blast
    qed
  qed simp
  with that show ?thesis by blast
qed

lemma splice_unlink_focus:
  assumes z: "zrep m (kl @ FR l a c # k) (PN PL s sc sr)" and kl: "zleft kl = []"
  shows "ends (\<lambda>m. (s, root_of sr, col sc, if kl = [] then s else zpar kl, m)) m (splice_unlink a m)
     (kl @ FR l a c # k) sr"
proof -
  let ?r = "plug kl (PN PL s sc sr)"
  note za = z [unfolded zrep_append zrep_FR]
  have r: "?r \<noteq> PL" using addrs_plug [of kl "PN PL s sc sr"] by (auto simp del: addrs_Nil simp flip: addrs_Nil)
  have "go_left (root_of ?r) m = Some s"
    using go_left_hd [of m "FR l a c # k" ?r] za r kl by (simp add: zrep_FR addrs_plug)
  note pre = this ld_focus [OF za] ld_focus [OF z] zrep_aligned [OF z]
  show ?thesis
  proof (cases kl rule: zpar.cases)
    case 1
    then show ?thesis
      using z pre unfolding 1
      by (cases sr; clarsimp simp: zrep_def)
         (simp_all add: splice_unlink_def field_defs ends_def zrep_def addrs_plug root_of_neq)
  next
    case (2 p e u k')
    then show ?thesis
      using z pre unfolding 2
      by (cases sr; clarsimp simp: zrep_def)
         (simp_all add: splice_unlink_def field_defs ends_def zrep_def addrs_plug root_of_neq)
  qed (use kl in simp)
qed

subsection \<open>Putting one node in the place of another\<close>

text \<open>A node in memory that is not part of the tree.\<close>

definition fresh :: "rb_mem \<Rightarrow> u64 \<Rightarrow> zipper \<Rightarrow> ptree \<Rightarrow> bool" where
  "fresh m s k t \<longleftrightarrow> s \<noteq> 0 \<and> aligned s \<and> s \<notin> set (addrs (plug k t)) \<and> nodes m s \<noteq> None"

lemma fresh_node: "fresh m s k t \<Longrightarrow> \<exists>n. nodes m s = Some n"
  by (auto simp: fresh_def)

lemma mk_node_fill [simp]:
  "n\<lparr>rb_parent_color := rb_parent_color (mk_node q d r' l'), rb_right := x, rb_left := y\<rparr> = mk_node q d x y"
  by (cases n) (simp add: mk_node_def)

lemma splice_replace_focus:
  assumes z: "zrep m k (PN l a c r)" and s: "fresh m s k (PN l a c r)" and l: "l \<noteq> PL"
  shows "becomes m (splice_replace a s m) k (PN l s c r)"
proof -
  obtain n where ns: "nodes m s = Some n" using fresh_node [OF s] by blast
  note al = zrep_aligned [OF z]
  show ?thesis
  proof (cases k rule: zpar.cases)
    case 1
    then show ?thesis
      using z al s ns l unfolding 1
      by (cases l; cases r; clarsimp simp: zrep_def fresh_def)
         (simp_all add: splice_replace_def field_defs ends_def zrep_def addrs_plug root_of_neq)
  next
    case (2 p e u k')
    have "aligned (zpar k')" using z 2 by (auto intro: focus)
    then show ?thesis
      using z al s ns l unfolding 2
      by (cases l; cases r; clarsimp simp: zrep_def fresh_def addrs_plug)
         (simp_all add: splice_replace_def field_defs ends_def zrep_def addrs_plug root_of_neq)
  next
    case (3 u p e k')
    have "aligned (zpar k')" using z 3 by (auto intro: focus)
    then show ?thesis
      using z al s ns l unfolding 3
      by (cases l; cases r; clarsimp simp: zrep_def fresh_def addrs_plug)
         (simp_all add: splice_replace_def field_defs ends_def zrep_def addrs_plug root_of_neq)
  qed
qed

lemma rb_replace_node_focus:
  assumes z: "zrep m k (PN l a c r)" and s: "fresh m s k (PN l a c r)"
  shows "becomes m (rb_replace_node a s m) k (PN l s c r)"
proof -
  obtain n where ns: "nodes m s = Some n" using fresh_node [OF s] by blast
  note al = zrep_aligned [OF z]
  show ?thesis
  proof (cases k rule: zpar.cases)
    case 1
    then show ?thesis
      using z al s ns unfolding 1
      by (cases l; cases r; clarsimp simp: zrep_def fresh_def)
         (simp_all add: rb_replace_node_def field_defs ends_def zrep_def addrs_plug root_of_neq)
  next
    case (2 p e u k')
    have "aligned (zpar k')" using z 2 by (auto intro: focus)
    then show ?thesis
      using z al s ns unfolding 2
      by (cases l; cases r; clarsimp simp: zrep_def fresh_def addrs_plug)
         (simp_all add: rb_replace_node_def field_defs ends_def zrep_def addrs_plug root_of_neq)
  next
    case (3 u p e k')
    have "aligned (zpar k')" using z 3 by (auto intro: focus)
    then show ?thesis
      using z al s ns unfolding 3
      by (cases l; cases r; clarsimp simp: zrep_def fresh_def addrs_plug)
         (simp_all add: rb_replace_node_def field_defs ends_def zrep_def addrs_plug root_of_neq)
  qed
qed

subsection \<open>Erasure\<close>

lemma zipper_readdress:
  "zcolor (kl @ FR l s c # k) = zcolor (kl @ FR l a c # k)"
  "zred (kl @ FR l s c # k) = zred (kl @ FR l a c # k)"
  "zbal n (kl @ FR l s c # k) = zbal n (kl @ FR l a c # k)"
  "zroot (kl @ FR l s c # k) = zroot (kl @ FR l a c # k)"
proof -
  show col: "zcolor (kl @ FR l s c # k) = zcolor (kl @ FR l a c # k)" for kl
    by (cases kl rule: zcolor.cases) simp_all
  show "zred (kl @ FR l s c # k) = zred (kl @ FR l a c # k)"
    by (induction kl rule: zred.induct) (simp_all add: col)
  show "zbal n (kl @ FR l s c # k) = zbal n (kl @ FR l a c # k)"
    by (induction n kl rule: zbal.induct) simp_all
  show "zroot (kl @ FR l s c # k) = zroot (kl @ FR l a c # k)"
    by (induction kl) (cases k; simp add: zroot_Cons)+
qed

text \<open>Taking a red node with at most one child out of a red-black tree leaves one; taking a black
  one out leaves a tree that \<^verbatim>\<open>__rb_erase_color\<close> repairs.\<close>

lemma rb_ok_unlink:
  assumes "rb_ok (plug k (PN l a c r))" and "l = PL \<and> u = r \<or> r = PL \<and> u = l"
  shows "c = Red \<Longrightarrow> rb_ok (plug k u)" "c = Black \<Longrightarrow> del_inv k u"
  using assms redok_blacken [of u]
  by (cases k; auto simp: rb_ok_def plug_invs del_inv_def; fail)+

lemma erase_finish:
  assumes z: "zrep m k u" and ok: "c = Red \<Longrightarrow> rb_ok (plug k u)" "c = Black \<Longrightarrow> del_inv k u"
    and as: "addrs (plug k u) = as" and p: "p = zpar k"
  shows "restored m (if col c = RB_BLACK then do_rb_erase_color (root_of u) p m else Some m) as"
  using assms do_rb_erase_color_restored [OF z]
  by (cases c) (auto simp: col_defs intro!: restoredI [OF ends_Some [OF z]])

text \<open>\<open>erased m res a as\<close>: the operation returned a memory with a red-black tree of the nodes \<open>as\<close>;
  the node \<open>a\<close> is still allocated, and nothing else was written.\<close>

definition erased :: "rb_mem \<Rightarrow> rb_mem option \<Rightarrow> u64 \<Rightarrow> u64 list \<Rightarrow> bool" where
  "erased m res a as \<longleftrightarrow> (\<exists>m' t. res = Some m' \<and> rep m' t \<and> rb_ok t \<and> addrs t = as
     \<and> nodes m' a \<noteq> None \<and> (\<forall>x. x \<notin> set as \<longrightarrow> x \<noteq> a \<longrightarrow> nodes m' x = nodes m x))"

lemma erased_after:
  assumes "restored m1 res as" "a \<notin> set as" "nodes m1 a \<noteq> None"
    "\<forall>x. x \<notin> set as \<longrightarrow> x \<noteq> a \<longrightarrow> nodes m1 x = nodes m x"
  shows "erased m res a as"
  using assms by (fastforce simp: erased_def restored_def ends_def)

lemma rb_erase_unlink:
  assumes z: "zrep m k (PN l a c r)" and ok: "rb_ok (plug k (PN l a c r))" and e: "l = PL \<or> r = PL"
  shows "erased m (rb_erase a m) a (zleft k @ addrs l @ addrs r @ zright k)"
proof -
  define u where "u = (if l = PL then r else l)"
  have one: "l = PL \<and> u = r \<or> r = PL \<and> u = l" using e by (auto simp: u_def)
  have as: "addrs (plug k u) = zleft k @ addrs l @ addrs r @ zright k"
    using one by (auto simp: addrs_plug)
  from erase_unlink_focus [OF z one] obtain m' where m':
    "erase_unlink a (root_of u) m = Some (col c, zpar k, m')" "zrep m' k u"
    "\<forall>x. x \<notin> set (addrs (plug k u)) \<longrightarrow> nodes m' x = nodes m x"
    by (auto simp: ends_def)
  have na: "a \<notin> set (addrs (plug k u))" "nodes m a \<noteq> None"
    using z one by (auto simp: zrep_def addrs_plug)
  have "rb_erase a m = (if col c = RB_BLACK then do_rb_erase_color (root_of u) (zpar k) m' else Some m')"
    using m'(1) zrep_root [of m "FL a c r # k" l] z e
    by (auto simp: rb_erase_def ld_focus [OF z] u_def zrep_FL)
  moreover have "restored m' \<dots> (addrs (plug k u))"
    by (rule erase_finish [OF m'(2) rb_ok_unlink [OF ok one] refl refl])
  ultimately show ?thesis
    using m'(3) na unfolding as by (intro erased_after [of m']) auto
qed

lemma erase_splice_focus:
  assumes z: "zrep m (kl @ FR l a c # k) (PN PL s sc sr)" and kl: "zleft kl = []" and l: "l \<noteq> PL"
  obtains m' where
    "erase_splice a m = Some (root_of sr, col sc, zpar (kl @ FR l s c # k), m')"
    "zrep m' (kl @ FR l s c # k) sr" "nodes m' a \<noteq> None"
    "\<forall>x. x \<notin> set (addrs (plug (kl @ FR l s c # k) sr)) \<longrightarrow> x \<noteq> a \<longrightarrow> nodes m' x = nodes m x"
proof -
  let ?k = "kl @ FR l a c # k" let ?t = "PN l a c (plug kl sr)"
  from splice_unlink_focus [OF z kl] obtain m1 where m1:
    "splice_unlink a m = Some (s, root_of sr, col sc, if kl = [] then s else zpar kl, m1)"
    "zrep m1 ?k sr" "\<forall>x. x \<notin> set (addrs (plug ?k sr)) \<longrightarrow> nodes m1 x = nodes m x"
    by (auto simp: ends_def)
  have z1: "zrep m1 k ?t" using m1(2) by (simp add: zrep_append zrep_FR)
  have s: "s \<notin> set (addrs (plug ?k sr))" "s \<noteq> 0" "aligned s" "nodes m s \<noteq> None"
    using z by (auto simp: zrep_def addrs_plug)
  then have "fresh m1 s k ?t"
    using m1(3) by (simp add: fresh_def plug_append)
  from splice_replace_focus [OF z1 this l] obtain m2 where m2:
    "splice_replace a s m1 = Some m2" "zrep m2 k (PN l s c (plug kl sr))"
    "\<forall>x. x \<notin> set (addrs (plug k (PN l s c (plug kl sr)))) \<longrightarrow> nodes m2 x = nodes m1 x"
    by (auto simp: ends_def)
  have a: "nodes m1 a \<noteq> None" "a \<notin> set (addrs (plug k (PN l s c (plug kl sr))))"
    using z1 s z by (auto simp: zrep_def addrs_plug)
  show ?thesis
  proof (rule that)
    show "erase_splice a m = Some (root_of sr, col sc, zpar (kl @ FR l s c # k), m2)"
      using m1(1) m2(1) by (simp add: erase_splice_def)
    show "zrep m2 (kl @ FR l s c # k) sr" using m2(2) by (simp add: zrep_append zrep_FR)
    show "nodes m2 a \<noteq> None" using m2(3) a by simp
    show "\<forall>x. x \<notin> set (addrs (plug (kl @ FR l s c # k) sr)) \<longrightarrow> x \<noteq> a \<longrightarrow> nodes m2 x = nodes m x"
      using m2(3) m1(3) by (simp add: plug_append addrs_plug)
  qed
qed

lemma rb_erase_splice:
  assumes z: "zrep m k (PN l a c r)" and ok: "rb_ok (plug k (PN l a c r))" and l: "l \<noteq> PL" and r: "r \<noteq> PL"
  shows "erased m (rb_erase a m) a (zleft k @ addrs l @ addrs r @ zright k)"
proof -
  obtain kl s sc sr where r': "r = plug kl (PN PL s sc sr)" and kl: "zleft kl = []"
    by (rule first_focus [OF r])
  let ?k = "kl @ FR l s c # k"
  have as: "addrs (plug ?k sr) = zleft k @ addrs l @ addrs r @ zright k"
    by (simp add: r' kl addrs_plug)
  have "zrep m (kl @ FR l a c # k) (PN PL s sc sr)" using z r' by (simp add: zrep_append zrep_FR)
  from this kl l obtain m' where m':
    "erase_splice a m = Some (root_of sr, col sc, zpar ?k, m')" "zrep m' ?k sr" "nodes m' a \<noteq> None"
    "\<forall>x. x \<notin> set (addrs (plug ?k sr)) \<longrightarrow> x \<noteq> a \<longrightarrow> nodes m' x = nodes m x"
    by (rule erase_splice_focus)
  have "rb_ok (plug (kl @ FR l a c # k) (PN PL s sc sr))" using ok r' by (simp add: plug_append)
  then have "rb_ok (plug ?k (PN PL s sc sr))"
    by (simp add: rb_ok_def plug_invs zipper_readdress [where a = a and s = s])
  note ok' = rb_ok_unlink [OF this, of sr, simplified]
  have "rb_erase a m = (if col sc = RB_BLACK then do_rb_erase_color (root_of sr) (zpar ?k) m' else Some m')"
    using m'(1) zrep_root [of m "FL a c r # k" l] zrep_root [of m "FR l a c # k" r] z l r
    by (auto simp: rb_erase_def ld_focus [OF z] zrep_FL zrep_FR)
  moreover have "restored m' \<dots> (addrs (plug ?k sr))"
    using ok' by (intro erase_finish [OF m'(2)]) auto
  moreover have "a \<notin> set (addrs (plug ?k sr))"
    using z unfolding as by (auto simp: zrep_def)
  ultimately show ?thesis
    using m'(3,4) unfolding as by (intro erased_after [of m']) auto
qed

lemma in_focus:
  assumes "a \<in> set (addrs t)"
  obtains k l c r where "t = plug k (PN l a c r)"
proof -
  have "\<exists>k l c r. t = plug k (PN l a c r)" using assms
  proof (induction t)
    case (PN l b c r)
    then consider "a = b" | k ll d lr where "l = plug k (PN ll a d lr)"
      | k rl d rr where "r = plug k (PN rl a d rr)" by auto
    then show ?case
    proof cases
      case 1 then show ?thesis by (intro exI [of _ "[]"]) auto
    next
      case 2 then show ?thesis by (intro exI [of _ "k @ [FL b c r]"]) (auto simp: plug_append)
    next
      case 3 then show ?thesis by (intro exI [of _ "k @ [FR l b c]"]) (auto simp: plug_append)
    qed
  qed simp
  with that show ?thesis by blast
qed

lemma focus_at:
  assumes "rep m t" "addrs t = xs @ a # ys"
  obtains k l c r where "zrep m k (PN l a c r)" "xs = zleft k @ addrs l" "ys = addrs r @ zright k"
    "t = plug k (PN l a c r)"
proof -
  have "a \<in> set (addrs t)" using assms(2) by simp
  then obtain k l c r where t: "t = plug k (PN l a c r)" by (rule in_focus)
  then have z: "zrep m k (PN l a c r)" using assms(1) by (simp add: zrep_plug [of m k])
  have "xs @ a # ys = (zleft k @ addrs l) @ a # (addrs r @ zright k)"
    using assms(2) t by (simp add: addrs_plug)
  moreover have "a \<notin> set xs" "a \<notin> set (zleft k @ addrs l)"
    using zrep_distinct [OF z] zrep_distinct [OF assms(1)] assms(2) by (auto simp: addrs_plug)
  ultimately have "xs = zleft k @ addrs l \<and> ys = addrs r @ zright k" by (rule split_unique)
  with that z t show ?thesis by blast
qed

theorem rb_erase_erased:
  assumes "rep m t" "rb_ok t" "a \<in> set (addrs t)"
  shows "erased m (rb_erase a m) a (remove1 a (addrs t))"
proof -
  from assms(3) obtain k l c r where t: "t = plug k (PN l a c r)" by (rule in_focus)
  then have z: "zrep m k (PN l a c r)" using assms(1) by (simp add: zrep_plug [of m k])
  have "remove1 a (addrs t) = zleft k @ addrs l @ addrs r @ zright k"
    using zrep_distinct [OF z] by (auto simp: t addrs_plug remove1_append)
  then show ?thesis
    using rb_erase_unlink [OF z] rb_erase_splice [OF z] assms(2) t by auto
qed

subsection \<open>Insertion\<close>

text \<open>The link a new node is stored through, at the empty subtree in focus.\<close>

fun link_of :: "zipper \<Rightarrow> rb_link" where
  "link_of [] = LinkRoot"
| "link_of (FL a c r # k) = LinkLeft a"
| "link_of (FR l a c # k) = LinkRight a"

lemma link_get_focus: "zrep m k t \<Longrightarrow> link_get (link_of k) m = Some (root_of t)"
  by (cases k rule: link_of.cases) (auto simp: zrep_def ld_def)

lemma mk_node_leaf [simp]:
  "n\<lparr>rb_parent_color := p, rb_right := 0, rb_left := 0\<rparr> = mk_node p Red 0 0"
  by (cases n) (simp add: mk_node_def col_defs)

lemma rb_link_node_focus:
  assumes z: "zrep m k PL" and s: "fresh m s k PL"
  shows "becomes m (rb_link_node s (zpar k) (link_of k) m) k (PN PL s Red PL)"
proof -
  obtain n where ns: "nodes m s = Some n" using fresh_node [OF s] by blast
  note al = zrep_aligned [OF z]
  show ?thesis
    using z al s ns
    by (cases k rule: link_of.cases; clarsimp simp: zrep_def fresh_def addrs_plug)
       (simp_all add: rb_link_node_def field_defs ends_def zrep_def addrs_plug)
qed

lemma rb_insert_color_restored:
  assumes z: "zrep m k (PN l s c r)" and inv: "ins_inv k (PN l s c r)"
  shows "restored m (rb_insert_color s m) (addrs (plug k (PN l s c r)))"
proof -
  obtain t m' where m': "insert_color_loop s m = Some m'" "rep m' t"
    "\<forall>x. x \<notin> set (addrs t) \<longrightarrow> nodes m' x = nodes m x"
    and t: "addrs t = addrs (plug k (PN l s c r))" "redok t" "balanced t"
    using insert_color_loop_fixed [OF assms] by (auto simp: fixed_def ends_def)
  obtain tl a d tr where pn: "t = PN tl a d tr"
    using t(1) by (cases t) (auto simp: addrs_plug)
  have "becomes m' (rb_set_black (rb_root m') m') [] (PN tl a Black tr)"
    using rb_set_black_focus [OF m'(2) [unfolded pn]] zrep_rb_root [OF m'(2)] pn by simp
  then have "restored m' (rb_insert_color s m) (addrs t)"
    using t(2,3) pn by (auto simp: rb_insert_color_def m'(1) rb_ok_def intro!: restoredI)
  then show ?thesis
    using m'(3) unfolding t(1) by (rule restored_frame)
qed

theorem rb_insert_restored:
  assumes z: "zrep m k PL" and s: "fresh m s k PL" and ok: "rb_ok (plug k PL)"
  shows "restored m (rb_link_node s (zpar k) (link_of k) m \<bind> rb_insert_color s) (zleft k @ s # zright k)"
proof (rule restored_bind [OF rb_link_node_focus [OF z s]])
  show "addrs (plug k (PN PL s Red PL)) = zleft k @ s # zright k" by (simp add: addrs_plug)
  have inv: "ins_inv k (PN PL s Red PL)"
    using ok by (cases k) (auto simp: rb_ok_def ins_inv_def plug_invs)
  show "restored m' (rb_insert_color s m') (zleft k @ s # zright k)" if "zrep m' k (PN PL s Red PL)" for m'
    using rb_insert_color_restored [OF that inv] by (simp add: addrs_plug)
qed

subsection \<open>Traversal\<close>

lemma rb_first_hd: "rep m t \<Longrightarrow> rb_first m = Some (if t = PL then 0 else hd (addrs t))"
  using go_left_hd [of m "[]" t] zrep_rb_root [of m "[]" t] zrep_root [of m "[]" t]
  by (auto simp: rb_first_def)

lemma rb_last_last: "rep m t \<Longrightarrow> rb_last m = Some (if t = PL then 0 else last (addrs t))"
  using go_right_last [of m "[]" t] zrep_rb_root [of m "[]" t] zrep_root [of m "[]" t]
  by (auto simp: rb_last_def)

definition hd0 :: "u64 list \<Rightarrow> u64" where
  "hd0 xs = (if xs = [] then 0 else hd xs)"

definition last0 :: "u64 list \<Rightarrow> u64" where
  "last0 xs = (if xs = [] then 0 else last xs)"

lemma climb_right_zright:
  "zrep m k t \<Longrightarrow> t \<noteq> PL \<Longrightarrow> climb_right (root_of t) m = Some (hd0 (zright k))"
proof (induction k arbitrary: t)
  case Nil
  then show ?case by (cases t) (simp, subst climb_right.simps, simp add: ld_focus hd0_def)
next
  case (Cons f k)
  obtain l a c r where t: "t = PN l a c r" using Cons.prems(2) by (cases t) auto
  note z = Cons.prems(1) [unfolded t]
  note al = zrep_aligned [OF z]
  show ?case
  proof (cases f)
    case (FL p pc u)
    note z' = z [unfolded FL]
    have "p \<noteq> 0" "a \<noteq> root_of u"
      using z' zrep_sibling(2) [of m k l a c r p pc u] by (auto simp: zrep_def zrep_FL)
    then show ?thesis
      using al by (subst climb_right.simps)
        (simp add: t FL ld_focus [OF z'] zrep_parent(1) [OF z'] hd0_def)
  next
    case (FR u p pc)
    note z' = z [unfolded FR]
    have "p \<noteq> 0" using z' by (auto simp: zrep_def)
    then show ?thesis
      using al Cons.IH [of "PN u p pc t"] z' by (subst climb_right.simps)
        (simp add: t FR ld_focus [OF z'] zrep_parent(2) [OF z'] zrep_FR)
  qed
qed

lemma climb_left_zleft:
  "zrep m k t \<Longrightarrow> t \<noteq> PL \<Longrightarrow> climb_left (root_of t) m = Some (last0 (zleft k))"
proof (induction k arbitrary: t)
  case Nil
  then show ?case by (cases t) (simp, subst climb_left.simps, simp add: ld_focus last0_def)
next
  case (Cons f k)
  obtain l a c r where t: "t = PN l a c r" using Cons.prems(2) by (cases t) auto
  note z = Cons.prems(1) [unfolded t]
  note al = zrep_aligned [OF z]
  show ?case
  proof (cases f)
    case (FR u p pc)
    note z' = z [unfolded FR]
    have "p \<noteq> 0" "a \<noteq> root_of u"
      using z' zrep_sibling(1) [of m k u p pc l a c r] by (auto simp: zrep_def zrep_FR)
    then show ?thesis
      using al by (subst climb_left.simps)
        (simp add: t FR ld_focus [OF z'] zrep_parent(2) [OF z'] last0_def)
  next
    case (FL p pc u)
    note z' = z [unfolded FL]
    have "p \<noteq> 0" using z' by (auto simp: zrep_def)
    then show ?thesis
      using al Cons.IH [of "PN t p pc u"] z' by (subst climb_left.simps)
        (simp add: t FL ld_focus [OF z'] zrep_parent(1) [OF z'] zrep_FL)
  qed
qed

lemma zrep_parent_other: "zrep m k (PN l a c r) \<Longrightarrow> zpar k \<noteq> a"
  using zpar_in [of k] by (cases "k = []") (auto simp: zrep_def)

theorem rb_next_focus:
  assumes z: "zrep m k (PN l a c r)"
  shows "rb_next a m = Some (hd0 (addrs r @ zright k))"
  using climb_right_zright [OF z] go_left_hd [of m "FR l a c # k" r] zrep_root [of m "FR l a c # k" r]
    z zrep_parent_other [OF z] zrep_aligned [OF z]
  by (auto simp: rb_next_def ld_focus [OF z] zrep_FR hd0_def)

theorem rb_prev_focus:
  assumes z: "zrep m k (PN l a c r)"
  shows "rb_prev a m = Some (last0 (zleft k @ addrs l))"
  using climb_left_zleft [OF z] go_right_last [of m "FL a c r # k" l] zrep_root [of m "FL a c r # k" l]
    z zrep_parent_other [OF z] zrep_aligned [OF z]
  by (auto simp: rb_prev_def ld_focus [OF z] zrep_FL last0_def)

subsection \<open>The height of the tree\<close>

fun height :: "ptree \<Rightarrow> nat" where
  "height PL = 0"
| "height (PN l a c r) = Suc (max (height l) (height r))"

lemma bh_length: "balanced t \<Longrightarrow> 2 ^ bh t \<le> Suc (length (addrs t))"
proof (induction t)
  case (PN l a c r)
  then have "2 ^ bh l \<le> Suc (length (addrs l))" "2 ^ bh l \<le> Suc (length (addrs r))" by auto
  then show ?case by auto
qed simp

lemma height_bh:
  "balanced t \<Longrightarrow> redok t \<Longrightarrow> height t \<le> 2 * bh t + (if color_of t = Red then 1 else 0)"
proof (induction t)
  case (PN l a c r)
  then show ?case by (cases c; cases "color_of l"; cases "color_of r") auto
qed simp

lemma height_log:
  assumes "rb_ok t"
  shows "2 ^ height t \<le> (length (addrs t) + 1)\<^sup>2"
proof -
  have "height t \<le> 2 * bh t" using height_bh [of t] assms by (auto simp: rb_ok_def)
  then have "(2::nat) ^ height t \<le> 2 ^ (2 * bh t)" by (rule power_increasing) simp
  also have "\<dots> = (2 ^ bh t)\<^sup>2" by (simp add: power_mult [symmetric] mult.commute)
  also have "\<dots> \<le> (length (addrs t) + 1)\<^sup>2"
    using bh_length [of t] assms by (simp add: rb_ok_def power_mono)
  finally show ?thesis .
qed

subsection \<open>Properties\<close>

text \<open>C1. Linking a node at any empty place of a red-black tree and fixing the colours with
  \<^verbatim>\<open>rb_insert_color\<close> ends without a fault in a memory that holds a red-black tree (every child and
  parent pointer and colour right) with the node at that place of the order, and writes no node
  outside it.\<close>

theorem rb_insert_correct:
  assumes "rep m (plug k PL)" "rb_ok (plug k PL)"
    and "s \<noteq> 0" "aligned s" "nodes m s \<noteq> None" "s \<notin> set (addrs (plug k PL))"
  shows "\<exists>m' t'. rb_link_node s (zpar k) (link_of k) m \<bind> rb_insert_color s = Some m'
    \<and> rep m' t' \<and> rb_ok t' \<and> addrs t' = zleft k @ s # zright k
    \<and> (\<forall>x. x \<notin> set (addrs t') \<longrightarrow> nodes m' x = nodes m x)"
  using rb_insert_restored [of m k s] assms
  by (auto simp: restored_def ends_def fresh_def zrep_plug [of m k])

text \<open>C2. \<^verbatim>\<open>rb_erase\<close> of any node of a red-black tree ends without a fault in a memory
  that holds a red-black tree of the other nodes in the same order; it writes only nodes of the
  old tree.\<close>

theorem rb_erase_correct:
  assumes "rep m t" "rb_ok t" "a \<in> set (addrs t)"
  shows "\<exists>m' t'. rb_erase a m = Some m' \<and> rep m' t' \<and> rb_ok t' \<and> addrs t' = remove1 a (addrs t)
    \<and> (\<forall>x. x \<notin> set (addrs t) \<longrightarrow> nodes m' x = nodes m x)"
proof -
  have "set (addrs t) = insert a (set (remove1 a (addrs t)))"
    using assms(3) zrep_distinct [OF assms(1)] by (auto simp: set_remove1_eq)
  with rb_erase_erased [OF assms] show ?thesis by (auto simp: erased_def)
qed

text \<open>C16. \<^verbatim>\<open>rb_first\<close> and \<^verbatim>\<open>rb_last\<close> return the ends of the order (NULL for the empty tree),
  \<^verbatim>\<open>rb_next\<close> and \<^verbatim>\<open>rb_prev\<close> the neighbours of a node (NULL at the ends); none of the loops runs on
  for ever.\<close>

theorem rb_traversal:
  assumes "rep m t" "addrs t = xs @ a # ys"
  shows "rb_first m = Some (hd0 (addrs t)) \<and> rb_last m = Some (last0 (addrs t))
    \<and> rb_next a m = Some (hd0 ys) \<and> rb_prev a m = Some (last0 xs)"
proof -
  from assms obtain k l c r where z: "zrep m k (PN l a c r)"
    and "xs = zleft k @ addrs l" "ys = addrs r @ zright k" "t = plug k (PN l a c r)"
    by (rule focus_at)
  then show ?thesis
    using rb_next_focus [OF z] rb_prev_focus [OF z] rb_first_hd [OF assms(1)] rb_last_last [OF assms(1)]
      assms(2) by (cases t) (auto simp: hd0_def last0_def)
qed

text \<open>\<^verbatim>\<open>rb_replace_node\<close> puts a node outside the tree in the place of a node of
  the tree: the order and the red-black invariant stay as they were.\<close>

theorem rb_replace_node_correct:
  assumes "rep m t" "rb_ok t" "addrs t = xs @ a # ys"
    and "s \<noteq> 0" "aligned s" "nodes m s \<noteq> None" "s \<notin> set (addrs t)"
  shows "\<exists>m' t'. rb_replace_node a s m = Some m' \<and> rep m' t' \<and> rb_ok t' \<and> addrs t' = xs @ s # ys"
proof -
  from assms(1,3) obtain k l c r where z: "zrep m k (PN l a c r)"
    and "xs = zleft k @ addrs l" "ys = addrs r @ zright k" and t: "t = plug k (PN l a c r)"
    by (rule focus_at)
  moreover have "rb_ok (plug k (PN l s c r))"
    using assms(2) by (auto simp: t rb_ok_def plug_invs split: if_splits)
  ultimately show ?thesis
    using rb_replace_node_focus [OF z, of s] assms(4-7) t
    by (auto simp: ends_def fresh_def zrep_plug [of _ k] addrs_plug intro!: exI [of _ "plug k (PN l s c r)"])
qed

subsection \<open>Witnesses\<close>

text \<open>A tree of three nodes, and a fourth node outside it.\<close>

definition demo_tree :: ptree where
  "demo_tree = PN (PN PL 0x100 Red PL) 0x200 Black (PN PL 0x300 Red PL)"

definition demo_mem :: rb_mem where
  "demo_mem = \<lparr>nodes = [0x100 \<mapsto> mk_node 0x200 Red 0 0, 0x200 \<mapsto> mk_node 0 Black 0x300 0x100,
     0x300 \<mapsto> mk_node 0x200 Red 0 0, 0x400 \<mapsto> mk_node 0 Red 0 0], rb_root = 0x200\<rparr>"

lemma demo_rep: "rep demo_mem demo_tree" "rb_ok demo_tree"
  "addrs demo_tree = [0x100, 0x200, 0x300]" "nodes demo_mem 0x400 \<noteq> None"
  by (simp_all add: zrep_def demo_mem_def demo_tree_def rb_ok_def)

theorem rb_insert_correct_witness:
  "\<exists>m' t'. rb_link_node 0x400 0x300 (LinkRight 0x300) demo_mem \<bind> rb_insert_color 0x400 = Some m'
    \<and> rep m' t' \<and> rb_ok t' \<and> addrs t' = [0x100, 0x200, 0x300, 0x400]"
  using rb_insert_correct [of demo_mem "[FR PL 0x300 Red, FR (PN PL 0x100 Red PL) 0x200 Black]" "0x400"]
    demo_rep by (auto simp: demo_tree_def)

theorem rb_erase_correct_witness:
  "\<exists>m' t'. rb_erase 0x200 demo_mem = Some m' \<and> rep m' t' \<and> rb_ok t' \<and> addrs t' = [0x100, 0x300]"
  using rb_erase_correct [OF demo_rep(1,2), of "0x200"] by (auto simp: demo_rep(3))

theorem rb_traversal_witness:
  "rb_next 0x200 demo_mem = Some 0x300 \<and> rb_prev 0x200 demo_mem = Some 0x100"
  using rb_traversal [OF demo_rep(1), of "[0x100]" "0x200" "[0x300]"]
  by (simp add: demo_rep(3) hd0_def last0_def)

end
