(* ===== verification/CFS.thy ===== *)
theory CFS
  imports RBOps "HOL-Library.Multiset"
begin

text \<open>
  The CFS-style run queue of \<^verbatim>\<open>smart-queue.c\<close> on top of the red-black tree. A task is identified
  with the address of its \<open>run_node\<close>, its first member, so \<^verbatim>\<open>rb_entry\<close> is the identity.
  The queue is shown to be a priority queue that keeps tasks of equal key in order of arrival.
\<close>

record cfs_rq =
  tasks_timeline :: rb_mem
  tsk_t :: "u64 \<rightharpoonup> u64"
  rb_leftmost :: u64

definition cfs_rqinit :: "cfs_rq \<Rightarrow> cfs_rq" where
  "cfs_rqinit rq = rq\<lparr>rb_leftmost := 0, tasks_timeline := (tasks_timeline rq)\<lparr>rb_root := 0\<rparr>\<rparr>"

text \<open>The loop that looks for the place of a new node: parent, link and the \<open>leftmost\<close> flag.\<close>

partial_function (option) cfs_find ::
  "u64 \<Rightarrow> (u64 \<rightharpoonup> u64) \<Rightarrow> u64 \<Rightarrow> rb_link \<Rightarrow> bool \<Rightarrow> rb_mem \<Rightarrow> (u64 \<times> rb_link \<times> bool) option" where
  "cfs_find t ts parent lnk leftmost m = do {
     p \<leftarrow> link_get lnk m;
     if p = 0 then Some (parent, lnk, leftmost)
     else do {
       et \<leftarrow> ts p;
       if t < et then cfs_find t ts p (LinkLeft p) leftmost m
       else cfs_find t ts p (LinkRight p) False m } }"

definition cfs_queue :: "u64 \<Rightarrow> u64 \<Rightarrow> cfs_rq \<Rightarrow> cfs_rq option" where
  "cfs_queue tsk t rq = do {
     let rq = rq\<lparr>tsk_t := (tsk_t rq)(tsk \<mapsto> t)\<rparr>;
     (parent, lnk, leftmost) \<leftarrow> cfs_find t (tsk_t rq) 0 LinkRoot True (tasks_timeline rq);
     let rq = (if leftmost then rq\<lparr>rb_leftmost := tsk\<rparr> else rq);
     m \<leftarrow> rb_link_node tsk parent lnk (tasks_timeline rq);
     m \<leftarrow> rb_insert_color tsk m;
     Some (rq\<lparr>tasks_timeline := m\<rparr>) }"

definition dequeue_task_fair :: "u64 \<Rightarrow> cfs_rq \<Rightarrow> cfs_rq option" where
  "dequeue_task_fair p rq = do {
     let rq = (if rb_leftmost rq = p then rq\<lparr>rb_leftmost := 0\<rparr> else rq);
     m \<leftarrow> rb_erase p (tasks_timeline rq);
     Some (rq\<lparr>tasks_timeline := m\<rparr>) }"

definition first_fair :: "cfs_rq \<Rightarrow> u64 option" where
  "first_fair rq = (if rb_leftmost rq \<noteq> 0 then Some (rb_leftmost rq) else rb_first (tasks_timeline rq))"

definition cfs_dequeue :: "cfs_rq \<Rightarrow> (u64 \<times> cfs_rq) option" where
  "cfs_dequeue rq = do {
     next \<leftarrow> first_fair rq;
     rq \<leftarrow> (if next \<noteq> 0 then dequeue_task_fair next rq else Some rq);
     Some (next, rq) }"

subsection \<open>The search\<close>

abbreviation keys_ok :: "(u64 \<rightharpoonup> u64) \<Rightarrow> u64 list \<Rightarrow> bool" where
  "keys_ok ts as \<equiv> set as \<subseteq> dom ts \<and> sorted (map (the \<circ> ts) as)"

lemma cfs_find_place:
  assumes "zrep m k t" "keys_ok ts (addrs t)"
  shows "\<exists>k'. cfs_find key ts (zpar k) (link_of k) lm m
       = Some (zpar k', link_of k', lm \<and> takeWhile (\<lambda>a. the (ts a) \<le> key) (addrs t) = [])
     \<and> plug k' PL = plug k t
     \<and> zleft k' = zleft k @ takeWhile (\<lambda>a. the (ts a) \<le> key) (addrs t)
     \<and> zright k' = dropWhile (\<lambda>a. the (ts a) \<le> key) (addrs t) @ zright k"
  using assms
proof (induction t arbitrary: k lm)
  case PL
  then show ?case
    by (subst cfs_find.simps) (auto simp: link_get_focus)
next
  case (PN l a c r)
  note z = PN.prems(1)
  obtain ka where ka: "ts a = Some ka" using PN.prems(2) by auto
  show ?case
  proof (cases "key < ka")
    case True
    from PN.IH(1) [of "FL a c r # k" lm] PN.prems True ka show ?thesis
      by (subst cfs_find.simps)
         (auto simp: link_get_focus [OF z] zrep_root_node [OF z] zrep_FL sorted_append
           takeWhile_stop dropWhile_stop takeWhile_append2 dropWhile_append2)
  next
    case False
    have "\<forall>x \<in> set (addrs l). the (ts x) \<le> key"
      using PN.prems(2) False ka by (fastforce simp: sorted_append)
    with PN.IH(2) [of "FR l a c # k" False] PN.prems False ka show ?thesis
      by (subst cfs_find.simps)
         (auto simp: link_get_focus [OF z] zrep_root_node [OF z] zrep_FR sorted_append
           takeWhile_stop dropWhile_stop takeWhile_append2 dropWhile_append2)
  qed
qed

subsection \<open>The abstract queue\<close>

text \<open>A queue is the list of its tasks with their keys, in order; a new task goes behind all tasks
  whose key is not greater.\<close>

definition pq_ins :: "u64 \<Rightarrow> u64 \<Rightarrow> (u64 \<times> u64) list \<Rightarrow> (u64 \<times> u64) list" where
  "pq_ins a k xs = takeWhile (\<lambda>x. snd x \<le> k) xs @ (a, k) # dropWhile (\<lambda>x. snd x \<le> k) xs"

lemma pq_ins_simps [simp]:
  "pq_ins a k [] = [(a, k)]"
  "pq_ins a k (x # xs) = (if snd x \<le> k then x # pq_ins a k xs else (a, k) # x # xs)"
  by (simp_all add: pq_ins_def)

lemma mset_pq_ins [simp]: "mset (pq_ins a k xs) = add_mset (a, k) (mset xs)"
  by (induction xs) simp_all

lemma set_pq_ins [simp]: "set (pq_ins a k xs) = insert (a, k) (set xs)"
  by (induction xs) auto

lemma sorted_pq_ins: "sorted (map snd xs) \<Longrightarrow> sorted (map snd (pq_ins a k xs))"
  by (induction xs) auto

text \<open>Tasks of equal key stay in the order of their arrival.\<close>

lemma filter_pq_ins:
  assumes "sorted (map snd xs)"
  shows "filter (\<lambda>x. snd x = j) (pq_ins a k xs) = filter (\<lambda>x. snd x = j) (xs @ [(a, k)])"
  using assms
proof (induction xs)
  case (Cons x xs)
  show ?case
  proof (cases "snd x \<le> k")
    case False
    with Cons.prems have "\<forall>y \<in> set xs. snd y \<noteq> k" by auto
    then have "filter (\<lambda>y. snd y = k) xs = []" by (simp add: filter_empty_conv)
    with False show ?thesis by auto
  qed (use Cons in simp)
qed simp

lemma pq_ins_sort_key: "pq_ins a k (sort_key snd xs) = sort_key snd (xs @ [(a, k)])"
proof (rule sym, rule properties_for_sort_key)
  show "filter (\<lambda>x. snd y = snd x) (pq_ins a k (sort_key snd xs))
      = filter (\<lambda>x. snd y = snd x) (xs @ [(a, k)])" for y :: "u64 \<times> u64"
    using filter_pq_ins [of "sort_key snd xs" "snd y" a k] sort_key_stable [of snd "snd y" xs]
    by (simp add: eq_commute [of "snd y"])
qed (simp_all add: sorted_pq_ins)

text \<open>Dequeuing \<open>n\<close> times.\<close>

primrec drain :: "('q \<Rightarrow> (u64 \<times> 'q) option) \<Rightarrow> nat \<Rightarrow> 'q \<Rightarrow> (u64 list \<times> 'q) option" where
  "drain deq 0 q = Some ([], q)"
| "drain deq (Suc n) q = do { (a, q) \<leftarrow> deq q; (as, q) \<leftarrow> drain deq n q; Some (a # as, q) }"

text \<open>The contract of a run queue: \<open>rel q xs\<close> says that \<open>q\<close> holds the abstract queue \<open>xs\<close>,
  \<open>task q a\<close> that \<open>a\<close> is the address of a task in memory.\<close>

locale run_queue =
  fixes rel :: "'q \<Rightarrow> (u64 \<times> u64) list \<Rightarrow> bool"
    and task :: "'q \<Rightarrow> u64 \<Rightarrow> bool"
    and enq :: "u64 \<Rightarrow> u64 \<Rightarrow> 'q \<Rightarrow> 'q option"
    and deq :: "'q \<Rightarrow> (u64 \<times> 'q) option"
  assumes enq_rel: "rel q xs \<Longrightarrow> task q a \<Longrightarrow> a \<notin> fst ` set xs \<Longrightarrow>
      \<exists>q'. enq a k q = Some q' \<and> rel q' (pq_ins a k xs) \<and> (\<forall>b. task q b \<longrightarrow> task q' b)"
    and deq_nil: "rel q [] \<Longrightarrow> deq q = Some (0, q)"
    and deq_cons: "rel q (x # xs) \<Longrightarrow>
      \<exists>q'. deq q = Some (fst x, q') \<and> rel q' xs \<and> (\<forall>b. task q b \<longrightarrow> task q' b)"
begin

lemma enq_all_rel:
  assumes "rel q (sort_key snd ys)" "\<forall>a \<in> fst ` set xs. task q a" "distinct (map fst (ys @ xs))"
  shows "\<exists>q'. foldM (\<lambda>(a, k). enq a k) xs q = Some q' \<and> rel q' (sort_key snd (ys @ xs))
    \<and> (\<forall>b. task q b \<longrightarrow> task q' b)"
  using assms
proof (induction xs arbitrary: q ys)
  case (Cons x xs)
  obtain a k where x: "x = (a, k)" by (cases x)
  have "a \<notin> fst ` set (sort_key snd ys)" using Cons.prems(3) x by auto
  from enq_rel [OF Cons.prems(1) _ this, of k] Cons.prems(2) x obtain q1 where q1:
    "enq a k q = Some q1" "rel q1 (sort_key snd (ys @ [(a, k)]))" "\<forall>b. task q b \<longrightarrow> task q1 b"
    by (auto simp: pq_ins_sort_key)
  from Cons.IH [OF q1(2)] Cons.prems(2,3) q1 x show ?case by fastforce
qed auto

lemma drain_rel:
  "rel q (xs @ ys) \<Longrightarrow> \<exists>q'. drain deq (length xs) q = Some (map fst xs, q') \<and> rel q' ys"
proof (induction xs arbitrary: q)
  case (Cons x xs)
  from deq_cons [of q x "xs @ ys"] Cons.prems obtain q1 where q1:
    "deq q = Some (fst x, q1)" "rel q1 (xs @ ys)" by auto
  from Cons.IH [OF q1(2)] q1(1) show ?case by auto
qed simp

text \<open>Whatever is queued comes out sorted by key, and in the order of arrival where keys are equal.\<close>

lemma queue_sorts:
  assumes "rel q []" "\<forall>a \<in> fst ` set xs. task q a" "distinct (map fst xs)"
  shows "\<exists>q'. foldM (\<lambda>(a, k). enq a k) xs q \<bind> drain deq (length xs)
      = Some (map fst (sort_key snd xs), q') \<and> rel q' []"
proof -
  from enq_all_rel [of q "[]" xs] assms obtain q1 where q1:
    "foldM (\<lambda>(a, k). enq a k) xs q = Some q1" "rel q1 (sort_key snd xs)" by auto
  with drain_rel [of q1 "sort_key snd xs" "[]"] show ?thesis by auto
qed

end

subsection \<open>The run queue meets the contract\<close>

text \<open>The cache \<open>rb_leftmost\<close> is empty or right.\<close>

definition cfs_rel :: "cfs_rq \<Rightarrow> (u64 \<times> u64) list \<Rightarrow> bool" where
  "cfs_rel q xs \<longleftrightarrow> (\<exists>t. rep (tasks_timeline q) t \<and> rb_ok t \<and> addrs t = map fst xs)
     \<and> sorted (map snd xs) \<and> (\<forall>x \<in> set xs. tsk_t q (fst x) = Some (snd x))
     \<and> (rb_leftmost q \<noteq> 0 \<longrightarrow> xs \<noteq> [] \<and> rb_leftmost q = fst (hd xs))"

definition cfs_task :: "cfs_rq \<Rightarrow> u64 \<Rightarrow> bool" where
  "cfs_task q a \<longleftrightarrow> a \<noteq> 0 \<and> aligned a \<and> nodes (tasks_timeline q) a \<noteq> None"

lemma heap_tree_dom: "heap_tree h par t \<Longrightarrow> a \<in> set (addrs t) \<Longrightarrow> h a \<noteq> None"
  by (induction t arbitrary: par) auto

lemma rep_dom: "rep m t \<Longrightarrow> a \<in> set (addrs t) \<Longrightarrow> nodes m a \<noteq> None"
  by (auto simp: zrep_def dest: heap_tree_dom)

lemma restored_dom:
  assumes "restored m (Some m') as" "nodes m b \<noteq> None"
  shows "nodes m' b \<noteq> None"
  using assms rep_dom [of m' _ b] by (cases "b \<in> set as") (fastforce simp: restored_def ends_def)+

lemma keys_map:
  assumes "\<forall>x \<in> set xs. ts (fst x) = Some (snd x)"
  shows "map (the \<circ> ts) (map fst xs) = map snd xs"
    "takeWhile (\<lambda>a. the (ts a) \<le> k) (map fst xs) = map fst (takeWhile (\<lambda>x. snd x \<le> k) xs)"
    "dropWhile (\<lambda>a. the (ts a) \<le> k) (map fst xs) = map fst (dropWhile (\<lambda>x. snd x \<le> k) xs)"
  using assms by (induction xs) auto

lemma cfs_queue_rel:
  assumes rel: "cfs_rel q xs" and task: "cfs_task q a" and new: "a \<notin> fst ` set xs"
  shows "\<exists>q'. cfs_queue a k q = Some q' \<and> cfs_rel q' (pq_ins a k xs)
    \<and> (\<forall>b. cfs_task q b \<longrightarrow> cfs_task q' b)"
proof -
  let ?ts = "(tsk_t q)(a \<mapsto> k)" and ?m = "tasks_timeline q"
  let ?le = "takeWhile (\<lambda>x. snd x \<le> k) xs" and ?gt = "dropWhile (\<lambda>x. snd x \<le> k) xs"
  from rel obtain t where t: "rep ?m t" "rb_ok t" "addrs t = map fst xs" by (auto simp: cfs_rel_def)
  have ts: "\<forall>x \<in> set xs. ?ts (fst x) = Some (snd x)" using rel new by (auto simp: cfs_rel_def)
  note km = keys_map [OF ts]
  have "keys_ok ?ts (addrs t)"
    unfolding t(3) km(1) using rel ts by (auto simp: cfs_rel_def simp del: fun_upd_apply)
  from cfs_find_place [OF t(1) this, of k True] obtain k' where k':
    "cfs_find k ?ts 0 LinkRoot True ?m = Some (zpar k', link_of k', ?le = [])"
    "plug k' PL = t" "zleft k' = map fst ?le" "zright k' = map fst ?gt"
    by (auto simp: t(3) km(2,3) simp del: fun_upd_apply)
  have z: "zrep ?m k' PL" and "fresh ?m a k' PL"
    using t task new by (simp_all add: zrep_plug [of ?m k'] k'(2) fresh_def cfs_task_def)
  from rb_insert_restored [OF this] t(2) obtain m' where m':
    "rb_link_node a (zpar k') (link_of k') ?m \<bind> rb_insert_color a = Some m'"
    and res: "restored ?m (Some m') (map fst (pq_ins a k xs))"
    by (auto simp: k' restored_def ends_def pq_ins_def)
  let ?q = "q\<lparr>tsk_t := ?ts, rb_leftmost := (if ?le = [] then a else rb_leftmost q), tasks_timeline := m'\<rparr>"
  have "cfs_queue a k q = Some ?q"
    using m' by (auto simp: cfs_queue_def k'(1) Option.bind_eq_Some_conv)
  moreover have "cfs_rel ?q (pq_ins a k xs)"
    using rel res ts sorted_pq_ins [of xs a k]
    by (cases xs) (auto simp: cfs_rel_def restored_def ends_def)
  moreover have "cfs_task q b \<Longrightarrow> cfs_task ?q b" for b
    using restored_dom [OF res] by (simp add: cfs_task_def)
  ultimately show ?thesis by blast
qed

lemma first_fair_rel: "cfs_rel q xs \<Longrightarrow> first_fair q = Some (if xs = [] then 0 else fst (hd xs))"
  using rb_first_hd [of "tasks_timeline q"]
  by (auto simp: cfs_rel_def first_fair_def hd_map simp flip: addrs_Nil)

lemma dequeue_task_fair_rel:
  assumes rel: "cfs_rel q xs" and a: "a \<in> fst ` set xs"
  shows "\<exists>q'. dequeue_task_fair a q = Some q' \<and> cfs_rel q' (filter (\<lambda>x. fst x \<noteq> a) xs)
    \<and> (\<forall>b. cfs_task q b \<longrightarrow> cfs_task q' b)"
proof -
  let ?m = "tasks_timeline q" and ?xs = "filter (\<lambda>x. fst x \<noteq> a) xs"
  from rel obtain t where t: "rep ?m t" "rb_ok t" "addrs t = map fst xs" by (auto simp: cfs_rel_def)
  have d: "distinct (map fst xs)" using zrep_distinct [OF t(1)] t(3) by simp
  have as: "remove1 a (map fst xs) = map fst ?xs"
    using d by (simp add: distinct_remove1_removeAll removeAll_filter_not_eq filter_map comp_def)
      (metis)
  have "erased ?m (rb_erase a ?m) a (map fst ?xs)"
    using rb_erase_erased [OF t(1,2), of a] a by (simp add: t(3) as)
  then obtain m' t' where m': "rb_erase a ?m = Some m'"
    "rep m' t'" "rb_ok t'" "addrs t' = map fst ?xs" "nodes m' a \<noteq> None"
    "\<forall>x. x \<notin> set (map fst ?xs) \<longrightarrow> x \<noteq> a \<longrightarrow> nodes m' x = nodes ?m x"
    by (auto simp: erased_def)
  let ?q = "q\<lparr>rb_leftmost := (if rb_leftmost q = a then 0 else rb_leftmost q), tasks_timeline := m'\<rparr>"
  have "dequeue_task_fair a q = Some ?q" using m'(1) by (simp add: dequeue_task_fair_def)
  moreover have "cfs_rel ?q ?xs"
    using rel m'(2-4) by (cases xs) (auto simp: cfs_rel_def sorted_filter)
  moreover have "cfs_task q b \<Longrightarrow> cfs_task ?q b" for b
    using rep_dom [OF m'(2), of b] m'(4-6) by (cases "b \<in> set (map fst ?xs)"; cases "b = a") (auto simp: cfs_task_def)
  ultimately show ?thesis by blast
qed

lemma cfs_dequeue_nil: "cfs_rel q [] \<Longrightarrow> cfs_dequeue q = Some (0, q)"
  by (simp add: cfs_dequeue_def first_fair_rel)

lemma cfs_dequeue_cons:
  assumes rel: "cfs_rel q (x # xs)"
  shows "\<exists>q'. cfs_dequeue q = Some (fst x, q') \<and> cfs_rel q' xs \<and> (\<forall>b. cfs_task q b \<longrightarrow> cfs_task q' b)"
proof -
  from rel obtain t where t: "rep (tasks_timeline q) t" "addrs t = map fst (x # xs)"
    by (auto simp: cfs_rel_def)
  have "distinct (map fst (x # xs))" "0 \<notin> set (map fst (x # xs))"
    using zrep_distinct [OF t(1)] zrep_nonzero [OF t(1)] t(2) by simp_all
  then have "filter (\<lambda>y. fst y \<noteq> fst x) (x # xs) = xs" "fst x \<noteq> 0"
    by (auto simp: filter_id_conv image_iff)
  with dequeue_task_fair_rel [OF rel, of "fst x"] first_fair_rel [OF rel] show ?thesis
    by (auto simp: cfs_dequeue_def)
qed

interpretation cfs: run_queue cfs_rel cfs_task cfs_queue cfs_dequeue
proof unfold_locales
  fix q xs a k
  show "cfs_rel q xs \<Longrightarrow> cfs_task q a \<Longrightarrow> a \<notin> fst ` set xs \<Longrightarrow>
      \<exists>q'. cfs_queue a k q = Some q' \<and> cfs_rel q' (pq_ins a k xs) \<and> (\<forall>b. cfs_task q b \<longrightarrow> cfs_task q' b)"
    by (rule cfs_queue_rel)
qed (fact cfs_dequeue_nil cfs_dequeue_cons)+

lemma cfs_rqinit_rel: "cfs_rel (cfs_rqinit q) []"
  by (auto simp: cfs_rel_def cfs_rqinit_def zrep_def rb_ok_def intro!: exI [of _ PL])

lemma cfs_rqinit_task [simp]: "cfs_task (cfs_rqinit q) a = cfs_task q a"
  by (simp add: cfs_task_def cfs_rqinit_def)

subsection \<open>The benchmark loop\<close>

definition NS_SLOT :: u64 where "NS_SLOT = 5 * 1000000"

text \<open>\<open>&tasks[i]\<close>; a \<^verbatim>\<open>struct cfs_task\<close> has 32 bytes.\<close>

definition cfs_task_addr :: "u64 \<Rightarrow> nat \<Rightarrow> u64" where
  "cfs_task_addr tasks i = tasks + 32 * of_nat i"

text \<open>\<open>rnd i\<close> is what the \<open>i\<close>-th call of \<^verbatim>\<open>rand()\<close> returns; the counts are C ints, so a loop up
  to a negative one has no pass.\<close>

definition cfs_fill_step :: "u64 \<Rightarrow> (nat \<Rightarrow> int) \<Rightarrow> int \<Rightarrow> nat \<Rightarrow> cfs_rq \<Rightarrow> cfs_rq option" where
  "cfs_fill_step tasks rnd ntimes i rq = (
     let rq = rq\<lparr>tsk_t := (tsk_t rq)(cfs_task_addr tasks i \<mapsto> 0)\<rparr> in
     cfs_queue (cfs_task_addr tasks i) (of_int (rnd i mod ntimes) * NS_SLOT) rq)"

definition cfs_turn :: "int \<Rightarrow> cfs_rq \<Rightarrow> cfs_rq option" where
  "cfs_turn ntimes rq = do {
     (tsk, rq) \<leftarrow> cfs_dequeue rq;
     t \<leftarrow> (if tsk = 0 then None else tsk_t rq tsk);
     cfs_queue tsk (t + of_int (ntimes div 7) * NS_SLOT) rq }"

definition cfs_test :: "u64 \<Rightarrow> (nat \<Rightarrow> int) \<Rightarrow> int \<Rightarrow> int \<Rightarrow> int \<Rightarrow> cfs_rq \<Rightarrow> cfs_rq option" where
  "cfs_test tasks rnd ntasks ntimes loops rq = do {
     rq \<leftarrow> foldM (cfs_fill_step tasks rnd ntimes) [0..<nat ntasks] (cfs_rqinit rq);
     foldM (\<lambda>_. cfs_turn ntimes) [0..<nat loops] rq }"

lemma cfs_dequeue_keys: "cfs_dequeue q = Some (a, q') \<Longrightarrow> tsk_t q' = tsk_t q"
  by (auto simp: cfs_dequeue_def dequeue_task_fair_def Option.bind_eq_Some_conv split: if_splits)

lemma cfs_rel_nonzero: "cfs_rel q xs \<Longrightarrow> 0 \<notin> fst ` set xs"
  by (metis cfs_rel_def list.set_map plug.simps(1) zrep_nonzero)

lemma cfs_rel_distinct: "cfs_rel q xs \<Longrightarrow> distinct (map fst xs)"
  by (metis cfs_rel_def plug.simps(1) zrep_distinct)

lemma cfs_turn_rel:
  assumes rel: "cfs_rel q (x # xs)" and task: "cfs_task q (fst x)"
  shows "\<exists>q'. cfs_turn ntimes q = Some q'
     \<and> cfs_rel q' (pq_ins (fst x) (snd x + of_int (ntimes div 7) * NS_SLOT) xs)
     \<and> (\<forall>b. cfs_task q b \<longrightarrow> cfs_task q' b)"
proof -
  from cfs_dequeue_cons [OF rel] obtain q1 where q1: "cfs_dequeue q = Some (fst x, q1)" "cfs_rel q1 xs"
    "\<forall>b. cfs_task q b \<longrightarrow> cfs_task q1 b" by blast
  have "tsk_t q1 (fst x) = Some (snd x)" using cfs_dequeue_keys [OF q1(1)] rel by (simp add: cfs_rel_def)
  moreover have "fst x \<notin> fst ` set xs" "fst x \<noteq> 0"
    using cfs_rel_distinct [OF rel] cfs_rel_nonzero [OF rel] by auto
  ultimately show ?thesis
    using cfs_queue_rel [OF q1(2), of "fst x" "snd x + of_int (ntimes div 7) * NS_SLOT"] q1 task
    by (fastforce simp: cfs_turn_def)
qed

lemma cfs_rel_key_upd:
  "cfs_rel q xs \<Longrightarrow> a \<notin> fst ` set xs \<Longrightarrow> cfs_rel (q\<lparr>tsk_t := (tsk_t q)(a \<mapsto> k)\<rparr>) xs"
  by (auto simp: cfs_rel_def)

lemma cfs_task_key_upd [simp]: "cfs_task (q\<lparr>tsk_t := ts\<rparr>) b = cfs_task q b"
  by (simp add: cfs_task_def)

text \<open>Filling the queue orders the tasks by their random keys.\<close>

definition cfs_initial :: "u64 \<Rightarrow> (nat \<Rightarrow> int) \<Rightarrow> int \<Rightarrow> nat list \<Rightarrow> (u64 \<times> u64) list" where
  "cfs_initial tasks rnd ntimes = map (\<lambda>i. (cfs_task_addr tasks i, of_int (rnd i mod ntimes) * NS_SLOT))"

lemma cfs_fill_rel:
  assumes task: "\<forall>i < n. cfs_task q (cfs_task_addr tasks i)"
    and inj: "inj_on (cfs_task_addr tasks) {..<n}" and "cfs_rel q []"
  shows "\<exists>q'. foldM (cfs_fill_step tasks rnd ntimes) [0..<n] q = Some q'
     \<and> cfs_rel q' (sort_key snd (cfs_initial tasks rnd ntimes [0..<n]))
     \<and> (\<forall>b. cfs_task q b \<longrightarrow> cfs_task q' b)"
  using task inj
proof (induction n)
  case (Suc n)
  let ?xs = "sort_key snd (cfs_initial tasks rnd ntimes [0..<n])"
    and ?a = "cfs_task_addr tasks n" and ?k = "of_int (rnd n mod ntimes) * NS_SLOT"
  have "inj_on (cfs_task_addr tasks) {..<n}" using Suc.prems(2) by (rule inj_on_subset) auto
  with Suc obtain q1 where q1: "foldM (cfs_fill_step tasks rnd ntimes) [0..<n] q = Some q1"
    "cfs_rel q1 ?xs" "\<forall>b. cfs_task q b \<longrightarrow> cfs_task q1 b" by auto
  have new: "?a \<notin> fst ` set ?xs"
    using Suc.prems(2) by (force simp: cfs_initial_def dest: inj_onD)
  have "cfs_task (q1\<lparr>tsk_t := (tsk_t q1)(?a \<mapsto> 0)\<rparr>) ?a" using q1(3) Suc.prems(1) by simp
  from cfs_queue_rel [OF cfs_rel_key_upd [OF q1(2) new] this new, of ?k]
  obtain q2 where "cfs_fill_step tasks rnd ntimes n q1 = Some q2" "cfs_rel q2 (pq_ins ?a ?k ?xs)"
    "\<forall>b. cfs_task q1 b \<longrightarrow> cfs_task q2 b" by (auto simp: cfs_fill_step_def)
  then show ?case using q1 by (auto simp: pq_ins_sort_key cfs_initial_def)
qed (use assms(3) in \<open>simp add: cfs_initial_def\<close>)

text \<open>One turn of the abstract queue, and the whole benchmark.\<close>

fun pq_turn :: "int \<Rightarrow> (u64 \<times> u64) list \<Rightarrow> (u64 \<times> u64) list" where
  "pq_turn ntimes [] = []"
| "pq_turn ntimes ((a, k) # xs) = pq_ins a (k + of_int (ntimes div 7) * NS_SLOT) xs"

lemma pq_turn_fst: "fst ` set (pq_turn ntimes xs) = fst ` set xs"
  by (cases "(ntimes, xs)" rule: pq_turn.cases) simp_all

lemma pq_turns_fst: "fst ` set ((pq_turn ntimes ^^ n) xs) = fst ` set xs"
  by (induction n) (simp_all add: pq_turn_fst)

lemma pq_turns_Nil: "(pq_turn ntimes ^^ n) xs = [] \<longleftrightarrow> xs = []"
  using pq_turns_fst [of n ntimes xs] by auto

lemma cfs_turns_rel:
  assumes "cfs_rel q xs" "xs \<noteq> []" "\<forall>b \<in> fst ` set xs. cfs_task q b"
  shows "\<exists>q'. foldM (\<lambda>_. cfs_turn ntimes) [0..<n] q = Some q' \<and> cfs_rel q' ((pq_turn ntimes ^^ n) xs)
    \<and> (\<forall>b. cfs_task q b \<longrightarrow> cfs_task q' b)"
proof (induction n)
  case (Suc n)
  let ?xs = "(pq_turn ntimes ^^ n) xs"
  from Suc obtain q1 where q1: "foldM (\<lambda>_. cfs_turn ntimes) [0..<n] q = Some q1"
    "cfs_rel q1 ?xs" "\<forall>b. cfs_task q b \<longrightarrow> cfs_task q1 b" by blast
  obtain a k ys where ys: "?xs = (a, k) # ys"
    using pq_turns_Nil [of n ntimes xs] assms(2) by (cases ?xs) auto
  then have "a \<in> fst ` set xs" using pq_turns_fst [of n ntimes xs] by auto
  then have "cfs_task q1 a" using assms(3) q1(3) by blast
  with cfs_turn_rel [of q1 "(a, k)" ys ntimes] q1(2) ys obtain q2 where
    "cfs_turn ntimes q1 = Some q2" "cfs_rel q2 (pq_turn ntimes ?xs)"
    "\<forall>b. cfs_task q1 b \<longrightarrow> cfs_task q2 b" by auto
  then show ?case using q1 by auto
qed (use assms in simp)

text \<open>The benchmark never faults when it has a task: it ends with the queue that the abstract
  turns give from the sorted tasks.\<close>

lemma cfs_test_rel:
  assumes "0 < ntasks" "\<forall>i < nat ntasks. cfs_task q (cfs_task_addr tasks i)"
    "inj_on (cfs_task_addr tasks) {..<nat ntasks}"
  shows "\<exists>q'. cfs_test tasks rnd ntasks ntimes loops q = Some q'
    \<and> cfs_rel q' ((pq_turn ntimes ^^ nat loops)
        (sort_key snd (cfs_initial tasks rnd ntimes [0..<nat ntasks])))"
proof -
  let ?xs = "sort_key snd (cfs_initial tasks rnd ntimes [0..<nat ntasks])"
  from cfs_fill_rel [of "nat ntasks" "cfs_rqinit q" tasks rnd ntimes] assms(2,3) cfs_rqinit_rel
  obtain q1 where q1: "foldM (cfs_fill_step tasks rnd ntimes) [0..<nat ntasks] (cfs_rqinit q) = Some q1"
    "cfs_rel q1 ?xs" "\<forall>b. cfs_task q b \<longrightarrow> cfs_task q1 b" by auto
  have "?xs \<noteq> []" "\<forall>b \<in> fst ` set ?xs. cfs_task q1 b"
    using assms(1,2) q1(3)
    by (auto simp: cfs_initial_def simp del: sort_key_simps simp flip: length_0_conv)
  from cfs_turns_rel [OF q1(2) this, of ntimes "nat loops"] q1(1) show ?thesis
    by (auto simp: cfs_test_def)
qed

text \<open>With no task the first turn dereferences the NULL that \<^verbatim>\<open>cfs_dequeue\<close> returns.\<close>

lemma cfs_test_no_task:
  assumes "ntasks \<le> 0" "0 < loops"
  shows "cfs_test tasks rnd ntasks ntimes loops q = None"
proof -
  obtain n where "nat loops = Suc n" using assms(2) by (cases "nat loops") auto
  then have "[0..<nat loops] = 0 # [1..<nat loops]" by (simp add: upt_conv_Cons)
  then show ?thesis
    using assms(1) cfs_dequeue_nil [OF cfs_rqinit_rel] by (simp add: cfs_test_def cfs_turn_def)
qed

subsection \<open>Properties\<close>

text \<open>C11. \<^verbatim>\<open>cfs_queue\<close> of a task that is not queued ends without a fault and puts it behind
  all tasks with a key that is not greater; the tree stays a red-black tree ordered by key, and the
  cache \<open>rb_leftmost\<close> stays empty or right.\<close>

theorem cfs_queue_refines:
  assumes "cfs_rel q xs" "cfs_task q a" "a \<notin> fst ` set xs"
  shows "\<exists>q'. cfs_queue a k q = Some q'
    \<and> cfs_rel q' (takeWhile (\<lambda>x. snd x \<le> k) xs @ (a, k) # dropWhile (\<lambda>x. snd x \<le> k) xs)"
  using cfs.enq_rel [OF assms, of k] by (auto simp: pq_ins_def)

text \<open>C12. \<^verbatim>\<open>cfs_dequeue\<close> takes the first task out, which has the smallest key, and returns
  NULL and changes nothing when the queue is empty.\<close>

theorem cfs_dequeue_refines:
  assumes "cfs_rel q xs"
  shows "case xs of [] \<Rightarrow> cfs_dequeue q = Some (0, q)
    | x # ys \<Rightarrow> (\<exists>q'. cfs_dequeue q = Some (fst x, q') \<and> cfs_rel q' ys \<and> (\<forall>y \<in> set ys. snd x \<le> snd y))"
proof (cases xs)
  case (Cons x ys)
  then have "\<forall>y \<in> set ys. snd x \<le> snd y" using assms by (auto simp: cfs_rel_def)
  with cfs.deq_cons [of q x ys] assms Cons show ?thesis by auto
qed (use assms cfs.deq_nil [of q] in simp)

text \<open>C5. Tasks queued into a fresh run queue come out sorted by key, and in the order of
  their arrival where keys are equal.\<close>

theorem cfs_sorts:
  assumes "\<forall>a \<in> fst ` set xs. cfs_task q a" "distinct (map fst xs)"
  shows "\<exists>q'. foldM (\<lambda>(a, k). cfs_queue a k) xs (cfs_rqinit q) \<bind> drain cfs_dequeue (length xs)
    = Some (map fst (sort_key snd xs), q') \<and> cfs_rel q' []"
  using cfs.queue_sorts [OF cfs_rqinit_rel, of xs q] assms by simp

text \<open>\<^verbatim>\<open>__dequeue_task_fair\<close> takes any queued task out, the cached leftmost one or not,
  and keeps the order of the others.\<close>

theorem cfs_dequeue_task_any:
  assumes "cfs_rel q xs" "a \<in> fst ` set xs"
  shows "\<exists>q'. dequeue_task_fair a q = Some q' \<and> cfs_rel q' (filter (\<lambda>x. fst x \<noteq> a) xs)"
  using dequeue_task_fair_rel [OF assms] by blast

text \<open>The CFS benchmark with at least one task ends without a fault for every number of
  loops and every random sequence, with the queue of the abstract turns: each turn puts the first
  task back behind all tasks with a key not greater than its new one.\<close>

theorem cfs_test_safe:
  assumes "0 < ntasks" "\<forall>i < nat ntasks. cfs_task q (cfs_task_addr tasks i)"
    "inj_on (cfs_task_addr tasks) {..<nat ntasks}"
  shows "\<exists>q'. cfs_test tasks rnd ntasks ntimes loops q = Some q'
    \<and> cfs_rel q' ((pq_turn ntimes ^^ nat loops)
        (sort_key snd (cfs_initial tasks rnd ntimes [0..<nat ntasks])))"
  by (rule cfs_test_rel [OF assms])

text \<open>With \<^verbatim>\<open>-n 0\<close> (or a negative count) the benchmark faults: it dereferences the NULL
  that \<^verbatim>\<open>cfs_dequeue\<close> returns for an empty queue.\<close>

theorem cfs_test_faults:
  assumes "ntasks \<le> 0" "0 < loops"
  shows "cfs_test tasks rnd ntasks ntimes loops q = None"
  by (rule cfs_test_no_task [OF assms])

subsection \<open>Witnesses\<close>

definition demo_rq :: cfs_rq where
  "demo_rq = \<lparr>tasks_timeline = demo_mem,
     tsk_t = [0x100 \<mapsto> 10, 0x200 \<mapsto> 20, 0x300 \<mapsto> 20], rb_leftmost = 0x100\<rparr>"

lemma demo_rq_rel: "cfs_rel demo_rq [(0x100, 10), (0x200, 20), (0x300, 20)]"
  using demo_rep by (auto simp: cfs_rel_def demo_rq_def)

lemma demo_rq_task: "a \<in> {0x100, 0x200, 0x300, 0x400} \<Longrightarrow> cfs_task demo_rq a"
  by (auto simp: cfs_task_def demo_rq_def demo_mem_def)

theorem cfs_queue_refines_witness:
  "\<exists>q'. cfs_queue 0x400 10 demo_rq = Some q'
    \<and> cfs_rel q' [(0x100, 10), (0x400, 10), (0x200, 20), (0x300, 20)]"
  using cfs_queue_refines [OF demo_rq_rel, of "0x400" 10] demo_rq_task by simp

theorem cfs_dequeue_refines_witness:
  "\<exists>q'. cfs_dequeue demo_rq = Some (0x100, q') \<and> cfs_rel q' [(0x200, 20), (0x300, 20)]"
  using cfs_dequeue_refines [OF demo_rq_rel] by auto

theorem cfs_sorts_witness:
  "\<exists>q'. foldM (\<lambda>(a, k). cfs_queue a k) [(0x100, 5), (0x200, 3), (0x400, 5)] (cfs_rqinit demo_rq)
      \<bind> drain cfs_dequeue 3 = Some ([0x200, 0x100, 0x400], q')"
  using cfs_sorts [of "[(0x100, 5), (0x200, 3), (0x400, 5)]" demo_rq] demo_rq_task
  by (auto simp: numeral_3_eq_3 simp del: foldM.simps drain.simps)

end
