(* ===== verification/KList.thy ===== *)
theory KList
  imports Prelude
begin

text \<open>
  The circular doubly linked lists of \<^verbatim>\<open>smart-queue.c\<close>: a memory maps addresses to
  \<^verbatim>\<open>struct list_head\<close>, and \<open>is_list m h xs\<close> says that the list with head \<open>h\<close> has the entries
  \<open>xs\<close>. Many lists share one memory, so every operation comes with a statement of what it leaves
  alone.
\<close>

record list_head =
  lh_next :: u64
  lh_prev :: u64

type_synonym lmem = "u64 \<rightharpoonup> list_head"

definition lld :: "lmem \<Rightarrow> u64 \<Rightarrow> list_head option" where
  "lld m p = (if p = 0 then None else m p)"

definition set_next :: "u64 \<Rightarrow> u64 \<Rightarrow> lmem \<Rightarrow> lmem option" where
  "set_next p v m = do { n \<leftarrow> lld m p; Some (m(p \<mapsto> n\<lparr>lh_next := v\<rparr>)) }"

definition set_prev :: "u64 \<Rightarrow> u64 \<Rightarrow> lmem \<Rightarrow> lmem option" where
  "set_prev p v m = do { n \<leftarrow> lld m p; Some (m(p \<mapsto> n\<lparr>lh_prev := v\<rparr>)) }"

definition INIT_LIST_HEAD :: "u64 \<Rightarrow> lmem \<Rightarrow> lmem option" where
  "INIT_LIST_HEAD l m = do { m \<leftarrow> set_next l l m; set_prev l l m }"

definition do_list_add :: "u64 \<Rightarrow> u64 \<Rightarrow> u64 \<Rightarrow> lmem \<Rightarrow> lmem option" where
  "do_list_add new p n m = do {
     m \<leftarrow> set_prev n new m;
     m \<leftarrow> set_next new n m;
     m \<leftarrow> set_prev new p m;
     set_next p new m }"

definition list_add_tail :: "u64 \<Rightarrow> u64 \<Rightarrow> lmem \<Rightarrow> lmem option" where
  "list_add_tail new head m = do { h \<leftarrow> lld m head; do_list_add new (lh_prev h) head m }"

definition do_list_del :: "u64 \<Rightarrow> u64 \<Rightarrow> lmem \<Rightarrow> lmem option" where
  "do_list_del p n m = do { m \<leftarrow> set_prev n p m; set_next p n m }"

definition list_del :: "u64 \<Rightarrow> lmem \<Rightarrow> lmem option" where
  "list_del entry m = do {
     e \<leftarrow> lld m entry;
     m \<leftarrow> do_list_del (lh_prev e) (lh_next e) m;
     m \<leftarrow> set_next entry 0 m;
     set_prev entry 0 m }"

definition list_empty :: "u64 \<Rightarrow> lmem \<Rightarrow> bool option" where
  "list_empty head m = do { h \<leftarrow> lld m head; Some (lh_next h = head) }"

subsection \<open>Lists in memory\<close>

definition linked :: "lmem \<Rightarrow> u64 \<Rightarrow> u64 \<Rightarrow> bool" where
  "linked m a b \<longleftrightarrow> map_option lh_next (m a) = Some b \<and> map_option lh_prev (m b) = Some a"

fun lseg :: "lmem \<Rightarrow> u64 \<Rightarrow> u64 list \<Rightarrow> u64 \<Rightarrow> bool" where
  "lseg m a [] b \<longleftrightarrow> linked m a b"
| "lseg m a (x # xs) b \<longleftrightarrow> linked m a x \<and> lseg m x xs b"

definition is_list :: "lmem \<Rightarrow> u64 \<Rightarrow> u64 list \<Rightarrow> bool" where
  "is_list m h xs \<longleftrightarrow> lseg m h xs h \<and> distinct (h # xs) \<and> 0 \<notin> set (h # xs)"

lemma lseg_append [simp]: "lseg m a (xs @ y # ys) b \<longleftrightarrow> lseg m a xs y \<and> lseg m y ys b"
  by (induction xs arbitrary: a) auto

lemma lseg_dom: "lseg m a xs b \<Longrightarrow> x \<in> set (a # xs @ [b]) \<Longrightarrow> m x \<noteq> None"
  by (induction xs arbitrary: a) (auto simp: linked_def)

text \<open>A segment depends on the \<open>next\<close> of its nodes but the last and on the \<open>prev\<close> of its nodes
  but the first.\<close>

lemma lseg_cong:
  assumes "\<forall>x \<in> set (a # xs). map_option lh_next (m' x) = map_option lh_next (m x)"
    and "\<forall>x \<in> set (xs @ [b]). map_option lh_prev (m' x) = map_option lh_prev (m x)"
  shows "lseg m' a xs b = lseg m a xs b"
  using assms by (induction xs arbitrary: a) (auto simp: linked_def)

lemma is_list_cong: "\<forall>x \<in> set (h # xs). m' x = m x \<Longrightarrow> is_list m' h xs = is_list m h xs"
  using lseg_cong [of h xs m' m h] by (simp add: is_list_def)

lemmas link_defs = lld_def set_next_def set_prev_def

text \<open>\<open>lists m res h xs keep\<close>: the operation returned a memory in which the list of \<open>h\<close> is \<open>xs\<close>,
  with the rest of memory, the nodes \<open>W\<close> apart, as it was.\<close>

definition lists :: "lmem \<Rightarrow> lmem option \<Rightarrow> u64 \<Rightarrow> u64 list \<Rightarrow> u64 set \<Rightarrow> bool" where
  "lists m res h xs W \<longleftrightarrow> (\<exists>m'. res = Some m' \<and> is_list m' h xs \<and> dom m' = dom m
     \<and> (\<forall>x. x \<notin> W \<longrightarrow> m' x = m x))"

lemma INIT_LIST_HEAD_lists:
  "h \<noteq> 0 \<Longrightarrow> m h \<noteq> None \<Longrightarrow> lists m (INIT_LIST_HEAD h m) h [] {h}"
  by (auto simp: lists_def INIT_LIST_HEAD_def link_defs is_list_def linked_def)

lemma list_empty_is_list: "is_list m h xs \<Longrightarrow> list_empty h m = Some (xs = [])"
  by (cases xs) (auto simp: list_empty_def is_list_def linked_def link_defs)

lemma list_first: "is_list m h (x # xs) \<Longrightarrow> \<exists>n. lld m h = Some n \<and> lh_next n = x"
  by (auto simp: is_list_def linked_def link_defs)

lemma list_add_tail_lists:
  assumes l: "is_list m h xs" and n: "n \<notin> set (h # xs)" "n \<noteq> 0" "m n \<noteq> None"
  shows "lists m (list_add_tail n h m) h (xs @ [n]) (insert n (set (h # xs)))"
proof (cases xs rule: rev_cases)
  case Nil
  with l n show ?thesis
    by (auto simp: lists_def list_add_tail_def do_list_add_def link_defs is_list_def linked_def)
next
  case (snoc ys z)
  obtain nh nz nn where m: "m h = Some nh" "lh_prev nh = z" "m z = Some nz" "m n = Some nn"
    using l n snoc by (auto simp: is_list_def linked_def)
  have d: "h \<noteq> z" "h \<noteq> n" "z \<noteq> n" "h \<noteq> 0" "z \<noteq> 0" "h \<notin> set ys" "z \<notin> set ys" "n \<notin> set ys"
    using l n snoc by (auto simp: is_list_def)
  let ?m = "m(h \<mapsto> nh\<lparr>lh_prev := n\<rparr>, n \<mapsto> nn\<lparr>lh_next := h, lh_prev := z\<rparr>, z \<mapsto> nz\<lparr>lh_next := n\<rparr>)"
  have "list_add_tail n h m = Some ?m"
    using m d n by (simp add: list_add_tail_def do_list_add_def link_defs fun_upd_twist)
  moreover have "lseg ?m h ys z = lseg m h ys z"
    using d m by (intro lseg_cong) auto
  ultimately show ?thesis
    using l n snoc m d by (auto simp: lists_def is_list_def linked_def)
qed

lemma list_del_lists:
  assumes l: "is_list m h (ys @ e # zs)"
  shows "lists m (list_del e m) h (ys @ zs) (set (h # ys @ e # zs))"
proof -
  define p where "p = last (h # ys)"
  define n where "n = hd (zs @ [h])"
  obtain ne np nn where m: "m e = Some ne" "lh_prev ne = p" "lh_next ne = n"
    "m p = Some np" "m n = Some nn"
    using l by (cases ys rule: rev_cases; cases zs) (auto simp: p_def n_def is_list_def linked_def)
  have d: "e \<noteq> p" "e \<noteq> n" "e \<noteq> 0" "p \<noteq> 0" "n \<noteq> 0"
    using l by (cases ys rule: rev_cases; cases zs; auto simp: p_def n_def is_list_def)+
  have pn: "p \<in> set (h # ys)" "n \<in> set (h # zs)"
    by (auto simp: p_def n_def) (cases zs; auto)
  then have "n \<notin> set ys" using l by (auto simp: is_list_def)
  let ?m1 = "m(n \<mapsto> nn\<lparr>lh_prev := p\<rparr>)"
  let ?m2 = "?m1(p \<mapsto> (the (?m1 p))\<lparr>lh_next := n\<rparr>)"
  let ?m = "?m2(e \<mapsto> ne\<lparr>lh_next := 0, lh_prev := 0\<rparr>)"
  have "list_del e m = Some ?m"
    using m d by (auto simp: list_del_def do_list_del_def link_defs)
  moreover have "lseg ?m h (ys @ zs) h"
  proof (cases ys rule: rev_cases)
    case Nil
    show ?thesis
    proof (cases zs)
      case zs: (Cons z zs')
      have "lseg ?m n zs' h = lseg m n zs' h"
        using l m d Nil zs by (intro lseg_cong) (auto simp: p_def n_def is_list_def)
      then show ?thesis using l m d Nil zs by (auto simp: p_def n_def is_list_def linked_def)
    qed (use l m d Nil in \<open>auto simp: p_def n_def linked_def\<close>)
  next
    case ys: (snoc ys' y)
    have y: "lseg ?m h ys' p = lseg m h ys' p"
      using l m d ys \<open>n \<notin> set ys\<close> by (intro lseg_cong) (auto simp: p_def is_list_def)
    show ?thesis
    proof (cases zs)
      case Nil
      then show ?thesis using l m d ys y by (auto simp: p_def n_def is_list_def linked_def)
    next
      case zs: (Cons z zs')
      have "lseg ?m n zs' h = lseg m n zs' h"
        using l m d ys zs by (intro lseg_cong) (auto simp: p_def n_def is_list_def)
      then show ?thesis using l m d ys zs y by (auto simp: p_def n_def is_list_def linked_def)
    qed
  qed
  ultimately show ?thesis
    using l m d pn by (auto simp: lists_def is_list_def)
qed

end
