(* ===== verification/TimedRing.thy ===== *)
theory TimedRing
  imports KList CFS
begin

unbundle bit_operations_syntax

text \<open>
  The timed ring of \<^verbatim>\<open>smart-queue.c\<close>: 256 slots, each a list of tasks, with a bit map of the slots
  that are not empty. A task is identified with the address of its \<open>lnk\<close>, its first member.
\<close>

definition MAX_RQ :: nat where "MAX_RQ = 256"
definition RQ_MASK :: u32 where "RQ_MASK = 255"
definition MAP_LONGS :: nat where "MAP_LONGS = 4"

lemmas ring_sizes = MAX_RQ_def RQ_MASK_def MAP_LONGS_def

subsection \<open>The bit map\<close>

definition do_set_bit :: "u32 \<Rightarrow> u64 list \<Rightarrow> u64 list option" where
  "do_set_bit nr addr = (let i = unat (nr div 64) in
     if i < length addr then Some (addr[i := addr ! i OR push_bit (unat (nr mod 64)) 1]) else None)"

definition do_clear_bit :: "u32 \<Rightarrow> u64 list \<Rightarrow> u64 list option" where
  "do_clear_bit nr addr = (let i = unat (nr div 64) in
     if i < length addr then Some (addr[i := addr ! i AND NOT (push_bit (unat (nr mod 64)) 1)]) else None)"

text \<open>\<^verbatim>\<open>bsfq\<close>: the index of the lowest set bit (the instruction leaves the result open for 0).\<close>

definition do_ffs :: "u64 \<Rightarrow> nat" where
  "do_ffs w = length (takeWhile (\<lambda>i. \<not> bit w i) [0..<64])"

definition map_bit :: "u64 list \<Rightarrow> nat \<Rightarrow> bool" where
  "map_bit mp i \<longleftrightarrow> bit (mp ! (i div 64)) (i mod 64)"

lemma unat_divmod_64:
  "unat (nr div 64 :: u32) = unat nr div 64" "unat (nr mod 64 :: u32) = unat nr mod 64"
  by (simp_all add: unat_div unat_mod)

lemma do_set_bit_map:
  assumes "unat nr < MAX_RQ" "length mp = MAP_LONGS"
  shows "\<exists>mp'. do_set_bit nr mp = Some mp' \<and> length mp' = MAP_LONGS
    \<and> (\<forall>i < MAX_RQ. map_bit mp' i \<longleftrightarrow> i = unat nr \<or> map_bit mp i)"
proof -
  have lt: "unat nr div 64 < 4" using assms by (simp add: ring_sizes)
  have "map_bit (mp[unat nr div 64 := mp ! (unat nr div 64) OR push_bit (unat nr mod 64) 1]) i
      \<longleftrightarrow> i = unat nr \<or> map_bit mp i" if "i < MAX_RQ" for i
  proof (cases "i div 64 = unat nr div 64")
    case True
    moreover have "i = unat nr \<longleftrightarrow> i mod 64 = unat nr mod 64"
      using True by (metis div_mult_mod_eq)
    ultimately show ?thesis
      using lt assms(2) that by (auto simp: map_bit_def ring_sizes bit_simps)
  qed (use assms(2) in \<open>auto simp: map_bit_def\<close>)
  then show ?thesis
    using lt assms by (simp add: do_set_bit_def Let_def unat_divmod_64 ring_sizes)
qed

lemma do_clear_bit_map:
  assumes "unat nr < MAX_RQ" "length mp = MAP_LONGS"
  shows "\<exists>mp'. do_clear_bit nr mp = Some mp' \<and> length mp' = MAP_LONGS
    \<and> (\<forall>i < MAX_RQ. map_bit mp' i \<longleftrightarrow> i \<noteq> unat nr \<and> map_bit mp i)"
proof -
  have lt: "unat nr div 64 < 4" using assms by (simp add: ring_sizes)
  have "map_bit (mp[unat nr div 64 := mp ! (unat nr div 64) AND NOT (push_bit (unat nr mod 64) 1)]) i
      \<longleftrightarrow> i \<noteq> unat nr \<and> map_bit mp i" if "i < MAX_RQ" for i
  proof (cases "i div 64 = unat nr div 64")
    case True
    moreover have "i = unat nr \<longleftrightarrow> i mod 64 = unat nr mod 64"
      using True by (metis div_mult_mod_eq)
    ultimately show ?thesis
      using lt assms(2) that by (auto simp: map_bit_def ring_sizes bit_simps)
  qed (use assms(2) in \<open>auto simp: map_bit_def\<close>)
  then show ?thesis
    using lt assms by (simp add: do_clear_bit_def Let_def unat_divmod_64 ring_sizes)
qed

lemma find_append:
  "List.find P (xs @ ys) = (case List.find P xs of None \<Rightarrow> List.find P ys | Some x \<Rightarrow> Some x)"
  by (induction xs) auto

lemma find_takeWhile:
  "List.find P xs = (let n = length (takeWhile (\<lambda>i. \<not> P i) xs) in
     if n < length xs then Some (xs ! n) else None)"
  by (induction xs) (auto simp: Let_def)

text \<open>The lowest set bit of a word, and of the part of it from bit \<open>b\<close> on.\<close>

lemma find_bit:
  "List.find (bit w) [0..<64] = (if (w::u64) = 0 then None else Some (do_ffs w))"
proof (cases "w = 0")
  case False
  then obtain i where "bit w i" by (auto simp: bit_eq_iff)
  then have "i < 64" by (auto dest: bit_imp_le_length)
  with \<open>bit w i\<close> have "List.find (bit w) [0..<64] \<noteq> None" by (auto simp: find_None_iff)
  then show ?thesis
    using False find_takeWhile [of "bit w" "[0..<64]"] by (auto simp: do_ffs_def Let_def split: if_splits)
qed (simp add: find_None_iff)

lemma find_member: "List.find P xs = Some x \<Longrightarrow> x \<in> set xs \<and> P x"
  by (induction xs) (auto split: if_splits)

lemma find_False: "List.find (\<lambda>x. False) xs = None"
  by (induction xs) auto

lemma find_cong_set: "(\<And>x. x \<in> set xs \<Longrightarrow> P x = Q x) \<Longrightarrow> List.find P xs = List.find Q xs"
  by (induction xs) auto

lemma find_bit_from:
  assumes "b \<le> 64"
  shows "List.find (bit w) [b..<64] =
    (let v = w AND NOT (mask b) in if v = 0 then None else Some (do_ffs (v::u64)))"
proof -
  have "[0..<64] = [0..<b] @ [b..<64]" using upt_add_eq_append [of 0 b "64 - b"] assms by simp
  moreover have "List.find (bit (w AND NOT (mask b))) [0..<b] = None"
    by (auto simp: find_None_iff bit_simps)
  moreover have "List.find (bit (w AND NOT (mask b))) [b..<64] = List.find (bit w) [b..<64]"
    by (rule find_cong_set) (auto simp: bit_simps)
  ultimately show ?thesis
    using find_bit [of "w AND NOT (mask b)"] by (simp add: find_append Let_def)
qed

subsection \<open>The ring\<close>

record tr_rq =
  ibase :: u32
  tbase :: u64
  tsks :: u64
  rmap :: "u64 list"
  lists_mem :: lmem
  tr_t :: "u64 \<rightharpoonup> u64"

text \<open>\<open>&rq->tsks[i]\<close>; a \<^verbatim>\<open>struct list_head\<close> has 16 bytes.\<close>

definition slot :: "tr_rq \<Rightarrow> nat \<Rightarrow> u64" where
  "slot rq i = tsks rq + 16 * of_nat i"

definition tr_rqinit :: "tr_rq \<Rightarrow> tr_rq option" where
  "tr_rqinit rq = do {
     m \<leftarrow> foldM (\<lambda>i. INIT_LIST_HEAD (slot rq i)) [0..<MAX_RQ] (lists_mem rq);
     Some (rq\<lparr>ibase := 0, tbase := 0, lists_mem := m, rmap := replicate MAP_LONGS 0\<rparr>) }"

primrec rel_ffs_loop :: "nat \<Rightarrow> nat \<Rightarrow> u64 \<Rightarrow> u64 list \<Rightarrow> nat option" where
  "rel_ffs_loop 0 i m mp = Some MAX_RQ"
| "rel_ffs_loop (Suc n) i m mp =
     (if i < length mp
      then let v = mp ! i AND m in
           if v \<noteq> 0 then Some (i * 64 + do_ffs v)
           else rel_ffs_loop n ((i + 1) mod MAP_LONGS) (NOT 0) mp
      else None)"

definition rel_ffs :: "tr_rq \<Rightarrow> nat option" where
  "rel_ffs rq = (
     let i = unat (ibase rq div 64);
         b = unat (ibase rq mod 64);
         m = NOT (push_bit b 1 - 1)
     in rel_ffs_loop MAP_LONGS i m (rmap rq))"

definition tr_dequeue :: "tr_rq \<Rightarrow> (u64 \<times> tr_rq) option" where
  "tr_dequeue rq = do {
     idx \<leftarrow> rel_ffs rq;
     if idx = MAX_RQ then Some (0, rq\<lparr>tbase := 0\<rparr>)
     else do {
       h \<leftarrow> lld (lists_mem rq) (slot rq idx);
       let tsk = lh_next h;
       m \<leftarrow> list_del tsk (lists_mem rq);
       empty \<leftarrow> list_empty (slot rq idx) m;
       mp \<leftarrow> (if empty then do_clear_bit (of_nat idx) (rmap rq) else Some (rmap rq));
       let d = (of_nat idx - ibase rq) AND RQ_MASK;
       Some (tsk, rq\<lparr>lists_mem := m, rmap := mp, ibase := of_nat idx,
                     tbase := tbase rq + NS_SLOT * ucast d\<rparr>) } }"

text \<open>The slot of a task queued for time \<open>t\<close>.\<close>

definition tr_index :: "tr_rq \<Rightarrow> u64 \<Rightarrow> u32" where
  "tr_index rq t = (
     let idx = ucast ((t - tbase rq) div NS_SLOT);
         idx = (if of_nat MAX_RQ \<le> idx then of_nat MAX_RQ - 1 else idx)
     in (idx + ibase rq) AND RQ_MASK)"

definition tr_queue :: "u64 \<Rightarrow> u64 \<Rightarrow> tr_rq \<Rightarrow> tr_rq option" where
  "tr_queue tsk t rq = do {
     rq \<leftarrow> (if tbase rq = 0 then do { t0 \<leftarrow> tr_t rq tsk; Some (rq\<lparr>tbase := t0\<rparr>) } else Some rq);
     let rq = rq\<lparr>tr_t := (tr_t rq)(tsk \<mapsto> t)\<rparr>;
     let idx = tr_index rq t;
     m \<leftarrow> list_add_tail tsk (slot rq (unat idx)) (lists_mem rq);
     mp \<leftarrow> do_set_bit idx (rmap rq);
     Some (rq\<lparr>lists_mem := m, rmap := mp\<rparr>) }"

subsection \<open>The scan\<close>

text \<open>The slots of word \<open>i\<close> of the map from bit \<open>b\<close> on.\<close>

definition word_slots :: "nat \<Rightarrow> nat \<Rightarrow> nat list" where
  "word_slots i b = [64 * i + b..<64 * i + 64]"

lemma find_map: "List.find P (map f xs) = map_option f (List.find (P \<circ> f) xs)"
  by (induction xs) auto

lemma find_word:
  assumes "b < 64"
  shows "List.find (map_bit mp) (word_slots i b) =
    (let v = mp ! i AND NOT (mask b) in if v = 0 then None else Some (i * 64 + do_ffs v))"
proof -
  have "word_slots i b = map ((+) (64 * i)) [b..<64]"
    by (rule nth_equalityI) (simp_all add: word_slots_def)
  moreover have "List.find (map_bit mp \<circ> (+) (64 * i)) [b..<64] = List.find (bit (mp ! i)) [b..<64]"
    by (rule find_cong_set) (simp add: map_bit_def)
  ultimately show ?thesis
    using find_bit_from [of b "mp ! i"] assms by (simp add: find_map Let_def)
qed

text \<open>The order in which the scan looks at the slots: from \<open>ibase\<close> to the end of the map, then from
  the start of the map up to the word of \<open>ibase\<close>. The slots of that word below \<open>ibase\<close> are not
  looked at.\<close>

definition scan_order :: "nat \<Rightarrow> nat list" where
  "scan_order ib = [ib..<MAX_RQ] @ [0..<64 * (ib div 64)]"

lemma rel_ffs_loop_word:
  assumes "length mp = MAP_LONGS" "i < MAP_LONGS" "b < 64"
  shows "rel_ffs_loop (Suc n) i (NOT (mask b)) mp =
    (case List.find (map_bit mp) (word_slots i b) of Some j \<Rightarrow> Some j
     | None \<Rightarrow> rel_ffs_loop n ((i + 1) mod MAP_LONGS) (NOT 0) mp)"
  using assms by (simp add: find_word Let_def)

lemma upt_join: "a \<le> b \<Longrightarrow> b \<le> c \<Longrightarrow> [a..<b] @ [b..<c] = [a..<c]"
  using upt_add_eq_append [of a b "c - b"] by simp

lemma upt_join_append: "a \<le> b \<Longrightarrow> b \<le> c \<Longrightarrow> [a..<b] @ [b..<c] @ xs = [a..<c] @ xs"
  by (simp flip: append_assoc add: upt_join)

lemma scan_order_words:
  assumes "i < 4" "b < 64"
  shows "scan_order (64 * i + b) = word_slots i b @ word_slots ((i + 1) mod 4) 0
     @ word_slots ((i + 2) mod 4) 0 @ word_slots ((i + 3) mod 4) 0"
proof -
  have "i = 0 \<or> i = 1 \<or> i = 2 \<or> i = 3" "(64 * i + b) div 64 = i" using assms by auto
  then show ?thesis
    using assms(2)
    by (elim disjE) (simp_all add: scan_order_def word_slots_def ring_sizes upt_join upt_join_append
          del: upt_rec_numeral)
qed

lemma rel_ffs_scan:
  assumes "length (rmap q) = MAP_LONGS" "unat (ibase q) < MAX_RQ"
  shows "rel_ffs q = Some (case List.find (map_bit (rmap q)) (scan_order (unat (ibase q))) of
     Some i \<Rightarrow> i | None \<Rightarrow> MAX_RQ)"
proof -
  define i b where "i = unat (ibase q) div 64" and "b = unat (ibase q) mod 64"
  have ib: "i < 4" "b < 64" "unat (ibase q) = 64 * i + b"
    using assms(2) by (simp_all add: i_def b_def ring_sizes)
  have "NOT (mask 0 :: u64) = NOT 0" by simp
  then have step: "rel_ffs_loop (Suc n) j (NOT (mask c)) (rmap q) =
    (case List.find (map_bit (rmap q)) (word_slots j c) of Some j \<Rightarrow> Some j
     | None \<Rightarrow> rel_ffs_loop n ((j + 1) mod 4) (NOT (mask 0)) (rmap q))" if "j < 4" "c < 64" for n j c
    using rel_ffs_loop_word [OF assms(1), unfolded MAP_LONGS_def, OF that] by (simp only:)
  have mk: "push_bit c 1 - 1 = (mask c :: u64)" for c
    by (simp add: mask_eq_exp_minus_1 push_bit_eq_mult)
  have n4: "MAP_LONGS = Suc (Suc (Suc (Suc 0)))" by (simp add: MAP_LONGS_def)
  have "rel_ffs q = rel_ffs_loop (Suc (Suc (Suc (Suc 0)))) i (NOT (mask b)) (rmap q)"
    unfolding rel_ffs_def Let_def unat_divmod_64 i_def b_def by (simp only: mk n4)
  also have "\<dots> = Some (case List.find (map_bit (rmap q)) (scan_order (64 * i + b)) of
     Some i \<Rightarrow> i | None \<Rightarrow> MAX_RQ)"
    unfolding scan_order_words [OF ib(1,2)]
    by (simp only: step ib mod_less_divisor zero_less_numeral rel_ffs_loop.simps(1))
       (simp add: find_append mod_simps add.commute [of i 3] split: option.split)
  finally show ?thesis by (simp only: ib(3))
qed

subsection \<open>The abstract ring\<close>

text \<open>\<open>tr_rel q L\<close>: slot \<open>i\<close> of \<open>q\<close> holds the tasks \<open>L i\<close>, the lists share no node, and the bit
  map marks the slots that are not empty.\<close>

definition slots_apart :: "tr_rq \<Rightarrow> (nat \<Rightarrow> u64 list) \<Rightarrow> bool" where
  "slots_apart q L \<longleftrightarrow> (\<forall>i < MAX_RQ. \<forall>j < MAX_RQ. i \<noteq> j \<longrightarrow>
     set (slot q i # L i) \<inter> set (slot q j # L j) = {})"

definition tr_rel :: "tr_rq \<Rightarrow> (nat \<Rightarrow> u64 list) \<Rightarrow> bool" where
  "tr_rel q L \<longleftrightarrow> length (rmap q) = MAP_LONGS \<and> unat (ibase q) < MAX_RQ
     \<and> (\<forall>i < MAX_RQ. is_list (lists_mem q) (slot q i) (L i)) \<and> slots_apart q L
     \<and> (\<forall>i < MAX_RQ. map_bit (rmap q) i \<longleftrightarrow> L i \<noteq> [])"

definition tr_task :: "tr_rq \<Rightarrow> u64 \<Rightarrow> bool" where
  "tr_task q a \<longleftrightarrow> a \<noteq> 0 \<and> lists_mem q a \<noteq> None \<and> (\<forall>i < MAX_RQ. a \<noteq> slot q i)"

text \<open>Changing one list keeps the others.\<close>

lemma others_kept:
  assumes "slots_apart q L" "\<forall>j < MAX_RQ. is_list m (slot q j) (L j)" "i < MAX_RQ"
    and "lists m (Some m') (slot q i) xs W" "W \<subseteq> insert a (set (slot q i # L i))"
    and "\<forall>j < MAX_RQ. j \<noteq> i \<longrightarrow> a \<notin> set (slot q j # L j)" "j < MAX_RQ"
  shows "is_list m' (slot q j) ((L(i := xs)) j)"
proof (cases "j = i")
  case False
  then have "\<forall>x \<in> set (slot q j # L j). x \<notin> W"
    using assms(1,3,5-7) unfolding slots_apart_def by blast
  then have "\<forall>x \<in> set (slot q j # L j). m' x = m x" using assms(4) by (auto simp: lists_def)
  from is_list_cong [OF this] False assms(2,7) show ?thesis by simp
qed (use assms(4) in \<open>auto simp: lists_def\<close>)

lemma slots_apart_sub:
  "slots_apart q L \<Longrightarrow> i < MAX_RQ \<Longrightarrow> set xs \<subseteq> set (L i) \<Longrightarrow> slots_apart q (L(i := xs))"
  unfolding slots_apart_def by (intro allI impI) (simp; blast)

lemma unat_and_255: "unat (x AND 255 :: u32) = unat x mod 256"
proof -
  have "(255::u32) = mask 8" by (simp add: mask_eq_exp_minus_1)
  then have "x AND 255 = take_bit 8 x" by (simp add: take_bit_eq_mask)
  then show ?thesis by (simp add: unsigned_take_bit_eq take_bit_eq_mod unat_mod)
qed

lemma tr_index_less: "unat (tr_index q t) < MAX_RQ"
  by (simp add: tr_index_def Let_def ring_sizes unat_and_255)

text \<open>The slot is the distance in slots, at most the last one of the ring, from \<open>ibase\<close> on; the
  distance is cut to 32 bits before it is compared.\<close>

lemma tr_index_unat:
  assumes "unat (ibase q) < MAX_RQ"
  shows "unat (tr_index q t) =
    (min (MAX_RQ - 1) ((unat (t - tbase q) div unat NS_SLOT) mod 2 ^ 32) + unat (ibase q)) mod MAX_RQ"
proof -
  define d :: u32 where "d = ucast ((t - tbase q) div NS_SLOT)"
  have d: "unat d = (unat (t - tbase q) div unat NS_SLOT) mod 2 ^ 32"
    by (simp add: d_def unsigned_ucast_eq take_bit_eq_mod unat_div)
  let ?c = "if 256 \<le> d then 255 else d"
  have "unat ?c = min 255 (unat d)" by (auto simp: word_le_nat_alt)
  moreover have "unat (?c + ibase q) = unat ?c + unat (ibase q)"
    using assms \<open>unat ?c = _\<close> by (intro unat_add_lem [THEN iffD1]) (simp add: ring_sizes)
  ultimately show ?thesis
    by (simp add: tr_index_def Let_def ring_sizes unat_and_255 d_def [symmetric] d cong: if_cong)
qed

lemma tr_queue_rel:
  assumes rel: "tr_rel q L" and task: "tr_task q a" and new: "\<forall>i < MAX_RQ. a \<notin> set (L i)"
    and key: "tr_t q a = Some t0"
  defines "q1 \<equiv> (if tbase q = 0 then q\<lparr>tbase := t0\<rparr> else q)"
  shows "\<exists>q'. tr_queue a t q = Some q' \<and> ibase q' = ibase q \<and> tbase q' = tbase q1
    \<and> tr_t q' = (tr_t q)(a \<mapsto> t) \<and> tsks q' = tsks q \<and> dom (lists_mem q') = dom (lists_mem q)
    \<and> tr_rel q' (L(unat (tr_index q1 t) := L (unat (tr_index q1 t)) @ [a]))"
proof -
  define q2 where "q2 = q1\<lparr>tr_t := (tr_t q)(a \<mapsto> t)\<rparr>"
  define i where "i = unat (tr_index q1 t)"
  have i: "i < MAX_RQ" by (simp add: i_def tr_index_less)
  have same: "slot q2 = slot q" "lists_mem q2 = lists_mem q" "rmap q2 = rmap q" "tr_index q2 t = tr_index q1 t"
    "ibase q2 = ibase q" "tsks q2 = tsks q" "tbase q2 = tbase q1" "ibase q1 = ibase q" "tsks q1 = tsks q"
    by (auto simp: q2_def q1_def slot_def tr_index_def Let_def)
  have "is_list (lists_mem q) (slot q i) (L i)" "a \<notin> set (slot q i # L i)" "a \<noteq> 0" "lists_mem q a \<noteq> None"
    using rel task new i by (auto simp: tr_rel_def tr_task_def)
  from list_add_tail_lists [OF this] obtain m' where m':
    "list_add_tail a (slot q i) (lists_mem q) = Some m'"
    "lists (lists_mem q) (Some m') (slot q i) (L i @ [a]) (insert a (set (slot q i # L i)))"
    by (auto simp: lists_def)
  from do_set_bit_map [of "tr_index q1 t" "rmap q"] tr_index_less rel obtain mp where mp:
    "do_set_bit (tr_index q1 t) (rmap q) = Some mp" "length mp = MAP_LONGS"
    "\<forall>j < MAX_RQ. map_bit mp j \<longleftrightarrow> j = i \<or> map_bit (rmap q) j"
    by (auto simp: tr_rel_def i_def)
  let ?q = "q2\<lparr>lists_mem := m', rmap := mp\<rparr>" and ?L = "L(i := L i @ [a])"
  have "tr_queue a t q = Some ?q"
    using m'(1) mp(1) key same by (auto simp: tr_queue_def q2_def q1_def i_def Let_def)
  moreover have "tr_rel ?q ?L"
    unfolding tr_rel_def
  proof (intro conjI allI impI)
    fix j assume j: "j < MAX_RQ"
    have "is_list m' (slot q j) (?L j)"
      using rel task new by (intro others_kept [OF _ _ i m'(2) _ _ j, where a = a]) (auto simp: tr_rel_def tr_task_def)
    then show "is_list (lists_mem ?q) (slot ?q j) (?L j)" by (simp add: slot_def same)
    show "map_bit (rmap ?q) j \<longleftrightarrow> ?L j \<noteq> []" using rel mp(3) j by (simp add: tr_rel_def)
  next
    show "slots_apart ?q ?L"
      using rel task new i unfolding tr_rel_def slots_apart_def tr_task_def
      by (simp add: slot_def same) blast
  qed (use rel mp in \<open>auto simp: tr_rel_def same\<close>)
  ultimately show ?thesis
    using m'(2) by (auto simp: i_def same q2_def lists_def)
qed

lemma rel_ffs_rel:
  assumes rel: "tr_rel q L"
  shows "rel_ffs q = Some (case List.find (\<lambda>i. L i \<noteq> []) (scan_order (unat (ibase q))) of
     Some i \<Rightarrow> i | None \<Rightarrow> MAX_RQ)"
proof -
  have "List.find (map_bit (rmap q)) (scan_order (unat (ibase q)))
      = List.find (\<lambda>i. L i \<noteq> []) (scan_order (unat (ibase q)))"
    using rel by (intro find_cong_set) (auto simp: tr_rel_def scan_order_def ring_sizes)
  with rel_ffs_scan [of q] rel show ?thesis by (simp add: tr_rel_def)
qed

lemma unat_sub_255:
  "i < 256 \<Longrightarrow> unat b < 256 \<Longrightarrow> unat ((of_nat i - b :: u32) AND 255) = (i + 256 - unat b) mod 256"
proof -
  assume i: "i < 256" and b: "unat b < 256"
  have "uint (of_nat i - b :: u32) = (int i - int (unat b)) mod 2 ^ 32"
  proof -
    have "uint (of_nat i :: u32) = int i" using i by (simp add: unsigned_of_nat take_bit_eq_mod)
    then show ?thesis by (simp add: uint_word_ariths)
  qed
  then have "int (unat (of_nat i - b :: u32)) mod 256 = (int i - int (unat b)) mod 256"
    by (simp only: uint_nat) (simp add: mod_mod_cancel)
  also have "\<dots> = ((int i - int (unat b)) + 256) mod 256" by (simp only: mod_add_self2)
  also have "\<dots> = (int i + 256 - int (unat b)) mod 256" by (simp only: algebra_simps)
  also have "\<dots> = int (i + 256 - unat b) mod 256" using b by (simp add: of_nat_diff)
  finally have "int (unat (of_nat i - b :: u32) mod 256) = int ((i + 256 - unat b) mod 256)"
    by (simp only: of_nat_mod of_nat_numeral)
  then show ?thesis by (simp only: of_nat_eq_iff unat_and_255)
qed

lemma tr_dequeue_none:
  assumes "tr_rel q L" "List.find (\<lambda>i. L i \<noteq> []) (scan_order (unat (ibase q))) = None"
  shows "tr_dequeue q = Some (0, q\<lparr>tbase := 0\<rparr>)"
  using rel_ffs_rel [OF assms(1)] assms(2) by (simp add: tr_dequeue_def)

lemma tr_dequeue_some:
  assumes rel: "tr_rel q L" and i: "List.find (\<lambda>i. L i \<noteq> []) (scan_order (unat (ibase q))) = Some i"
    and Li: "L i = a # xs"
  shows "\<exists>q'. tr_dequeue q = Some (a, q') \<and> tr_rel q' (L(i := xs)) \<and> unat (ibase q') = i
    \<and> tbase q' = tbase q + NS_SLOT * of_nat ((i + MAX_RQ - unat (ibase q)) mod MAX_RQ)
    \<and> tr_t q' = tr_t q \<and> tsks q' = tsks q \<and> dom (lists_mem q') = dom (lists_mem q)"
proof -
  have lt: "i < MAX_RQ"
    using find_member [OF i] rel by (auto simp: scan_order_def tr_rel_def ring_sizes)
  then have u: "unat (of_nat i :: u32) = i" by (simp add: ring_sizes unat_of_nat)
  have l: "is_list (lists_mem q) (slot q i) (a # xs)" using rel lt Li by (auto simp: tr_rel_def)
  obtain h where h: "lld (lists_mem q) (slot q i) = Some h" "lh_next h = a" using list_first [OF l] by blast
  from list_del_lists [of "lists_mem q" "slot q i" "[]" a xs] l obtain m' where m':
    "list_del a (lists_mem q) = Some m'"
    "lists (lists_mem q) (Some m') (slot q i) xs (set (slot q i # L i))"
    by (auto simp: lists_def Li)
  have em: "list_empty (slot q i) m' = Some (xs = [])"
    using m'(2) by (auto simp: lists_def intro: list_empty_is_list)
  obtain mp where mp:
    "(if xs = [] then do_clear_bit (of_nat i) (rmap q) else Some (rmap q)) = Some mp"
    "length mp = MAP_LONGS" "\<forall>j < MAX_RQ. map_bit mp j \<longleftrightarrow> (j \<noteq> i \<or> xs \<noteq> []) \<and> map_bit (rmap q) j"
    using do_clear_bit_map [of "of_nat i" "rmap q"] rel lt u by (cases "xs = []") (auto simp: tr_rel_def)
  let ?d = "ucast ((of_nat i - ibase q) AND RQ_MASK) :: u64"
  let ?q = "q\<lparr>lists_mem := m', rmap := mp, ibase := of_nat i, tbase := tbase q + NS_SLOT * ?d\<rparr>"
  have "tr_dequeue q = Some (a, ?q)"
    using rel_ffs_rel [OF rel] i lt h m'(1) em mp(1) by (simp add: tr_dequeue_def Let_def)
  moreover have "tr_rel ?q (L(i := xs))"
    unfolding tr_rel_def
  proof (intro conjI allI impI)
    fix j assume j: "j < MAX_RQ"
    have "is_list m' (slot q j) ((L(i := xs)) j)"
      using rel lt Li by (intro others_kept [OF _ _ lt m'(2) _ _ j, where a = "slot q i"]) (auto simp: tr_rel_def slots_apart_def)
    then show "is_list (lists_mem ?q) (slot ?q j) ((L(i := xs)) j)" by (simp add: slot_def)
    show "map_bit (rmap ?q) j \<longleftrightarrow> (L(i := xs)) j \<noteq> []" using rel mp(3) j Li by (auto simp: tr_rel_def)
  next
    have "set xs \<subseteq> set (L i)" by (auto simp: Li)
    then have "slots_apart q (L(i := xs))"
      using rel lt by (intro slots_apart_sub) (auto simp: tr_rel_def)
    then show "slots_apart ?q (L(i := xs))" by (simp add: slots_apart_def slot_def)
  qed (use mp lt u in auto)
  moreover have "?d = of_nat ((i + MAX_RQ - unat (ibase q)) mod MAX_RQ)"
  proof -
    have "unat ((of_nat i - ibase q) AND 255) = (i + 256 - unat (ibase q)) mod 256"
      using unat_sub_255 [of i "ibase q"] lt rel by (simp add: ring_sizes tr_rel_def)
    then show ?thesis unfolding ring_sizes by (metis of_nat_unat)
  qed
  ultimately show ?thesis
    using m'(2) u by (auto simp: lists_def)
qed

subsection \<open>Initialisation\<close>

lemma INIT_heads:
  assumes "\<forall>i < n. h i \<noteq> 0 \<and> m (h i) \<noteq> None" "inj_on h {..<n}"
  shows "\<exists>m'. foldM (\<lambda>i. INIT_LIST_HEAD (h i)) [0..<n] m = Some m' \<and> (\<forall>i < n. is_list m' (h i) [])
    \<and> dom m' = dom m"
  using assms
proof (induction n)
  case (Suc n)
  have "inj_on h {..<n}" using Suc.prems(2) by (rule inj_on_subset) auto
  with Suc obtain m1 where m1: "foldM (\<lambda>i. INIT_LIST_HEAD (h i)) [0..<n] m = Some m1"
    "\<forall>i < n. is_list m1 (h i) []" "dom m1 = dom m" by auto
  have "m1 (h n) \<noteq> None" using Suc.prems(1) m1(3) by (auto simp: domIff [symmetric])
  with INIT_LIST_HEAD_lists [of "h n" m1] Suc.prems(1) obtain m2 where m2:
    "INIT_LIST_HEAD (h n) m1 = Some m2" "is_list m2 (h n) []" "dom m2 = dom m1"
    "\<forall>x. x \<noteq> h n \<longrightarrow> m2 x = m1 x" by (auto simp: lists_def)
  have "is_list m2 (h i) []" if "i < Suc n" for i
  proof (cases "i = n")
    case False
    then have "h i \<noteq> h n" using that Suc.prems(2) by (auto dest: inj_onD)
    with m2(4) have "is_list m2 (h i) [] = is_list m1 (h i) []" by (intro is_list_cong) auto
    then show ?thesis using m1(2) that False by simp
  qed (use m2(2) in simp)
  with m1 m2 show ?case by auto
qed simp

lemma tr_rqinit_rel:
  assumes "\<forall>i < MAX_RQ. slot q i \<noteq> 0 \<and> lists_mem q (slot q i) \<noteq> None" "inj_on (slot q) {..<MAX_RQ}"
  shows "\<exists>q'. tr_rqinit q = Some q' \<and> tr_rel q' (\<lambda>i. []) \<and> tbase q' = 0 \<and> ibase q' = 0
    \<and> tsks q' = tsks q \<and> tr_t q' = tr_t q \<and> dom (lists_mem q') = dom (lists_mem q)"
proof -
  obtain m where m: "foldM (\<lambda>i. INIT_LIST_HEAD (slot q i)) [0..<MAX_RQ] (lists_mem q) = Some m"
    "\<forall>i < MAX_RQ. is_list m (slot q i) []" "dom m = dom (lists_mem q)"
    using INIT_heads [OF assms] by blast
  let ?q = "q\<lparr>ibase := 0, tbase := 0, lists_mem := m, rmap := replicate MAP_LONGS 0\<rparr>"
  have "slot ?q = slot q" by (auto simp: slot_def)
  moreover have "\<not> map_bit (replicate MAP_LONGS 0) i" if "i < MAX_RQ" for i
    using that by (simp add: map_bit_def ring_sizes)
  ultimately have "tr_rel ?q (\<lambda>i. [])"
    using m assms(2) by (auto simp: tr_rel_def slots_apart_def ring_sizes inj_on_def)
  then show ?thesis using m by (simp add: tr_rqinit_def)
qed

subsection \<open>The benchmark\<close>

text \<open>\<open>&tasks[i]\<close>; a \<^verbatim>\<open>struct tr_task\<close> has 24 bytes.\<close>

definition tr_task_addr :: "u64 \<Rightarrow> nat \<Rightarrow> u64" where
  "tr_task_addr tasks i = tasks + 24 * of_nat i"

definition tr_fill_step :: "u64 \<Rightarrow> (nat \<Rightarrow> int) \<Rightarrow> int \<Rightarrow> nat \<Rightarrow> tr_rq \<Rightarrow> tr_rq option" where
  "tr_fill_step tasks rnd ntimes i rq = (
     let rq = rq\<lparr>tr_t := (tr_t rq)(tr_task_addr tasks i \<mapsto> 0)\<rparr> in
     tr_queue (tr_task_addr tasks i) (of_int (rnd i mod ntimes) * NS_SLOT) rq)"

definition tr_turn :: "int \<Rightarrow> tr_rq \<Rightarrow> tr_rq option" where
  "tr_turn ntimes rq = do {
     (tsk, rq) \<leftarrow> tr_dequeue rq;
     t \<leftarrow> (if tsk = 0 then None else tr_t rq tsk);
     tr_queue tsk (t + of_int (ntimes div 7) * NS_SLOT) rq }"

definition tr_test :: "u64 \<Rightarrow> (nat \<Rightarrow> int) \<Rightarrow> int \<Rightarrow> int \<Rightarrow> int \<Rightarrow> tr_rq \<Rightarrow> tr_rq option" where
  "tr_test tasks rnd ntasks ntimes loops rq = do {
     rq \<leftarrow> tr_rqinit rq;
     rq \<leftarrow> foldM (tr_fill_step tasks rnd ntimes) [0..<nat ntasks] rq;
     foldM (\<lambda>_. tr_turn ntimes) [0..<nat loops] rq }"

subsection \<open>Properties\<close>


text \<open>C7. \<^verbatim>\<open>tr_dequeue\<close> takes the oldest task out of the first slot that is not empty in
  the order of its scan, moves \<open>ibase\<close> there and \<open>tbase\<close> on by the slots passed; if the scan finds
  none it returns NULL and resets \<open>tbase\<close>. The bit map stays exact.\<close>

theorem tr_dequeue_refines:
  assumes "tr_rel q L"
  shows "case List.find (\<lambda>i. L i \<noteq> []) ([unat (ibase q)..<256] @ [0..<64 * (unat (ibase q) div 64)]) of
      None \<Rightarrow> tr_dequeue q = Some (0, q\<lparr>tbase := 0\<rparr>)
    | Some i \<Rightarrow> (\<exists>q'. tr_dequeue q = Some (hd (L i), q') \<and> tr_rel q' (L(i := tl (L i)))
        \<and> unat (ibase q') = i
        \<and> tbase q' = tbase q + NS_SLOT * of_nat ((i + 256 - unat (ibase q)) mod 256))"
proof (cases "List.find (\<lambda>i. L i \<noteq> []) (scan_order (unat (ibase q)))")
  case None
  with tr_dequeue_none [OF assms None] show ?thesis by (simp add: scan_order_def MAX_RQ_def)
next
  case (Some i)
  then have "L i = hd (L i) # tl (L i)" using find_member [OF Some] by simp
  from tr_dequeue_some [OF assms Some this] Some show ?thesis
    by (auto simp: scan_order_def MAX_RQ_def)
qed

text \<open>C32. The scan never comes back to the slots of its first map word below \<open>ibase\<close>: when
  the queued tasks are all there, \<^verbatim>\<open>tr_dequeue\<close> returns NULL from a ring that is not empty.\<close>

theorem tr_dequeue_misses:
  assumes "tr_rel q L" "L i \<noteq> []" "64 * (unat (ibase q) div 64) \<le> i" "i < unat (ibase q)"
    and "\<forall>j < 256. j \<noteq> i \<longrightarrow> L j = []"
  shows "tr_dequeue q = Some (0, q\<lparr>tbase := 0\<rparr>)"
proof (rule tr_dequeue_none [OF assms(1)])
  have "unat (ibase q) < 256" using assms(1) by (simp add: tr_rel_def MAX_RQ_def)
  then show "List.find (\<lambda>i. L i \<noteq> []) (scan_order (unat (ibase q))) = None"
    using assms(3-5) by (auto simp: find_None_iff scan_order_def MAX_RQ_def)
qed

text \<open>A time \<open>2\<^sup>3\<^sup>2\<close> slots ahead goes to the current slot, not to the last one: the slot
  distance is cut to 32 bits before the check against the size of the ring.\<close>

theorem tr_index_cut:
  assumes "unat (ibase q) < 256"
  shows "unat (tr_index q (tbase q + 2 ^ 32 * NS_SLOT)) = unat (ibase q)"
proof -
  have "unat (2 ^ 32 * NS_SLOT) div unat NS_SLOT = 2 ^ 32"
    by (simp add: NS_SLOT_def)
  then show ?thesis
    using tr_index_unat [of q "tbase q + 2 ^ 32 * NS_SLOT"] assms by (simp add: MAX_RQ_def)
qed

text \<open>\<^verbatim>\<open>tr_rqinit\<close> ends in an empty ring, from which \<^verbatim>\<open>tr_dequeue\<close> returns NULL.\<close>

theorem tr_rqinit_empty:
  assumes "\<forall>i < MAX_RQ. slot q i \<noteq> 0 \<and> lists_mem q (slot q i) \<noteq> None" "inj_on (slot q) {..<MAX_RQ}"
  shows "\<exists>q'. tr_rqinit q = Some q' \<and> tr_rel q' (\<lambda>i. []) \<and> tr_dequeue q' = Some (0, q')"
proof -
  obtain q' where "tr_rqinit q = Some q'" "tr_rel q' (\<lambda>i. [])" "tbase q' = 0"
    using tr_rqinit_rel [OF assms] by blast
  moreover from this have "tr_dequeue q' = Some (0, q'\<lparr>tbase := 0\<rparr>)"
    by (intro tr_dequeue_none [of _ "\<lambda>i. []"]) (auto simp: find_None_iff)
  ultimately show ?thesis by (cases q') simp
qed

subsection \<open>Witnesses\<close>

text \<open>An empty ring at address \<open>0x10000\<close>, in a memory where every list head is empty.\<close>

definition demo_ring :: "u32 \<Rightarrow> u64 \<Rightarrow> tr_rq" where
  "demo_ring ib tb = \<lparr>ibase = ib, tbase = tb, tsks = 0x10000, rmap = [0, 0, 0, 0],
     lists_mem = (\<lambda>a. Some \<lparr>lh_next = a, lh_prev = a\<rparr>), tr_t = (\<lambda>a. Some 0)\<rparr>"

lemma demo_slot: "i < 256 \<Longrightarrow> unat (slot (demo_ring ib tb) i) = 0x10000 + 16 * i"
proof -
  assume i: "i < 256"
  have "slot (demo_ring ib tb) i = of_nat (0x10000 + 16 * i)" by (simp add: slot_def demo_ring_def)
  then show ?thesis using i by (simp only: unat_of_nat) simp
qed

lemma demo_slot_inj: "i < 256 \<Longrightarrow> j < 256 \<Longrightarrow> slot (demo_ring ib tb) i = slot (demo_ring ib tb) j \<Longrightarrow> i = j"
proof -
  assume i: "i < 256" and j: "j < 256" and eq: "slot (demo_ring ib tb) i = slot (demo_ring ib tb) j"
  have "(0x10000::nat) + 16 * i = 0x10000 + 16 * j"
    using demo_slot [OF i, of ib tb] demo_slot [OF j, of ib tb] unfolding eq by (rule trans [OF sym])
  then show ?thesis by linarith
qed

lemma demo_slot_other: "i < 256 \<Longrightarrow> unat a < 0x10000 \<Longrightarrow> a \<noteq> slot (demo_ring ib tb) i"
proof
  assume "i < 256" "unat a < 0x10000" "a = slot (demo_ring ib tb) i"
  then have "unat a = 0x10000 + 16 * i" by (simp only: demo_slot)
  with \<open>unat a < 0x10000\<close> show False by linarith
qed

lemma demo_ring_rel: "unat ib < 256 \<Longrightarrow> tr_rel (demo_ring ib tb) (\<lambda>i. [])"
  using demo_slot_other [of _ 0 ib tb] demo_slot_inj [of _ _ ib tb]
  by (fastforce simp: tr_rel_def ring_sizes slots_apart_def is_list_def linked_def demo_ring_def
      map_bit_def nth_Cons' slot_def)

lemma demo_ring_task: "tr_task (demo_ring ib tb) 0x100"
  using demo_slot_other [of _ "0x100" ib tb] by (auto simp: tr_task_def ring_sizes demo_ring_def)


theorem tr_dequeue_refines_witness:
  "tr_dequeue (demo_ring 3 7) = Some (0, (demo_ring 3 7)\<lparr>tbase := 0\<rparr>)"
  using tr_dequeue_refines [OF demo_ring_rel, of 3 7] by (simp add: find_False)

text \<open>A task 255 slots ahead of a ring that stands at slot 10 is queued in slot 9 and not found.\<close>

theorem tr_dequeue_misses_witness:
  "\<exists>q'. tr_queue 0x100 (7 + 255 * NS_SLOT) (demo_ring 10 7) = Some q'
     \<and> tr_rel q' ((\<lambda>i. [])(9 := [0x100])) \<and> tr_dequeue q' = Some (0, q'\<lparr>tbase := 0\<rparr>)"
proof -
  obtain q' where q': "tr_queue 0x100 (7 + 255 * NS_SLOT) (demo_ring 10 7) = Some q'"
    "ibase q' = 10" "tr_rel q' ((\<lambda>i. [])(9 := [0x100]))"
    using tr_queue_rel [OF demo_ring_rel demo_ring_task, of 10 7 0 "7 + 255 * NS_SLOT"]
      tr_index_unat [of "demo_ring 10 7" "7 + 255 * NS_SLOT"]
    by (auto simp: demo_ring_def NS_SLOT_def ring_sizes)
  with tr_dequeue_misses [OF q'(3), of 9] show ?thesis by simp
qed

end
