(* ===== verification/CStr.thy ===== *)
theory CStr
  imports Prelude
begin

unbundle bit_operations_syntax

text \<open>
  The part of \<^verbatim>\<open>ctype.h\<close>, \<^verbatim>\<open>string.h\<close> and \<^verbatim>\<open>stdio.h\<close> the sources use, in the C locale, on byte
  strings without their terminating NUL.
\<close>

type_synonym cstr = "u8 list"

definition bytes :: "string \<Rightarrow> cstr" where
  "bytes s = map of_char s"

definition isdigit8 :: "u8 \<Rightarrow> bool" where
  "isdigit8 c \<longleftrightarrow> 48 \<le> c \<and> c \<le> 57"

definition islower8 :: "u8 \<Rightarrow> bool" where
  "islower8 c \<longleftrightarrow> 97 \<le> c \<and> c \<le> 122"

definition isupper8 :: "u8 \<Rightarrow> bool" where
  "isupper8 c \<longleftrightarrow> 65 \<le> c \<and> c \<le> 90"

definition isalpha8 :: "u8 \<Rightarrow> bool" where
  "isalpha8 c \<longleftrightarrow> islower8 c \<or> isupper8 c"

definition isalnum8 :: "u8 \<Rightarrow> bool" where
  "isalnum8 c \<longleftrightarrow> isalpha8 c \<or> isdigit8 c"

definition isprint8 :: "u8 \<Rightarrow> bool" where
  "isprint8 c \<longleftrightarrow> 32 \<le> c \<and> c \<le> 126"

definition isspace8 :: "u8 \<Rightarrow> bool" where
  "isspace8 c \<longleftrightarrow> c = 32 \<or> 9 \<le> c \<and> c \<le> 13"

definition toupper8 :: "u8 \<Rightarrow> u8" where
  "toupper8 c = (if islower8 c then c - 32 else c)"

text \<open>\<open>strncasecmp(s, lit, strlen(lit)) == 0\<close>\<close>

definition ci_prefix :: "cstr \<Rightarrow> cstr \<Rightarrow> bool" where
  "ci_prefix lit s \<longleftrightarrow> map toupper8 (take (length lit) s) = map toupper8 lit"

text \<open>The C string at the start of a buffer.\<close>

definition c_string :: "u8 list \<Rightarrow> cstr" where
  "c_string bs = takeWhile (\<lambda>c. c \<noteq> 0) bs"

text \<open>\<open>strcasecmp(s, t) == 0\<close>\<close>

definition ci_eq :: "cstr \<Rightarrow> cstr \<Rightarrow> bool" where
  "ci_eq s t \<longleftrightarrow> map toupper8 s = map toupper8 t"

text \<open>\<open>strtok_r\<close>: the next token and where the search goes on, \<open>None\<close> for NULL.\<close>

definition strtok_r :: "cstr \<Rightarrow> cstr \<Rightarrow> (cstr \<times> cstr) option" where
  "strtok_r delims s = (
     let s = dropWhile (\<lambda>c. c \<in> set delims) s in
     if s = [] then None
     else Some (takeWhile (\<lambda>c. c \<notin> set delims) s, drop 1 (dropWhile (\<lambda>c. c \<notin> set delims) s)))"

lemma strtok_r_token:
  assumes "tok \<noteq> []" "\<forall>c \<in> set tok. c \<notin> set delims" "rest = [] \<or> hd rest \<in> set delims"
  shows "strtok_r delims (tok @ rest) = Some (tok, drop 1 rest)"
proof -
  obtain c cs where tok: "tok = c # cs" using assms(1) by (cases tok) auto
  then have d: "dropWhile (\<lambda>c. c \<in> set delims) (tok @ rest) = tok @ rest" using assms(2) by simp
  have "takeWhile (\<lambda>c. c \<notin> set delims) (tok @ rest) = tok" "dropWhile (\<lambda>c. c \<notin> set delims) (tok @ rest) = rest"
    using assms(2,3) by (cases rest; auto simp: takeWhile_append dropWhile_append)+
  then show ?thesis using tok unfolding strtok_r_def d by simp
qed

subsection \<open>Hexadecimal\<close>

definition hex_digit :: "nat \<Rightarrow> u8" where
  "hex_digit d = (if d < 10 then 48 + of_nat d else 87 + of_nat d)"

text \<open>\<open>%02x\<close> of an unsigned char\<close>

definition hex02 :: "u8 \<Rightarrow> cstr" where
  "hex02 b = [hex_digit (unat b div 16), hex_digit (unat b mod 16)]"

definition hex_val :: "u8 \<Rightarrow> nat option" where
  "hex_val c = (if isdigit8 c then Some (unat c - 48)
     else if 97 \<le> c \<and> c \<le> 102 then Some (unat c - 87)
     else if 65 \<le> c \<and> c \<le> 70 then Some (unat c - 55) else None)"

lemma hex_val_digit: "d < 16 \<Longrightarrow> hex_val (hex_digit d) = Some d"
  by (cases "d < 10")
     (auto simp: hex_val_def hex_digit_def isdigit8_def word_le_nat_alt unat_word_ariths unat_of_nat)

text \<open>\<open>%d\<close> of a number that is not negative\<close>

fun dec_digits :: "nat \<Rightarrow> cstr" where
  "dec_digits n = (if n < 10 then [48 + of_nat n] else dec_digits (n div 10) @ [48 + of_nat (n mod 10)])"

declare dec_digits.simps [simp del]

definition fmt_d :: "int \<Rightarrow> cstr" where
  "fmt_d n = (if n < 0 then 45 # dec_digits (nat (- n)) else dec_digits (nat n))"

text \<open>\<open>%llx\<close>\<close>

fun hex_digits :: "nat \<Rightarrow> cstr" where
  "hex_digits n = (if n < 16 then [hex_digit n] else hex_digits (n div 16) @ [hex_digit (n mod 16)])"

declare hex_digits.simps [simp del]

subsection \<open>Numbers\<close>

text \<open>\<open>strtol\<close>: white space, a sign, for base 0 or 16 an optional \<open>0x\<close>, then the digits of the base;
  a value out of the range of a \<^verbatim>\<open>long\<close> gives its nearest end. \<open>atoi\<close> cuts the result to an \<^verbatim>\<open>int\<close>.\<close>

definition digit_in :: "nat \<Rightarrow> u8 \<Rightarrow> nat option" where
  "digit_in base c = (case hex_val c of Some d \<Rightarrow> if d < base then Some d else None | None \<Rightarrow> None)"

fun digits_val :: "nat \<Rightarrow> nat \<Rightarrow> cstr \<Rightarrow> nat" where
  "digits_val base acc [] = acc"
| "digits_val base acc (c # cs) = (case digit_in base c of
      Some d \<Rightarrow> digits_val base (acc * base + d) cs | None \<Rightarrow> acc)"

fun hex_prefix :: "cstr \<Rightarrow> bool" where
  "hex_prefix (z # x # c # _) = (z = 48 \<and> (x = 120 \<or> x = 88) \<and> digit_in 16 c \<noteq> None)"
| "hex_prefix _ = False"

fun strtol_sign :: "cstr \<Rightarrow> int \<times> cstr" where
  "strtol_sign (c # cs) = (if c = 45 then (-1, cs) else if c = 43 then (1, cs) else (1, c # cs))"
| "strtol_sign [] = (1, [])"

definition strtol_digits :: "nat \<Rightarrow> cstr \<Rightarrow> nat" where
  "strtol_digits base s = (
     if (base = 0 \<or> base = 16) \<and> hex_prefix s then digits_val 16 0 (drop 2 s)
     else if base = 0 then digits_val (if take 1 s = [48] then 8 else 10) 0 s
     else digits_val base 0 s)"

definition strtol :: "nat \<Rightarrow> cstr \<Rightarrow> int" where
  "strtol base s = (
     let (sg, s) = strtol_sign (dropWhile isspace8 s) in
     max (- (2 ^ 63)) (min (2 ^ 63 - 1) (sg * int (strtol_digits base s))))"

text \<open>\<open>strtoull\<close>: a sign negates the word; a value that does not fit gives \<^verbatim>\<open>ULLONG_MAX\<close>.\<close>

definition strtoull :: "nat \<Rightarrow> cstr \<Rightarrow> u64" where
  "strtoull base s = (
     let (sg, s) = strtol_sign (dropWhile isspace8 s); v = strtol_digits base s in
     if v < 2 ^ 64 then of_int (sg * int v) else -1)"

definition atol :: "cstr \<Rightarrow> int" where
  "atol s = strtol 10 s"

definition atoi :: "cstr \<Rightarrow> int" where
  "atoi s = sint (of_int (strtol 10 s) :: u32)"

lemma digit_in_dec: "d < 10 \<Longrightarrow> digit_in 10 (48 + of_nat d) = Some d"
  using hex_val_digit [of d] by (simp add: digit_in_def hex_digit_def)

lemma digits_val_append:
  "\<forall>c \<in> set xs. digit_in base c \<noteq> None \<Longrightarrow> digits_val base a (xs @ ys) = digits_val base (digits_val base a xs) ys"
  by (induction xs arbitrary: a) auto

lemma dec_digits_digits: "\<forall>c \<in> set (dec_digits n). digit_in 10 c \<noteq> None"
proof (induction n rule: dec_digits.induct)
  case (1 n)
  then show ?case by (cases "n < 10") (subst dec_digits.simps; force simp: digit_in_dec)+
qed

lemma digits_val_dec: "digits_val 10 0 (dec_digits n) = n"
proof (induction n rule: dec_digits.induct)
  case (1 n)
  show ?case
  proof (cases "n < 10")
    case True
    then show ?thesis by (subst dec_digits.simps) (simp add: digit_in_dec)
  next
    case False
    then show ?thesis
      using 1 digits_val_append [OF dec_digits_digits [of "n div 10"], of 0 "[48 + of_nat (n mod 10)]"]
      by (subst dec_digits.simps) (simp add: digit_in_dec)
  qed
qed

subsection \<open>Streams\<close>

text \<open>The pieces that \<^verbatim>\<open>fgets(lnbuf, n, file)\<close> reads one after the other: up to a newline, at most \<open>n - 1\<close> bytes.\<close>

definition fgets_size :: "nat \<Rightarrow> u8 list \<Rightarrow> nat" where
  "fgets_size n inp = min (n - 1) (length (takeWhile (\<lambda>c. c \<noteq> 10) inp) + 1)"

function fgets_all :: "nat \<Rightarrow> u8 list \<Rightarrow> u8 list list" where
  "fgets_all n inp = (if inp = [] \<or> n < 2 then []
     else take (fgets_size n inp) inp # fgets_all n (drop (fgets_size n inp) inp))"
  by pat_completeness auto
termination
  by (relation "measure (\<lambda>(n, inp). length inp)") (auto simp: fgets_size_def)

declare fgets_all.simps [simp del]

lemma concat_fgets_all: "2 \<le> n \<Longrightarrow> concat (fgets_all n inp) = inp"
proof (induction n inp rule: fgets_all.induct)
  case (1 n inp)
  then show ?case by (subst fgets_all.simps) auto
qed

lemma fgets_all_set: "c \<in> set (fgets_all n inp) \<Longrightarrow> set c \<subseteq> set inp"
proof (induction n inp rule: fgets_all.induct)
  case (1 n inp)
  then show ?case
    by (subst (asm) (2) fgets_all.simps) (auto split: if_splits dest!: in_set_takeD in_set_dropD)
qed

end
