(* ===== verification/SmartMain.thy ===== *)
theory SmartMain
  imports TimedRing CStr
begin

text \<open>\<^verbatim>\<open>main\<close> of \<^verbatim>\<open>smart-queue.c\<close>: its options and the two benchmarks on the same numbers.\<close>

text \<open>The number of tasks and of turns; an option without its value at the end is ignored, as is anything else.\<close>

fun sq_options :: "cstr list \<Rightarrow> int \<times> int \<Rightarrow> int \<times> int" where
  "sq_options [] opt = opt"
| "sq_options (a # as) (ntasks, loops) = (
     if a = bytes ''-n'' then (case as of [] \<Rightarrow> (ntasks, loops) | v # as \<Rightarrow> sq_options as (atoi v, loops))
     else if a = bytes ''-l'' then (case as of [] \<Rightarrow> (ntasks, loops) | v # as \<Rightarrow> sq_options as (ntasks, atoi v))
     else sq_options as (ntasks, loops))"

text \<open>The exit status and the queues left by the benchmarks; \<open>ct\<close> and \<open>tt\<close> are the blocks of tasks, \<open>cr\<close> and \<open>tr\<close> the random numbers.\<close>

definition smart_queue_main ::
  "u64 \<Rightarrow> (nat \<Rightarrow> int) \<Rightarrow> cfs_rq \<Rightarrow> u64 \<Rightarrow> (nat \<Rightarrow> int) \<Rightarrow> tr_rq \<Rightarrow> cstr list \<Rightarrow> (int \<times> cfs_rq \<times> tr_rq) option" where
  "smart_queue_main ct cr cq tt tr tq args = (
     let (ntasks, loops) = sq_options args (128, 200000) in do {
       cq \<leftarrow> cfs_test ct cr ntasks (int MAX_RQ) loops cq;
       tq \<leftarrow> tr_test tt tr ntasks (int MAX_RQ) loops tq;
       Some (0, cq, tq) })"

text \<open>Without options the first benchmark has 128 tasks and ends with the queue that two hundred thousand turns of a sorted list give.\<close>

lemma cfs_benchmark_default:
  assumes "\<forall>i < 128. cfs_task cq (cfs_task_addr ct i)" "inj_on (cfs_task_addr ct) {..<128}"
    and "smart_queue_main ct cr cq tt tr tq [] = Some (r, cq', tq')"
  shows "r = 0 \<and> cfs_rel cq' ((pq_turn 256 ^^ 200000) (sort_key snd (cfs_initial ct cr 256 [0..<128])))"
proof -
  have "0 < (128 :: int)" "\<forall>i < nat 128. cfs_task cq (cfs_task_addr ct i)" "inj_on (cfs_task_addr ct) {..<nat 128}" using assms(1,2) by simp_all
  from cfs_test_rel [OF this, of cr 256 200000] assms(3) show ?thesis
    by (auto simp: smart_queue_main_def MAX_RQ_def Option.bind_eq_Some_conv)
qed

text \<open>With no tasks the program faults in its first turn: a \<^verbatim>\<open>-n 0\<close>, and also a \<^verbatim>\<open>-n\<close> whose value is no number.\<close>

lemma smart_queue_no_task:
  assumes "sq_options args (128, 200000) = (ntasks, loops)" "ntasks \<le> 0" "0 < loops"
  shows "smart_queue_main ct cr cq tt tr tq args = None"
  using assms cfs_test_no_task by (simp add: smart_queue_main_def)

lemma smart_queue_no_number: "smart_queue_main ct cr cq tt tr tq [bytes ''-n'', bytes ''x''] = None"
proof -
  have "sq_options [bytes ''-n'', bytes ''x''] (128, 200000) = (0, 200000)" by code_simp
  then show ?thesis by (rule smart_queue_no_task) simp_all
qed

end
