(* ===== verification/XGsm.thy ===== *)
theory XGsm
  imports CStr
begin

unbundle bit_operations_syntax

text \<open>
  The SMS encoder of \<^verbatim>\<open>xgsm.c\<close>: phone numbers, 7-bit packing, validity, PDU and its hexadecimal
  form. \<open>alloc n\<close> says whether \<^verbatim>\<open>malloc(n)\<close> succeeds. A function that can return NULL has an
  option as its value; where the code can also fault there is a second, outer option.
\<close>

definition xgsm_swap_nibble :: "int \<Rightarrow> int" where
  "xgsm_swap_nibble v = push_bit 4 (v mod 10) OR (v div 10)"

subsection \<open>Phone numbers\<close>

fun code_number_loop :: "cstr \<Rightarrow> u8 list option" where
  "code_number_loop [] = Some []"
| "code_number_loop [c] =
     (if isdigit8 c then Some [(c - 48) OR 0xf0] else None)"
| "code_number_loop (c # d # nbr) =
     (if isdigit8 c \<and> isdigit8 d
      then map_option ((#) ((c - 48) OR push_bit 4 (d - 48))) (code_number_loop nbr)
      else None)"

definition xgsm_code_number :: "(nat \<Rightarrow> bool) \<Rightarrow> cstr \<Rightarrow> u8 list option" where
  "xgsm_code_number alloc nbr =
     (if alloc (length nbr div 2 + 2) then code_number_loop nbr else None)"

text \<open>What the network reads back: two digits an octet, the low half first, \<open>F\<close> as filler.\<close>

fun read_number :: "u8 list \<Rightarrow> cstr" where
  "read_number [] = []"
| "read_number (b # bs) =
     (if drop_bit 4 b = 0xf then [48 + (b AND 0xf)]
      else (48 + (b AND 0xf)) # (48 + drop_bit 4 b) # read_number bs)"

lemma digit_cases:
  assumes "isdigit8 c"
  obtains d where "d < 10" "c = 48 + of_nat d"
proof -
  have "unat c - 48 < 10" "c = 48 + of_nat (unat c - 48)"
    using assms by (auto simp: isdigit8_def word_le_nat_alt word_unat_eq_iff unat_word_ariths unat_of_nat)
  then show ?thesis using that by blast
qed

lemma digit_less: "isdigit8 c \<Longrightarrow> unat (c - 48) < 10"
  by (erule digit_cases) (simp add: unat_of_nat)

lemma nibbles:
  assumes "unat x < 16" "unat (y::u8) < 16"
  shows "(x OR push_bit 4 y) AND 0xf = x" "drop_bit 4 (x OR push_bit 4 y) = y"
proof -
  have x: "bit x n \<Longrightarrow> n < 4" and y: "bit y n \<Longrightarrow> n < 4" for n
    using assms bit_less [of x 4 n] bit_less [of y 4 n] by auto
  have m: "(0xf::u8) = mask 4" by (simp add: mask_eq_exp_minus_1)
  show "(x OR push_bit 4 y) AND 0xf = x"
    unfolding m using x by (intro bit_word_eqI) (auto simp: bit_simps)
  show "drop_bit 4 (x OR push_bit 4 y) = y"
    using x y by (intro bit_word_eqI) (auto simp: bit_simps dest: x)
qed

lemma code_number_read:
  "code_number_loop nbr = Some bs \<Longrightarrow> read_number bs = nbr \<and> length bs = (length nbr + 1) div 2"
proof (induction nbr arbitrary: bs rule: code_number_loop.induct)
  case (2 c)
  then have "isdigit8 c" "bs = [(c - 48) OR push_bit 4 0xf]" by (auto split: if_splits)
  with nibbles [of "c - 48" "0xf"] digit_less [of c] show ?case by simp
next
  case (3 c d nbr)
  then obtain bs' where bs: "isdigit8 c" "isdigit8 d" "code_number_loop nbr = Some bs'"
    "bs = ((c - 48) OR push_bit 4 (d - 48)) # bs'" by (auto split: if_splits)
  note n = nibbles [of "c - 48" "d - 48"] and lt = digit_less [OF bs(1)] digit_less [OF bs(2)]
  have "d - 48 \<noteq> 0xf" using lt(2) by auto
  with 3 bs n lt show ?case by simp
qed simp

lemma code_number_ok: "code_number_loop nbr \<noteq> None \<longleftrightarrow> list_all isdigit8 nbr"
  by (induction nbr rule: code_number_loop.induct) auto

subsection \<open>7-bit packing\<close>

text \<open>The loop over the characters from index \<open>i\<close> on; \<open>data[i + 1]\<close> is the terminating NUL at the
  last character.\<close>

fun pack7_loop :: "nat \<Rightarrow> cstr \<Rightarrow> u8 list option" where
  "pack7_loop i [] = Some []"
| "pack7_loop i (d # ds) =
     (if d AND 0x80 \<noteq> 0 then None
      else let s = i mod 8; e = (case ds of [] \<Rightarrow> 0 | x # _ \<Rightarrow> x) in
        if s < 7
        then map_option ((#) (drop_bit s d OR push_bit (7 - s) (e AND (push_bit (s + 1) 1 - 1))))
               (pack7_loop (i + 1) ds)
        else pack7_loop (i + 1) ds)"

definition xgsm_pack7 :: "(nat \<Rightarrow> bool) \<Rightarrow> cstr \<Rightarrow> u8 list option" where
  "xgsm_pack7 alloc data = (if alloc (length data + 1) then pack7_loop 0 data else None)"

text \<open>The packed form by its meaning: the bits of the characters, seven each and lowest first, cut
  into octets, with zeros after the last.\<close>

definition septet_bit :: "cstr \<Rightarrow> nat \<Rightarrow> bool" where
  "septet_bit data p \<longleftrightarrow> p div 7 < length data \<and> bit (data ! (p div 7)) (p mod 7)"

definition pack7_spec :: "cstr \<Rightarrow> u8 list" where
  "pack7_spec data = map (\<lambda>o'. horner_sum of_bool 2 (map (\<lambda>j. septet_bit data (8 * o' + j)) [0..<8]))
     [0..<(7 * length data + 7) div 8]"

definition seven_bit :: "cstr \<Rightarrow> bool" where
  "seven_bit data \<longleftrightarrow> list_all (\<lambda>d. d AND 0x80 = 0) data"

lemma top_bit: "(d::u8) AND 0x80 = 0 \<longleftrightarrow> \<not> bit d 7"
proof -
  have m: "(0x80::u8) = push_bit 7 1" by (simp add: push_bit_eq_mult)
  have "bit (0x80::u8) n \<longleftrightarrow> n = 7" for n
    unfolding m by (subst bit_push_bit_iff) (auto simp: bit_1_iff)
  then have "bit (d AND 0x80) n \<longleftrightarrow> n = 7 \<and> bit d 7" for n by (auto simp: bit_and_iff)
  then show ?thesis by (metis bit_0_eq bot_apply bot_bool_def bit_word_eqI)
qed

definition octet7 :: "cstr \<Rightarrow> nat \<Rightarrow> u8" where
  "octet7 data i = drop_bit (i mod 8) (data ! i)
     OR push_bit (7 - i mod 8) ((if i + 1 < length data then data ! (i + 1) else 0) AND mask (i mod 8 + 1))"

lemma pack7_loop_octets:
  "i \<le> length data \<Longrightarrow> pack7_loop i (drop i data) =
     (if seven_bit (drop i data)
      then Some (map (octet7 data) (filter (\<lambda>i. i mod 8 < 7) [i..<length data])) else None)"
proof (induction "length data - i" arbitrary: i)
  case (Suc n)
  then have i: "i < length data" by simp
  then have d: "drop i data = data ! i # drop (Suc i) data" by (rule Cons_nth_drop_Suc [symmetric])
  have e: "(case drop (Suc i) data of [] \<Rightarrow> 0 | x # xs \<Rightarrow> x)
      = (if i + 1 < length data then data ! (i + 1) else 0)"
    by (cases "i + 1 < length data") (simp_all add: Cons_nth_drop_Suc [symmetric])
  have m: "push_bit (s + 1) 1 - 1 = (mask (s + 1) :: u8)" for s
    by (simp add: mask_eq_exp_minus_1 push_bit_eq_mult)
  have IH: "pack7_loop (Suc i) (drop (Suc i) data) = (if seven_bit (drop (Suc i) data)
      then Some (map (octet7 data) (filter (\<lambda>i. i mod 8 < 7) [Suc i..<length data])) else None)"
    using Suc by (intro Suc.hyps) auto
  have u: "[i..<length data] = i # [Suc i..<length data]" using i by (rule upt_conv_Cons)
  show ?case
    unfolding d pack7_loop.simps Let_def e m u using IH
    by (auto simp: seven_bit_def octet7_def)
qed (simp add: seven_bit_def)

text \<open>Octet \<open>o\<close> comes from character \<open>o + o div 7\<close>: every eighth character is used up by its
  predecessors.\<close>

lemma packed_indices:
  "filter (\<lambda>i. i mod 8 < 7) [0..<n] = map (\<lambda>o'. o' + o' div 7) [0..<(7 * n + 7) div 8]"
proof (induction n)
  case (Suc n)
  obtain a s where n: "n = 8 * a + s" "s < 8" by (metis mod_less_divisor mult_div_mod_eq zero_less_numeral)
  show ?case
  proof (cases "s = 7")
    case True
    have "(7 * Suc n + 7) div 8 = (7 * n + 7) div 8" "n mod 8 = 7"
      unfolding n True by (simp_all add: div_nat_eqI)
    with Suc show ?thesis by simp
  next
    case False
    with n have c: "(7 * n + 7) div 8 = 7 * a + s" "(7 * Suc n + 7) div 8 = Suc (7 * a + s)"
      by (auto intro!: div_nat_eqI)
    show ?thesis using False n Suc unfolding c by simp
  qed
qed simp

lemma bit_merge7:
  assumes "\<not> bit (d::u8) 7" "s < 7" "j < 8"
  shows "bit (drop_bit s d OR push_bit (7 - s) (e AND mask (s + 1))) j \<longleftrightarrow>
    (if s + j < 7 then bit d (s + j) else bit e (s + j - 7))"
proof -
  have hi: "\<not> bit d n" if "7 \<le> n" for n
    using that assms(1) bit_imp_le_length [of d n] by (cases "n = 7") auto
  show ?thesis
  proof (cases "s + j < 7")
    case True
    then have "\<not> 7 - s \<le> j" by simp
    with True show ?thesis by (simp add: bit_or_iff bit_and_iff bit_push_bit_iff bit_drop_bit_eq)
  next
    case False
    then have "j - (7 - s) = s + j - 7" "7 - s \<le> j" "s + j - 7 < s + 1" "s + j - 7 < 8"
      using assms(2,3) by auto
    with False hi [of "s + j"] assms(3) show ?thesis
      by (simp add: bit_or_iff bit_push_bit_iff bit_drop_bit_eq bit_and_iff bit_mask_iff)
  qed
qed

lemma bit_octet7:
  assumes "\<not> bit (data ! i) 7" "i < length data" "i mod 8 < 7" "j < 8"
  shows "bit (octet7 data i) j \<longleftrightarrow>
    (if i mod 8 + j < 7 then bit (data ! i) (i mod 8 + j)
     else i + 1 < length data \<and> bit (data ! (i + 1)) (i mod 8 + j - 7))"
  unfolding octet7_def bit_merge7 [OF assms(1,3,4)] by simp

lemma bit_octet7_septet:
  assumes "seven_bit data" "i = o' + o' div 7" "i < length data" "j < 8"
  shows "bit (octet7 data i) j \<longleftrightarrow> septet_bit data (8 * o' + j)"
proof -
  obtain a s where o: "o' = 7 * a + s" "s < 7"
    by (metis mod_less_divisor mult_div_mod_eq zero_less_numeral)
  then have i: "i = 8 * a + s" using assms(2) by simp
  with o have im: "i mod 8 = s" "i mod 8 < 7" by simp_all
  have p: "8 * o' + j = 7 * i + (i mod 8 + j)" using im(1) o i by simp
  have "\<not> bit (data ! i) 7"
    using assms(1,3) by (simp add: seven_bit_def list_all_length top_bit)
  note b = bit_octet7 [OF this assms(3) im(2) assms(4)]
  show ?thesis
  proof (cases "i mod 8 + j < 7")
    case True
    then have "(8 * o' + j) div 7 = i" "(8 * o' + j) mod 7 = i mod 8 + j"
      unfolding p by simp_all
    then show ?thesis using b True assms(3) by (simp add: septet_bit_def)
  next
    case False
    have "(8 * o' + j) div 7 = i + 1" "(8 * o' + j) mod 7 = i mod 8 + j - 7"
      unfolding p using False assms(4) im(2) by (auto simp: div_nat_eqI mod_nat_eqI)
    then show ?thesis using b False by (simp add: septet_bit_def)
  qed
qed

lemma pack7_loop_spec: "pack7_loop 0 data = (if seven_bit data then Some (pack7_spec data) else None)"
proof -
  have "map (octet7 data) (filter (\<lambda>i. i mod 8 < 7) [0..<length data]) = pack7_spec data"
    if "seven_bit data"
    unfolding pack7_spec_def packed_indices map_map
  proof (rule map_cong [OF refl])
    fix o' assume "o' \<in> set [0..<(7 * length data + 7) div 8]"
    then have "o' + o' div 7 \<in> set (filter (\<lambda>i. i mod 8 < 7) [0..<length data])"
      unfolding packed_indices by simp
    then have "o' + o' div 7 < length data" by simp
    then show "(octet7 data \<circ> (\<lambda>o'. o' + o' div 7)) o' =
        horner_sum of_bool 2 (map (\<lambda>j. septet_bit data (8 * o' + j)) [0..<8])"
      using bit_octet7_septet [OF that, of "o' + o' div 7" o']
      by (intro bit_word_eqI) (simp add: bit_horner_sum_bit_word_iff del: upt_rec_numeral)
  qed
  then show ?thesis using pack7_loop_octets [of 0 data] by simp
qed

lemma length_pack7_spec [simp]: "length (pack7_spec data) = (7 * length data + 7) div 8"
  by (simp add: pack7_spec_def)

lemma bit_pack7_spec:
  assumes "p < 7 * length data"
  shows "bit (pack7_spec data ! (p div 8)) (p mod 8) \<longleftrightarrow> septet_bit data p"
proof -
  have "p div 8 < (7 * length data + 7) div 8"
    using assms by (simp add: div_less_iff_less_mult less_eq_div_iff_mult_less_eq Suc_le_eq [symmetric])
  then show ?thesis
    by (simp add: pack7_spec_def bit_horner_sum_bit_word_iff del: upt_rec_numeral)
qed

text \<open>What the network reads back from \<open>n\<close> packed characters.\<close>

definition unpack7 :: "nat \<Rightarrow> u8 list \<Rightarrow> cstr" where
  "unpack7 n bs = map (\<lambda>i. horner_sum of_bool 2
     (map (\<lambda>j. bit (bs ! ((7 * i + j) div 8)) ((7 * i + j) mod 8)) [0..<7])) [0..<n]"

lemma unpack7_pack7: "seven_bit data \<Longrightarrow> unpack7 (length data) (pack7_spec data) = data"
proof (rule nth_equalityI)
  assume seven: "seven_bit data"
  fix i assume "i < length (unpack7 (length data) (pack7_spec data))"
  then have i: "i < length data" by (simp add: unpack7_def)
  show "unpack7 (length data) (pack7_spec data) ! i = data ! i"
  proof (rule bit_word_eqI)
    fix n assume "n < LENGTH(8)"
    have u: "bit (unpack7 (length data) (pack7_spec data) ! i) n \<longleftrightarrow>
        n < 7 \<and> bit (pack7_spec data ! ((7 * i + n) div 8)) ((7 * i + n) mod 8)"
      using i by (simp add: unpack7_def bit_horner_sum_bit_word_iff del: upt_rec_numeral cong: conj_cong)
    show "bit (unpack7 (length data) (pack7_spec data) ! i) n = bit (data ! i) n"
    proof (cases "n < 7")
      case True
      then show ?thesis
        unfolding u using bit_pack7_spec [of "7 * i + n" data] i by (simp add: septet_bit_def)
    next
      case False
      with \<open>n < LENGTH(8)\<close> have "n = 7" by simp
      moreover have "\<not> bit (data ! i) 7" using seven i by (simp add: seven_bit_def list_all_length top_bit)
      ultimately show ?thesis unfolding u by simp
    qed
  qed
qed (simp add: unpack7_def)

subsection \<open>Validity period\<close>

definition xgsm_get_vt :: "int \<Rightarrow> int" where
  "xgsm_get_vt mins = (
     let v = mins div (60 * 24 * 7) in if v \<ge> 5 then 192 + v
     else let v = mins div (60 * 24) in if v \<ge> 2 then 166 + v
     else let v = mins div 30 in if v \<ge> 12 * 60 div 30 then 143 + v - 12 * 60 div 30
     else mins div 5)"

text \<open>The minutes a relative validity octet stands for (GSM 03.40, TP-VP).\<close>

definition vt_minutes :: "int \<Rightarrow> int" where
  "vt_minutes v = (if v \<le> 143 then (v + 1) * 5
     else if v \<le> 167 then 12 * 60 + (v - 143) * 30
     else if v \<le> 196 then (v - 166) * (24 * 60)
     else (v - 192) * (7 * 24 * 60))"

lemma vt_cases:
  assumes "0 \<le> mins"
  shows "mins < 720 \<Longrightarrow> vt_minutes (xgsm_get_vt mins) = 5 * (mins div 5) + 5"
    "720 \<le> mins \<Longrightarrow> mins < 1470 \<Longrightarrow> vt_minutes (xgsm_get_vt mins) = 30 * (mins div 30)"
    "2880 \<le> mins \<Longrightarrow> mins < 31 * 1440 \<Longrightarrow> vt_minutes (xgsm_get_vt mins) = 1440 * (mins div 1440)"
    "5 * 10080 \<le> mins \<Longrightarrow> vt_minutes (xgsm_get_vt mins) = 10080 * (mins div 10080)"
  using assms by (auto simp: xgsm_get_vt_def vt_minutes_def Let_def)

lemma vt_wrong:
  "1470 \<le> mins \<Longrightarrow> mins < 2880 \<Longrightarrow> 2 * 1440 \<le> vt_minutes (xgsm_get_vt mins)"
  "31 * 1440 \<le> mins \<Longrightarrow> mins < 35 * 1440 \<Longrightarrow> 5 * 10080 \<le> vt_minutes (xgsm_get_vt mins)"
  by (auto simp: xgsm_get_vt_def vt_minutes_def Let_def)

subsection \<open>The PDU\<close>

text \<open>A leading \<open>+\<close> makes the number an international one: its type octet and its digits.\<close>

definition split_plus :: "cstr \<Rightarrow> u8 \<times> cstr" where
  "split_plus nbr = (case nbr of c # cs \<Rightarrow> if c = 43 then (145, cs) else (129, nbr) | [] \<Rightarrow> (129, []))"

definition pdu_sca :: "(nat \<Rightarrow> bool) \<Rightarrow> cstr option \<Rightarrow> u8 list option" where
  "pdu_sca alloc scnbr = (case scnbr of
      None \<Rightarrow> Some [0x00]
    | Some sc \<Rightarrow> (let (tosca, sc) = split_plus sc in
        map_option (\<lambda>encd. [1 + of_nat (length encd), tosca] @ encd) (xgsm_code_number alloc sc)))"

text \<open>\<open>size\<close> is what the last successful \<^verbatim>\<open>xgsm_code_number\<close> stored; \<^verbatim>\<open>xgsm_pack7\<close> leaves it as it is
  when it fails, and the \<^verbatim>\<open>memcpy\<close> that follows then reads \<open>size\<close> bytes from NULL. Outer
  \<open>None\<close>: a fault, inner \<open>None\<close>: NULL.\<close>

definition xgsm_create_PDU ::
  "(nat \<Rightarrow> bool) \<Rightarrow> cstr \<Rightarrow> cstr option \<Rightarrow> cstr \<Rightarrow> u8 list option option" where
  "xgsm_create_PDU alloc nbr scnbr msg = (
     let size = 256 + length nbr + 2 * length msg
                + (case scnbr of None \<Rightarrow> 0 | Some sc \<Rightarrow> 2 + length sc) in
     if \<not> alloc size then Some None
     else case pdu_sca alloc scnbr of
       None \<Rightarrow> Some None
     | Some sca \<Rightarrow> (let (toda, nbr) = split_plus nbr in
         case xgsm_code_number alloc nbr of
           None \<Rightarrow> Some None
         | Some encd \<Rightarrow>
             let pdu = sca @ [0x11, 0x00, of_nat (length nbr), toda] @ encd
                   @ [0x00, 0x00, of_int (xgsm_get_vt (1 * 60 * 24)), of_nat (length msg)] in
             (case xgsm_pack7 alloc msg of
                None \<Rightarrow> if length encd = 0 then Some (Some pdu) else None
              | Some packed \<Rightarrow> Some (Some (pdu @ packed)))))"

definition xgsm_hexdata :: "(nat \<Rightarrow> bool) \<Rightarrow> u8 list \<Rightarrow> cstr option" where
  "xgsm_hexdata alloc data = (if alloc (2 * length data + 1) then Some (concat (map hex02 data)) else None)"

definition xgsm_create_hexPDU ::
  "(nat \<Rightarrow> bool) \<Rightarrow> cstr \<Rightarrow> cstr option \<Rightarrow> cstr \<Rightarrow> cstr option option" where
  "xgsm_create_hexPDU alloc nbr scnbr msg = do {
     pdu \<leftarrow> xgsm_create_PDU alloc nbr scnbr msg;
     (case pdu of None \<Rightarrow> Some None | Some pdu \<Rightarrow> Some (xgsm_hexdata alloc pdu)) }"

text \<open>\<^verbatim>\<open>sscanf(hpdu, "%2x", &l)\<close> on a string that starts with neither a blank nor a sign, and the
  length for the \<^verbatim>\<open>AT+CMGS\<close> command, a C int.\<close>

definition scan_2x :: "cstr \<Rightarrow> nat option" where
  "scan_2x s = (case s of [] \<Rightarrow> None
     | c # cs \<Rightarrow> (case hex_val c of None \<Rightarrow> None
        | Some a \<Rightarrow> Some (case cs of [] \<Rightarrow> a
            | d # _ \<Rightarrow> (case hex_val d of None \<Rightarrow> a | Some b \<Rightarrow> 16 * a + b))))"

definition xgsm_CMGS_PDU_length :: "cstr \<Rightarrow> int" where
  "xgsm_CMGS_PDU_length hpdu = (case scan_2x hpdu of None \<Rightarrow> -1
     | Some l \<Rightarrow> int (length hpdu div 2) - int l - 1)"

lemma length_hex02 [simp]: "length (hex02 b) = 2"
  by (simp add: hex02_def)

lemma length_concat_hex02 [simp]: "length (concat (map hex02 data)) = 2 * length data"
  by (induction data) (simp_all add: hex02_def)

lemma scan_hex02: "scan_2x (hex02 b @ s) = Some (unat b)"
proof -
  have "unat b div 16 < 16" using unat8_less [of b] by (simp add: div_less_iff_less_mult)
  then show ?thesis by (simp add: scan_2x_def hex02_def hex_val_digit)
qed

text \<open>The address and the text a receiver reads from a PDU: it skips the service centre's address,
  whose length comes first, and finds the type and digits of the number, the validity and the text.\<close>

definition read_pdu :: "u8 list \<Rightarrow> u8 \<times> cstr \<times> u8 \<times> cstr" where
  "read_pdu pdu = (
     let tpdu = drop (1 + unat (hd pdu)) pdu;
         dl = unat (tpdu ! 2);
         rest = drop (4 + (dl + 1) div 2) tpdu;
         n = unat (rest ! 3)
     in (tpdu ! 3, read_number (take ((dl + 1) div 2) (drop 4 tpdu)), rest ! 2, unpack7 n (drop 4 rest)))"

definition number_ok :: "cstr \<Rightarrow> bool" where
  "number_ok nbr \<longleftrightarrow> list_all isdigit8 (snd (split_plus nbr))"

lemma code_number_Some:
  assumes "list_all isdigit8 nbr" "alloc (length nbr div 2 + 2)"
  obtains encd where "xgsm_code_number alloc nbr = Some encd" "read_number encd = nbr"
    "length encd = (length nbr + 1) div 2"
proof -
  obtain encd where "code_number_loop nbr = Some encd"
    using code_number_ok [of nbr] assms(1) by auto
  with code_number_read [OF this] assms(2) that show ?thesis by (simp add: xgsm_code_number_def)
qed

lemma pdu_sca_Some:
  assumes "\<forall>n. alloc n" "pred_option number_ok scnbr"
  obtains sca where "pdu_sca alloc scnbr = Some sca" "sca \<noteq> []"
    "hd sca = of_nat (length sca - 1)"
    "length sca \<le> 2 + (case scnbr of None \<Rightarrow> 0 | Some sc \<Rightarrow> 2 + length sc)"
proof (cases scnbr)
  case None
  then show ?thesis using that by (simp add: pdu_sca_def)
next
  case (Some sc)
  let ?ds = "snd (split_plus sc)"
  obtain encd where e: "xgsm_code_number alloc ?ds = Some encd" "length encd = (length ?ds + 1) div 2"
    using code_number_Some [of ?ds alloc] assms Some by (auto simp: number_ok_def)
  moreover have "length ?ds \<le> length sc" by (auto simp: split_plus_def split: list.split)
  ultimately show ?thesis
    using that [of "[1 + of_nat (length encd), fst (split_plus sc)] @ encd"] Some
    by (auto simp: pdu_sca_def case_prod_beta)
qed

text \<open>The octets of a PDU, as the code puts them together.\<close>

lemma create_PDU_octets:
  assumes alloc: "\<forall>n. alloc n" and sc: "pred_option number_ok scnbr" and nbr: "number_ok nbr"
    and msg: "seven_bit msg"
  obtains sca encd where
    "xgsm_create_PDU alloc nbr scnbr msg = Some (Some (sca
       @ [0x11, 0, of_nat (length (snd (split_plus nbr))), fst (split_plus nbr)] @ encd
       @ [0, 0, 167, of_nat (length msg)] @ pack7_spec msg))"
    "pdu_sca alloc scnbr = Some sca" "sca \<noteq> []" "hd sca = of_nat (length sca - 1)"
    "length sca \<le> 2 + (case scnbr of None \<Rightarrow> 0 | Some sc \<Rightarrow> 2 + length sc)"
    "read_number encd = snd (split_plus nbr)" "length encd = (length (snd (split_plus nbr)) + 1) div 2"
proof -
  obtain sca where sca: "pdu_sca alloc scnbr = Some sca" "sca \<noteq> []" "hd sca = of_nat (length sca - 1)"
    "length sca \<le> 2 + (case scnbr of None \<Rightarrow> 0 | Some sc \<Rightarrow> 2 + length sc)"
    by (rule pdu_sca_Some [OF alloc sc])
  obtain encd where e: "xgsm_code_number alloc (snd (split_plus nbr)) = Some encd"
    "read_number encd = snd (split_plus nbr)" "length encd = (length (snd (split_plus nbr)) + 1) div 2"
    using code_number_Some [of "snd (split_plus nbr)" alloc] nbr alloc by (auto simp: number_ok_def)
  have "xgsm_pack7 alloc msg = Some (pack7_spec msg)"
    using alloc msg by (simp add: xgsm_pack7_def pack7_loop_spec)
  moreover have "xgsm_get_vt (1 * 60 * 24) = 167" by (simp add: xgsm_get_vt_def)
  ultimately show ?thesis
    using that [of sca encd] sca e alloc
    by (simp add: xgsm_create_PDU_def Let_def case_prod_beta)
qed

subsection \<open>Properties\<close>

text \<open>\<^verbatim>\<open>xgsm_code_number\<close> returns NULL for a number with a character that is not
  a digit; for any other its octets, within the buffer it allocates, read back as the number.\<close>

theorem xgsm_number_roundtrip:
  assumes "\<forall>n. alloc n"
  shows "case xgsm_code_number alloc nbr of
      None \<Rightarrow> \<not> list_all isdigit8 nbr
    | Some bs \<Rightarrow> list_all isdigit8 nbr \<and> read_number bs = nbr \<and> length bs \<le> length nbr div 2 + 2"
proof (cases "code_number_loop nbr")
  case None
  then show ?thesis using code_number_ok [of nbr] assms by (simp add: xgsm_code_number_def)
next
  case (Some bs)
  then show ?thesis
    using code_number_ok [of nbr] code_number_read [OF Some] assms by (simp add: xgsm_code_number_def)
qed

text \<open>C14. \<^verbatim>\<open>xgsm_pack7\<close> refuses a character with the top bit set; otherwise its octets are the
  characters' seven-bit groups as one bit stream, padded with zeros, and unpack to the text.\<close>

theorem xgsm_pack7_spec:
  assumes "\<forall>n. alloc n"
  shows "xgsm_pack7 alloc data = (if seven_bit data then Some (pack7_spec data) else None)
    \<and> length (pack7_spec data) = (7 * length data + 7) div 8
    \<and> (seven_bit data \<longrightarrow> unpack7 (length data) (pack7_spec data) = data)"
  using assms unpack7_pack7 [of data] by (simp add: xgsm_pack7_def pack7_loop_spec)

text \<open>The validity octet stands for the requested minutes rounded to its granularity: up
  to half a day, up to 24 and a half hours, from two to thirty days, and from five weeks on.\<close>

theorem xgsm_vt_right:
  assumes "0 \<le> mins" "mins < 1470 \<or> 2880 \<le> mins \<and> mins < 31 * 1440 \<or> 35 * 1440 \<le> mins"
  shows "vt_minutes (xgsm_get_vt mins) =
    (if mins < 720 then 5 * (mins div 5) + 5 else if mins < 1470 then 30 * (mins div 30)
     else if mins < 31 * 1440 then 1440 * (mins div 1440) else 10080 * (mins div 10080))"
  using vt_cases [OF assms(1)] assms(2) by auto

text \<open>Between 24 and a half and 48 hours the octet stands for two days or more, and
  between 31 and 34 days for five weeks or more: the ranges of the tests overlap those of the
  codes.\<close>

theorem xgsm_vt_wrong:
  "(1470 \<le> mins \<and> mins < 2 * 1440 \<longrightarrow> 2 * 1440 \<le> vt_minutes (xgsm_get_vt mins))
   \<and> (31 * 1440 \<le> mins \<and> mins < 35 * 1440 \<longrightarrow> 35 * 1440 \<le> vt_minutes (xgsm_get_vt mins))"
  using vt_wrong [of mins] by simp


text \<open>The length announced with \<^verbatim>\<open>AT+CMGS\<close> is the number of octets after the service
  centre's address, as the modem expects it.\<close>

theorem xgsm_cmgs_length:
  assumes "\<forall>n. alloc n" "pred_option number_ok scnbr" "number_ok nbr" "seven_bit msg"
    and "pred_option (\<lambda>sc. length sc < 256) scnbr"
  shows "\<exists>sca tpdu. xgsm_create_PDU alloc nbr scnbr msg = Some (Some (sca @ tpdu))
    \<and> pdu_sca alloc scnbr = Some sca
    \<and> xgsm_create_hexPDU alloc nbr scnbr msg = Some (Some (concat (map hex02 (sca @ tpdu))))
    \<and> xgsm_CMGS_PDU_length (concat (map hex02 (sca @ tpdu))) = int (length tpdu)"
proof -
  obtain sca tpdu where p: "xgsm_create_PDU alloc nbr scnbr msg = Some (Some (sca @ tpdu))"
    "pdu_sca alloc scnbr = Some sca" "sca \<noteq> []" "hd sca = of_nat (length sca - 1)"
    using create_PDU_octets [OF assms(1-4)] by metis
  have "length sca \<le> 256"
    using p(2) assms(5) code_number_read
    by (auto simp: pdu_sca_def split_plus_def xgsm_code_number_def split: option.splits list.splits if_splits)
  then have "unat (hd sca) = length sca - 1" using p(3,4) by (simp add: unat_of_nat)
  moreover have "scan_2x (concat (map hex02 (sca @ tpdu))) = Some (unat (hd sca))"
    using p(3) scan_hex02 by (cases sca) auto
  ultimately have "xgsm_CMGS_PDU_length (concat (map hex02 (sca @ tpdu))) = int (length tpdu)"
    using p(3) by (cases sca) (simp_all add: xgsm_CMGS_PDU_length_def del: map_append concat_append)
  then show ?thesis
    using p(1,2) assms(1) by (auto simp: xgsm_create_hexPDU_def xgsm_hexdata_def)
qed

text \<open>A text with a character above 127 makes \<^verbatim>\<open>xgsm_create_PDU\<close> copy from NULL: the result
  of \<^verbatim>\<open>xgsm_pack7\<close> is not checked.\<close>

theorem xgsm_pdu_faults:
  assumes "\<forall>n. alloc n" "pred_option number_ok scnbr" "number_ok nbr" "snd (split_plus nbr) \<noteq> []"
    and "\<not> seven_bit msg"
  shows "xgsm_create_PDU alloc nbr scnbr msg = None"
proof -
  obtain sca where "pdu_sca alloc scnbr = Some sca" by (rule pdu_sca_Some [OF assms(1,2)])
  moreover obtain encd where "xgsm_code_number alloc (snd (split_plus nbr)) = Some encd"
    "length encd = (length (snd (split_plus nbr)) + 1) div 2"
    using code_number_Some [of "snd (split_plus nbr)" alloc] assms(1,3) by (auto simp: number_ok_def)
  moreover have "xgsm_pack7 alloc msg = None"
    using assms(1,5) by (simp add: xgsm_pack7_def pack7_loop_spec)
  ultimately show ?thesis
    using assms(1,4) by (cases "snd (split_plus nbr)")
      (auto simp: xgsm_create_PDU_def Let_def case_prod_beta)
qed

subsection \<open>Witnesses\<close>

theorem xgsm_pack7_spec_witness:
  "xgsm_pack7 (\<lambda>n. True) [0x68, 0x65] = Some (pack7_spec [0x68, 0x65]) \<and> length (pack7_spec [0x68, 0x65]) = 2"
  using xgsm_pack7_spec [of "\<lambda>n. True" "[0x68, 0x65]"] by (simp add: seven_bit_def)


end
