(* ===== verification/XGsmModem.thy ===== *)
theory XGsmModem
  imports XGsm
begin

text \<open>
  The modem side of \<^verbatim>\<open>xgsm.c\<close>: reading responses, waiting for the prompt, sending commands and the
  message, and the command sequence of \<^verbatim>\<open>main\<close>. The serial device is a parameter: its state has
  type \<open>'d\<close>, and \<open>tty\<close> holds the system calls on it.
\<close>

record 'd tty =
  tty_read :: "nat \<Rightarrow> 'd \<Rightarrow> u8 list option \<times> 'd"
  tty_write :: "u8 list \<Rightarrow> 'd \<Rightarrow> int \<times> 'd"
  tty_pollin :: "int \<Rightarrow> 'd \<Rightarrow> bool option \<times> 'd"
  tty_pollout :: "int \<Rightarrow> 'd \<Rightarrow> bool option \<times> 'd"

text \<open>\<open>tty_read\<close> gives \<open>None\<close> for -1; the polls give \<open>None\<close> where \<^verbatim>\<open>poll\<close> returns 0 or less (and,
  for output, on a hangup or an error), else whether the descriptor is ready.\<close>

definition xgsm_read :: "'d tty \<Rightarrow> nat \<Rightarrow> int \<Rightarrow> 'd \<Rightarrow> u8 list option \<times> 'd" where
  "xgsm_read tty n timeo d = (case tty_pollin tty timeo d of
      (None, d) \<Rightarrow> (None, d)
    | (Some b, d) \<Rightarrow> if b then tty_read tty n d else (Some [], d))"

partial_function (option) xgsm_flushin :: "'d tty \<Rightarrow> int \<Rightarrow> 'd \<Rightarrow> 'd option" where
  "xgsm_flushin tty timeo d = (case xgsm_read tty 64 timeo d of
      (None, d) \<Rightarrow> Some d
    | (Some bs, d) \<Rightarrow> if bs = [] then Some d else xgsm_flushin tty timeo d)"

definition xgsm_write :: "'d tty \<Rightarrow> u8 list \<Rightarrow> int \<Rightarrow> 'd \<Rightarrow> int \<times> 'd" where
  "xgsm_write tty data timeo d = (case tty_pollout tty timeo d of
      (None, d) \<Rightarrow> (-1, d)
    | (Some b, d) \<Rightarrow> if b then tty_write tty data d else (0, d))"

subsection \<open>The end of a response\<close>

text \<open>\<open>sol\<close>: the index of the last newline before the final two bytes.\<close>

definition find_sol :: "cstr \<Rightarrow> nat option" where
  "find_sol resp = List.find (\<lambda>i. resp ! i = 10) (rev [0..<length resp - 2])"

definition xgsm_eoc :: "cstr \<Rightarrow> bool" where
  "xgsm_eoc resp = (
     if length resp \<le> 2 \<or> drop (length resp - 2) resp \<noteq> [13, 10] then False
     else case find_sol resp of None \<Rightarrow> False
       | Some sol \<Rightarrow> (let l = drop sol resp in
           ci_prefix (10 # bytes ''OK'' @ [13, 10]) l
           \<or> ci_prefix (10 # bytes ''ERROR'' @ [13, 10]) l
           \<or> ci_prefix (10 # bytes ''NO CARRIER'' @ [13, 10]) l
           \<or> ci_prefix (10 # bytes ''+CMS ERROR:'') l
           \<or> ci_prefix (10 # bytes ''+CME ERROR:'') l))"

text \<open>The final lines of a response.\<close>

definition final_line :: "cstr \<Rightarrow> bool" where
  "final_line l \<longleftrightarrow> map toupper8 l \<in> {bytes ''OK'', bytes ''ERROR'', bytes ''NO CARRIER''}
     \<or> ci_prefix (bytes ''+CMS ERROR:'') l \<or> ci_prefix (bytes ''+CME ERROR:'') l"

lemma toupper8_ctl: "c < 65 \<Longrightarrow> toupper8 d = c \<longleftrightarrow> d = c"
  by (auto simp: toupper8_def islower8_def word_le_nat_alt word_less_nat_alt word_unat_eq_iff unat_word_ariths
      unat_sub_if_size)

lemma find_rev_upt:
  "P k \<Longrightarrow> k < n \<Longrightarrow> (\<forall>i. k < i \<and> i < n \<longrightarrow> \<not> P i) \<Longrightarrow> List.find P (rev [0..<n]) = Some k"
  by (induction n) (auto simp: less_Suc_eq)

lemma find_sol_line:
  assumes "10 \<notin> set l"
  shows "find_sol (pre @ 10 # l @ [13, 10]) = Some (length pre)"
  unfolding find_sol_def
proof (rule find_rev_upt)
  show "\<forall>i. length pre < i \<and> i < length (pre @ 10 # l @ [13, 10]) - 2 \<longrightarrow>
      (pre @ 10 # l @ [13, 10]) ! i \<noteq> 10"
  proof (intro allI impI)
    fix i assume "length pre < i \<and> i < length (pre @ 10 # l @ [13, 10]) - 2"
    then have "(pre @ 10 # l @ [13, 10]) ! i = l ! (i - Suc (length pre))" "i - Suc (length pre) < length l"
      by (auto simp: nth_append nth_Cons')
    then show "(pre @ 10 # l @ [13, 10]) ! i \<noteq> 10" using assms by (metis nth_mem)
  qed
qed simp_all

text \<open>Comparing a line and its end with a literal and its end.\<close>

lemma whole_line_match:
  assumes "10 \<notin> set l" "10 \<notin> set lit"
  shows "ci_prefix (10 # lit @ [13, 10]) (10 # l @ [13, 10]) \<longleftrightarrow> map toupper8 l = map toupper8 lit"
proof
  assume "ci_prefix (10 # lit @ [13, 10]) (10 # l @ [13, 10])"
  then have eq: "map toupper8 (take (length lit + 2) (l @ [13, 10])) = map toupper8 lit @ [13, 10]"
    by (simp add: ci_prefix_def toupper8_ctl)
  have len: "length lit + 2 \<le> length l + 2" using arg_cong [OF eq, of length] by simp
  have "length l \<le> length lit"
  proof (rule ccontr)
    assume "\<not> length l \<le> length lit"
    then have lt: "length lit + 1 \<le> length l" by simp
    have "map toupper8 (take (length lit + 2) xs) ! (length lit + 1) = toupper8 (xs ! (length lit + 1))"
      if "length lit + 1 < length xs" for xs using that by simp
    from this [of "l @ [13, 10]"] lt have "toupper8 ((l @ [13, 10]) ! (length lit + 1)) = 10"
      unfolding eq by (simp add: nth_append)
    then have "(l @ [13, 10]) ! (length lit + 1) = 10" by (simp add: toupper8_ctl)
    then have "length lit + 1 < length l" "l ! (length lit + 1) = 10"
      using lt by (cases "length lit + 1 = length l"; simp add: nth_append)+
    with assms(1) show False by (metis nth_mem)
  qed
  with len eq show "map toupper8 l = map toupper8 lit" by (simp add: toupper8_ctl)
next
  assume eq: "map toupper8 l = map toupper8 lit"
  then have "length l = length lit" by (metis length_map)
  with eq show "ci_prefix (10 # lit @ [13, 10]) (10 # l @ [13, 10])"
    by (simp add: ci_prefix_def)
qed

lemma line_start_match:
  assumes "13 \<notin> set (map toupper8 lit)"
  shows "ci_prefix (10 # lit) (10 # l @ [13, 10]) \<longleftrightarrow> ci_prefix lit l"
proof (cases "length lit \<le> length l")
  case True
  then show ?thesis by (simp add: ci_prefix_def)
next
  case False
  then have "13 \<in> set (take (length lit) (l @ [13, 10]))"
    by (cases "length lit - length l") (auto simp: take_Cons')
  then have "13 \<in> set (map toupper8 (take (length lit) (l @ [13, 10])))" by (force simp: toupper8_ctl)
  then have "map toupper8 (take (length lit) (l @ [13, 10])) \<noteq> map toupper8 lit" using assms by metis
  moreover have "\<not> ci_prefix lit l"
  proof
    assume "ci_prefix lit l"
    then have "length (take (length lit) l) = length lit" unfolding ci_prefix_def by (metis length_map)
    with False show False by simp
  qed
  ultimately show ?thesis by (simp add: ci_prefix_def)
qed

lemma xgsm_eoc_line:
  assumes "10 \<notin> set l"
  shows "xgsm_eoc (pre @ 10 # l @ [13, 10]) \<longleftrightarrow> final_line l"
proof -
  have lits: "10 \<notin> set (bytes ''OK'')" "10 \<notin> set (bytes ''ERROR'')" "10 \<notin> set (bytes ''NO CARRIER'')"
    "13 \<notin> set (map toupper8 (bytes ''+CMS ERROR:''))" "13 \<notin> set (map toupper8 (bytes ''+CME ERROR:''))"
    "map toupper8 (bytes ''OK'') = bytes ''OK''" "map toupper8 (bytes ''ERROR'') = bytes ''ERROR''"
    "map toupper8 (bytes ''NO CARRIER'') = bytes ''NO CARRIER''"
    by code_simp+
  show ?thesis
    unfolding xgsm_eoc_def find_sol_line [OF assms]
    using whole_line_match [OF assms lits(1)] whole_line_match [OF assms lits(2)]
      whole_line_match [OF assms lits(3)] line_start_match [OF lits(4), of l] line_start_match [OF lits(5), of l]
    by (simp add: final_line_def lits(6-8) Let_def)
qed

subsection \<open>Reading a response\<close>

text \<open>The loop of \<^verbatim>\<open>xgsm_readresp\<close>: \<open>resp\<close> is what has been read, \<open>sz\<close> the size of the buffer. The
  last step stores the NUL, which faults outside the buffer.\<close>

partial_function (option) readresp_loop ::
  "'d tty \<Rightarrow> (nat \<Rightarrow> bool) \<Rightarrow> cstr \<Rightarrow> nat \<Rightarrow> 'd \<Rightarrow> (cstr option \<times> 'd) option" where
  "readresp_loop tty alloc resp sz d = (
     let grow = sz \<le> length resp + 1; sz = (if grow then sz * 2 else sz) in
     if grow \<and> \<not> alloc sz then Some (None, d)
     else case tty_read tty (sz - length resp - 1) d of
       (None, d) \<Rightarrow> Some (None, d)
     | (Some bs, d) \<Rightarrow> (let resp = resp @ bs in
         if xgsm_eoc resp then (if length resp < sz then Some (Some resp, d) else None)
         else readresp_loop tty alloc resp sz d))"

definition xgsm_readresp :: "'d tty \<Rightarrow> (nat \<Rightarrow> bool) \<Rightarrow> 'd \<Rightarrow> (cstr option \<times> 'd) option" where
  "xgsm_readresp tty alloc d = (
     if \<not> alloc 128 then Some (None, d)
     else do {
       (resp, d) \<leftarrow> readresp_loop tty alloc [] 128 d;
       (case resp of None \<Rightarrow> Some (None, d)
        | Some resp \<Rightarrow> do { d \<leftarrow> xgsm_flushin tty 500 d; Some (Some resp, d) }) })"

text \<open>A device that delivers its input in chunks, and end of file after the last: \<^verbatim>\<open>read\<close> takes the
  first chunk, or the part of it that was asked for.\<close>

fun chunk_read :: "nat \<Rightarrow> cstr list \<Rightarrow> cstr option \<times> cstr list" where
  "chunk_read n [] = (Some [], [])"
| "chunk_read n (c # cs) = (if length c \<le> n then (Some c, cs) else (Some (take n c), drop n c # cs))"

lemma chunk_read_some:
  assumes "[] \<notin> set cs" "cs \<noteq> []" "0 < n"
  obtains bs cs' where "chunk_read n cs = (Some bs, cs')" "bs \<noteq> []" "length bs \<le> n"
    "concat cs = bs @ concat cs'" "[] \<notin> set cs'"
proof (cases cs)
  case (Cons c cs')
  then show ?thesis
    using assms that [of c cs'] that [of "take n c" "drop n c # cs'"] by (cases "length c \<le> n") auto
qed (use assms in simp)

text \<open>From chunks that make up \<open>rest\<close> and then more, a response is read up to its end, whatever the
  chunks are, as long as they end with the response.\<close>

lemma readresp_loop_reads:
  assumes tty: "tty_read tty = chunk_read" and alloc: "\<forall>n. alloc n"
    and "1 < sz" "length resp < sz" "[] \<notin> set cs" "rest = concat cs" "rest \<noteq> []" "xgsm_eoc (resp @ rest)"
    and "\<forall>p q. rest = p @ q \<and> q \<noteq> [] \<longrightarrow> \<not> xgsm_eoc (resp @ p)"
  shows "readresp_loop tty alloc resp sz (cs @ tail) = Some (Some (resp @ rest), tail)"
  using assms(3-)
proof (induction "length rest" arbitrary: resp sz cs rest rule: less_induct)
  case less
  define sz' where "sz' = (if sz \<le> length resp + 1 then sz * 2 else sz)"
  have big: "length resp + 1 < sz'" "1 < sz'" using less.prems(1,2) by (auto simp: sz'_def)
  have "cs \<noteq> []" using less.prems by auto
  with less.prems(3) big obtain bs cs' where bs: "chunk_read (sz' - length resp - 1) cs = (Some bs, cs')"
    "bs \<noteq> []" "length bs \<le> sz' - length resp - 1" "concat cs = bs @ concat cs'" "[] \<notin> set cs'"
    by (elim chunk_read_some [of cs "sz' - length resp - 1"]) auto
  have rd: "chunk_read (sz' - length resp - 1) (cs @ tail) = (Some bs, cs' @ tail)"
    using bs(1) \<open>cs \<noteq> []\<close> by (cases cs) (auto split: if_splits)
  have fits: "length (resp @ bs) < sz'" using bs(3) big by simp
  have unfold: "readresp_loop tty alloc resp sz (cs @ tail) =
      (if xgsm_eoc (resp @ bs) then Some (Some (resp @ bs), cs' @ tail)
       else readresp_loop tty alloc (resp @ bs) sz' (cs' @ tail))"
    apply (subst readresp_loop.simps)
    apply (simp only: Let_def sz'_def [symmetric] tty)
    using fits alloc rd apply simp
    done
  show ?case
  proof (cases "cs' = []")
    case True
    then show ?thesis using less.prems(4,6) bs(4) by (simp add: unfold)
  next
    case False
    then have ne: "concat cs' \<noteq> []" using bs(5) by (cases cs') auto
    then have "\<not> xgsm_eoc (resp @ bs)" using less.prems(4,7) bs(4) by blast
    moreover have "readresp_loop tty alloc (resp @ bs) sz' (cs' @ tail)
        = Some (Some ((resp @ bs) @ concat cs'), tail)"
    proof (rule less.hyps)
      show "length (concat cs') < length rest" using less.prems(4) bs(2,4) by simp
      show "\<forall>p q. concat cs' = p @ q \<and> q \<noteq> [] \<longrightarrow> \<not> xgsm_eoc ((resp @ bs) @ p)"
        using less.prems(4,7) bs(4) by (metis append.assoc)
    qed (use less.prems big fits bs ne in auto)
    ultimately show ?thesis using less.prems(4) bs(4) by (simp add: unfold)
  qed
qed

text \<open>At end of file \<^verbatim>\<open>read\<close> returns 0 for ever and the loop does not end.\<close>

lemma readresp_loop_some:
  fixes tty :: "cstr list tty"
  assumes "readresp_loop tty alloc resp sz d = Some y" "tty_read tty = chunk_read" "\<forall>n. alloc n" "d = []"
  shows "xgsm_eoc resp"
proof -
  let ?P = "\<lambda>tty alloc resp sz d y. tty_read tty = chunk_read \<and> (\<forall>n. alloc n) \<and> d = ([] :: cstr list)
    \<longrightarrow> xgsm_eoc resp"
  have "?P tty alloc resp sz d y"
    by (rule readresp_loop.raw_induct [of ?P, OF _ assms(1)])
       (auto simp: Let_def split: if_splits)
  with assms show ?thesis by blast
qed

lemma readresp_loop_eof:
  "tty_read tty = chunk_read \<Longrightarrow> \<forall>n. alloc n \<Longrightarrow> \<not> xgsm_eoc resp \<Longrightarrow>
   readresp_loop tty alloc resp sz [] = None"
  using readresp_loop_some by (metis not_Some_eq)

subsection \<open>Waiting for a prompt\<close>

text \<open>\<open>rd n d\<close> stands for \<^verbatim>\<open>xgsm_read(fd, buf, n, timeo)\<close>.\<close>

function want_reply_loop ::
  "(nat \<Rightarrow> 'd \<Rightarrow> u8 list option \<times> 'd) \<Rightarrow> cstr \<Rightarrow> 'd \<Rightarrow> int \<times> 'd" where
  "want_reply_loop rd reply d = (
     if reply = [] then (1, d)
     else case rd (min (length reply) 32) d of
       (None, d) \<Rightarrow> (-1, d)
     | (Some bs, d) \<Rightarrow>
         if bs = [] then (-1, d)
         else if map toupper8 bs \<noteq> map toupper8 (take (length bs) reply) then (0, d)
         else want_reply_loop rd (drop (length bs) reply) d)"
  by pat_completeness auto
termination
  by (relation "measure (\<lambda>(rd, reply, d). length reply)") auto

declare want_reply_loop.simps [simp del]

definition xgsm_want_reply :: "'d tty \<Rightarrow> cstr \<Rightarrow> int \<Rightarrow> 'd \<Rightarrow> int \<times> 'd" where
  "xgsm_want_reply tty reply timeo d = want_reply_loop (\<lambda>n. xgsm_read tty n timeo) reply d"

lemma want_reply_chunks:
  assumes "[] \<notin> set cs" "length reply \<le> length (concat cs)"
  shows "fst (want_reply_loop chunk_read reply cs) =
    (if map toupper8 (take (length reply) (concat cs)) = map toupper8 reply then 1 else 0)"
  using assms
proof (induction "length reply" arbitrary: reply cs rule: less_induct)
  case less
  show ?case
  proof (cases "reply = []")
    case False
    then have "cs \<noteq> []" "0 < min (length reply) 32" using less.prems(2) by auto
    then obtain bs cs' where bs: "chunk_read (min (length reply) 32) cs = (Some bs, cs')"
      "bs \<noteq> []" "length bs \<le> min (length reply) 32" "concat cs = bs @ concat cs'" "[] \<notin> set cs'"
      by (rule chunk_read_some [OF less.prems(1)])
    let ?r1 = "take (length bs) reply" and ?r2 = "drop (length bs) reply"
    have IH: "fst (want_reply_loop chunk_read ?r2 cs') =
        (if map toupper8 (take (length ?r2) (concat cs')) = map toupper8 ?r2 then 1 else 0)"
      using less.prems(2) bs False by (intro less.hyps) auto
    have "map toupper8 (take (length reply) (concat cs)) = map toupper8 reply \<longleftrightarrow>
        map toupper8 bs = map toupper8 ?r1 \<and> map toupper8 (take (length ?r2) (concat cs')) = map toupper8 ?r2"
    proof -
      have "map toupper8 reply = map toupper8 ?r1 @ map toupper8 ?r2" by (simp flip: map_append)
      moreover have "take (length reply) (concat cs) = bs @ take (length ?r2) (concat cs')"
        using bs(3,4) by simp
      ultimately show ?thesis using bs(3) by simp
    qed
    with IH False bs(1,2) show ?thesis by (subst want_reply_loop.simps) auto
  qed (simp add: want_reply_loop.simps)
qed

subsection \<open>Commands\<close>

definition xgsm_sendcmd ::
  "'d tty \<Rightarrow> (nat \<Rightarrow> bool) \<Rightarrow> cstr \<Rightarrow> 'd \<Rightarrow> (cstr option \<times> 'd) option" where
  "xgsm_sendcmd tty alloc cmd d = (case xgsm_write tty cmd (-1) d of
      (n, d) \<Rightarrow> if n \<noteq> int (length cmd) then Some (None, d) else xgsm_readresp tty alloc d)"

text \<open>A command that is formatted first, into a block that the C library allocates.\<close>

definition xgsm_vsendcmd ::
  "'d tty \<Rightarrow> (nat \<Rightarrow> bool) \<Rightarrow> cstr \<Rightarrow> 'd \<Rightarrow> (cstr option \<times> 'd) option" where
  "xgsm_vsendcmd tty alloc cmd d = (if alloc (length cmd + 1) then xgsm_sendcmd tty alloc cmd d else Some (None, d))"

text \<open>The two steps of sending a message: the command line, and after the prompt the text with its
  closing control-Z; both are formatted first.\<close>

definition send_with_prompt ::
  "'d tty \<Rightarrow> (nat \<Rightarrow> bool) \<Rightarrow> cstr \<Rightarrow> cstr \<Rightarrow> 'd \<Rightarrow> (cstr option \<times> 'd) option" where
  "send_with_prompt tty alloc cmd body d = (if \<not> alloc (length cmd + 1) then Some (None, d)
      else case xgsm_write tty cmd (-1) d of
      (n, d) \<Rightarrow> if n \<noteq> int (length cmd) then Some (None, d)
      else case xgsm_want_reply tty [13, 10, 62, 32] 2000 d of
        (r, d) \<Rightarrow> if r \<le> 0 then Some (None, d)
        else xgsm_vsendcmd tty alloc (body @ [0x1a]) d)"

definition xgsm_send_txt_sms ::
  "'d tty \<Rightarrow> (nat \<Rightarrow> bool) \<Rightarrow> cstr \<Rightarrow> cstr \<Rightarrow> 'd \<Rightarrow> (cstr option \<times> 'd) option" where
  "xgsm_send_txt_sms tty alloc nbr msg d =
     send_with_prompt tty alloc (bytes ''AT+CMGS='' @ [34] @ nbr @ [34] @ bytes '',145'' @ [13]) msg d"

definition xgsm_send_sms ::
  "'d tty \<Rightarrow> (nat \<Rightarrow> bool) \<Rightarrow> cstr \<Rightarrow> cstr option \<Rightarrow> cstr \<Rightarrow> 'd \<Rightarrow> (cstr option \<times> 'd) option" where
  "xgsm_send_sms tty alloc nbr scnbr msg d = do {
     hpdu \<leftarrow> xgsm_create_hexPDU alloc nbr scnbr msg;
     (case hpdu of None \<Rightarrow> Some (None, d)
      | Some hpdu \<Rightarrow> send_with_prompt tty alloc
          (bytes ''AT+CMGS='' @ fmt_d (xgsm_CMGS_PDU_length hpdu) @ [13]) hpdu d) }"

text \<open>What the options of \<^verbatim>\<open>main\<close> leave set.\<close>

record xgsm_opts =
  o_txt :: bool
  o_verbose :: bool
  o_mlist :: bool
  o_mdel :: int
  o_scnbr :: "cstr option"
  o_msg :: cstr
  o_nbr :: cstr

datatype step = Cmd cstr | VCmd cstr | SendMsg

definition verbose_cmds :: "string list" where
  "verbose_cmds = [''AT+CFUN=1'', ''AT+CPIN?'', ''AT+CSQ'', ''AT+COPS?'', ''AT+COPS=0'', ''AT+COPN'',
     ''AT^SMONC'', ''AT^MONP'', ''AT+CREG?'', ''AT+CREG=1'', ''AT+CGMI'', ''AT+CGMM'', ''AT+CGMR'',
     ''AT+CGSN'', ''AT+CSCS=?'', ''AT+CIMI'', ''AT+CCID'', ''AT+CNUM'', ''AT+CSCA?'', ''AT+CPMS?'',
     ''AT+CSMS=1'', ''AT+CSMP?'', ''AT+CLIP=1'', ''AT+CNMI=0,0,0,0,1'', ''AT+CGSMS=1'']"

definition main_steps :: "xgsm_opts \<Rightarrow> step list" where
  "main_steps opt = map (\<lambda>c. Cmd (bytes c @ [13])) ([''AT&F'', ''ATE0'', ''AT+CMEE=1''] @ (if o_verbose opt then verbose_cmds else []))
     @ (if o_verbose opt then [VCmd (bytes ''AT&V'' @ [13])] else [])
     @ [Cmd (bytes ''AT^SM20=0,0'' @ [13]), VCmd (bytes ''AT+CMGF='' @ fmt_d (if o_txt opt then 1 else 0) @ [13])]
     @ (if o_txt opt then [Cmd (bytes ''AT+CSMP=17,169,0,0'' @ [13])] else [])
     @ [SendMsg, Cmd (bytes ''AT+CEER'' @ [13])]
     @ (if o_mlist opt then [Cmd (bytes ''AT+CMGL='' @ [34] @ bytes ''ALL'' @ [34, 13])] else [])
     @ (if o_mdel opt > 0 then [VCmd (bytes ''AT+CMGD='' @ fmt_d (o_mdel opt) @ [13])] else [])"

definition run_step :: "'d tty \<Rightarrow> (nat \<Rightarrow> bool) \<Rightarrow> xgsm_opts \<Rightarrow> step \<Rightarrow> 'd \<Rightarrow> 'd option" where
  "run_step tty alloc opt st d = map_option snd (case st of
      Cmd c \<Rightarrow> xgsm_sendcmd tty alloc c d
    | VCmd c \<Rightarrow> xgsm_vsendcmd tty alloc c d
    | SendMsg \<Rightarrow> if o_txt opt then xgsm_send_txt_sms tty alloc (o_nbr opt) (o_msg opt) d
                 else xgsm_send_sms tty alloc (o_nbr opt) (o_scnbr opt) (o_msg opt) d)"

text \<open>\<^verbatim>\<open>main\<close> from the first \<^verbatim>\<open>xgsm_flushin\<close> on: the responses are not looked at.\<close>

definition xgsm_main :: "'d tty \<Rightarrow> (nat \<Rightarrow> bool) \<Rightarrow> xgsm_opts \<Rightarrow> 'd \<Rightarrow> 'd option" where
  "xgsm_main tty alloc opt d = do {
     d \<leftarrow> xgsm_flushin tty 500 d;
     foldM (run_step tty alloc opt) (main_steps opt) d }"

subsection \<open>Properties\<close>

text \<open>A response that ends with a line is complete exactly if the line is \<^verbatim>\<open>OK\<close>,
  \<^verbatim>\<open>ERROR\<close> or \<^verbatim>\<open>NO CARRIER\<close>, or starts with \<^verbatim>\<open>+CMS ERROR:\<close> or \<^verbatim>\<open>+CME ERROR:\<close>, in upper or lower
  case.\<close>

theorem xgsm_eoc_final:
  assumes "10 \<notin> set l"
  shows "xgsm_eoc (pre @ 10 # l @ [13, 10]) \<longleftrightarrow>
    map toupper8 l \<in> {bytes ''OK'', bytes ''ERROR'', bytes ''NO CARRIER''}
    \<or> ci_prefix (bytes ''+CMS ERROR:'') l \<or> ci_prefix (bytes ''+CME ERROR:'') l"
  using xgsm_eoc_line [OF assms] by (simp add: final_line_def)


text \<open>When the device reaches end of file before a complete response, \<^verbatim>\<open>xgsm_readresp\<close> does
  not return: a \<^verbatim>\<open>read\<close> of 0 bytes is taken for progress.\<close>

theorem xgsm_readresp_hangs:
  assumes "tty_read tty = chunk_read" "\<forall>n. alloc n"
  shows "xgsm_readresp tty alloc [] = None"
proof -
  have "readresp_loop tty alloc [] 128 [] = None"
    by (rule readresp_loop_eof [OF assms]) (simp add: xgsm_eoc_def)
  moreover have "alloc 128" using assms(2) by blast
  ultimately show ?thesis by (simp add: xgsm_readresp_def)
qed

text \<open>\<^verbatim>\<open>xgsm_want_reply\<close> ends and returns 1 exactly if the next bytes of the device are
  the reply, up to case, however they are cut into reads, and 0 if they differ.\<close>

theorem xgsm_want_reply_match:
  assumes "tty_read tty = chunk_read" "tty_pollin tty = (\<lambda>timeo d. (Some True, d))"
    and "[] \<notin> set cs" "length reply \<le> length (concat cs)"
  shows "fst (xgsm_want_reply tty reply timeo cs) =
    (if map toupper8 (take (length reply) (concat cs)) = map toupper8 reply then 1 else 0)"
proof -
  have "(\<lambda>n. xgsm_read tty n timeo) = chunk_read" by (auto simp: xgsm_read_def assms(1,2) fun_eq_iff)
  with want_reply_chunks [OF assms(3,4)] show ?thesis by (simp add: xgsm_want_reply_def)
qed

subsection \<open>Witnesses\<close>

definition demo_tty :: "cstr list tty" where
  "demo_tty = \<lparr>tty_read = chunk_read, tty_write = (\<lambda>bs d. (int (length bs), d)),
     tty_pollin = (\<lambda>timeo d. (if d = [] then None else Some True, d)), tty_pollout = (\<lambda>timeo d. (Some True, d))\<rparr>"

lemma demo_flushin: "xgsm_flushin demo_tty t [] = Some []"
  by (subst xgsm_flushin.simps) (simp add: xgsm_read_def demo_tty_def)

lemma proper_prefixes:
  assumes "\<forall>n < length xs. \<not> P (take n xs)"
  shows "\<forall>p q. xs = p @ q \<and> q \<noteq> [] \<longrightarrow> \<not> P p"
proof (intro allI impI)
  fix p q assume "xs = p @ q \<and> q \<noteq> []"
  with assms show "\<not> P p" by (elim allE [of _ "length p"]) auto
qed


end
