(* ===== verification/SessionQueue.thy ===== *)
theory SessionQueue
  imports Prelude
begin

text \<open>
  The session queue of \<^verbatim>\<open>thrplhttp.c\<close>: the acceptor thread of a CPU puts accepted descriptors into
  a circular buffer, the service threads take them out, with a mutex and two condition variables.
  First the buffer operations, then the threads as a step relation.
\<close>

record per_cpu_ctx =
  qsize :: nat
  rqpos :: nat
  wqpos :: nat
  qcount :: nat
  qwait :: nat
  squeue :: "int list"

definition init_per_cpu_ctx :: "nat \<Rightarrow> int list \<Rightarrow> per_cpu_ctx" where
  "init_per_cpu_ctx sz mem = \<lparr>qsize = sz, rqpos = 0, wqpos = 0, qcount = 0, qwait = 0, squeue = mem\<rparr>"

text \<open>The body of \<^verbatim>\<open>dequeue_client_session\<close> after its loop: the descriptor or -1, and whether
  \<open>dqcnd\<close> is signalled. An index outside the array faults.\<close>

definition dequeue_take :: "per_cpu_ctx \<Rightarrow> (int \<times> bool \<times> per_cpu_ctx) option" where
  "dequeue_take p = (
     if qcount p > 0 then
       if rqpos p < length (squeue p)
       then Some (squeue p ! rqpos p, qwait p > 0,
              p\<lparr>rqpos := (rqpos p + 1) mod qsize p, qcount := qcount p - 1\<rparr>)
       else None
     else Some (-1, False, p))"

text \<open>The body of \<^verbatim>\<open>queue_client_session\<close> after its loop, and whether \<open>cnd\<close> is signalled.\<close>

definition queue_put :: "int \<Rightarrow> per_cpu_ctx \<Rightarrow> (bool \<times> per_cpu_ctx) option" where
  "queue_put cfd p = (
     if qcount p < qsize p then
       if wqpos p < length (squeue p)
       then Some (True, p\<lparr>qcount := qcount p + 1, squeue := (squeue p)[wqpos p := cfd],
              wqpos := (wqpos p + 1) mod qsize p\<rparr>)
       else None
     else Some (False, p))"

definition qcontents :: "per_cpu_ctx \<Rightarrow> int list" where
  "qcontents p = map (\<lambda>i. squeue p ! ((rqpos p + i) mod qsize p)) [0..<qcount p]"

definition q_inv :: "per_cpu_ctx \<Rightarrow> bool" where
  "q_inv p \<longleftrightarrow> 0 < qsize p \<and> length (squeue p) = qsize p \<and> rqpos p < qsize p
     \<and> qcount p \<le> qsize p \<and> wqpos p = (rqpos p + qcount p) mod qsize p"

lemma init_q_inv: "0 < sz \<Longrightarrow> length mem = sz \<Longrightarrow>
  q_inv (init_per_cpu_ctx sz mem) \<and> qcontents (init_per_cpu_ctx sz mem) = []"
  by (simp add: q_inv_def init_per_cpu_ctx_def qcontents_def)

lemma length_qcontents [simp]: "length (qcontents p) = qcount p"
  by (simp add: qcontents_def)

lemma mod_add_neq:
  assumes "(i::nat) < n" "n \<le> s" "n < s" shows "(r + i) mod s \<noteq> (r + n) mod s"
proof
  assume "(r + i) mod s = (r + n) mod s"
  then have "s dvd n - i" using assms mod_eq_dvd_iff_nat [of "r + i" "r + n" s] by simp
  moreover have "0 < n - i" "n - i < s" using assms by auto
  ultimately show False by (metis nat_dvd_not_less)
qed

lemma dequeue_take_nonempty:
  assumes "q_inv p" "qcount p > 0"
  shows "\<exists>p'. dequeue_take p = Some (hd (qcontents p), qwait p > 0, p') \<and> q_inv p'
    \<and> qcontents p' = tl (qcontents p) \<and> qwait p' = qwait p \<and> qsize p' = qsize p"
proof -
  let ?p = "p\<lparr>rqpos := (rqpos p + 1) mod qsize p, qcount := qcount p - 1\<rparr>"
  have c: "[0..<qcount p] = 0 # map Suc [0..<qcount p - 1]"
    using assms(2) by (cases "qcount p") (simp_all add: upt_conv_Cons map_Suc_upt del: upt_Suc)
  have "qcontents p = (squeue p ! rqpos p) # qcontents ?p"
    using assms(1) unfolding qcontents_def c by (simp add: q_inv_def comp_def mod_simps)
  moreover obtain n where "qcount p = Suc n" using assms(2) by (cases "qcount p") auto
  with assms have "q_inv ?p" by (simp add: q_inv_def mod_simps)
  ultimately show ?thesis
    using assms by (auto simp: dequeue_take_def q_inv_def)
qed

lemma dequeue_take_empty: "qcount p = 0 \<Longrightarrow> dequeue_take p = Some (-1, False, p)"
  by (simp add: dequeue_take_def)

lemma queue_put_free:
  assumes "q_inv p" "qcount p < qsize p"
  shows "\<exists>p'. queue_put cfd p = Some (True, p') \<and> q_inv p'
    \<and> qcontents p' = qcontents p @ [cfd] \<and> qwait p' = qwait p \<and> qsize p' = qsize p"
proof -
  let ?p = "p\<lparr>qcount := qcount p + 1, squeue := (squeue p)[wqpos p := cfd], wqpos := (wqpos p + 1) mod qsize p\<rparr>"
  have w: "wqpos p < length (squeue p)" using assms(1) by (simp add: q_inv_def)
  have "(squeue p)[wqpos p := cfd] ! ((rqpos p + i) mod qsize p) = squeue p ! ((rqpos p + i) mod qsize p)"
    if "i < qcount p" for i
    using mod_add_neq [of i "qcount p" "qsize p" "rqpos p"] that assms by (simp add: q_inv_def)
  moreover have "(squeue p)[wqpos p := cfd] ! ((rqpos p + qcount p) mod qsize p) = cfd"
    using w assms(1) by (simp add: q_inv_def)
  ultimately have "qcontents ?p = qcontents p @ [cfd]"
    by (simp add: qcontents_def)
  moreover have "q_inv ?p"
    using assms by (auto simp: q_inv_def mod_simps)
  ultimately show ?thesis
    using assms(2) w by (auto simp: queue_put_def)
qed

lemma queue_put_full: "qcount p \<ge> qsize p \<Longrightarrow> queue_put cfd p = Some (False, p)"
  by (simp add: queue_put_def)

subsection \<open>The threads\<close>

text \<open>Where a service thread and the acceptor are. \<open>WEnter\<close> and \<open>AEnter\<close> lie between the test of
  the loop and the wait, \<open>WWait\<close> and \<open>AWait\<close> on the condition variable, \<open>WWoken\<close> and \<open>AWoken\<close>
  between the wake-up and the mutex.\<close>

datatype wpc = WIdle | WTest | WEnter | WWait | WWoken | WTake | WUnlock int | WRun int | WExit

datatype apc = AIdle | ALock int | ATest int | AEnter int | AWait int | AWoken int | APut int | AUnlock | AExit

datatype tid = Acceptor | Worker nat

record sys =
  ctx :: per_cpu_ctx
  owner :: "tid option"
  stopsvr :: bool
  wpcs :: "nat \<Rightarrow> wpc"
  acc :: apc
  broadcast :: bool
  pushed :: "int list"
  popped :: "int list"

definition set_w :: "nat \<Rightarrow> wpc \<Rightarrow> sys \<Rightarrow> sys" where
  "set_w w pc s = s\<lparr>wpcs := (wpcs s)(w := pc)\<rparr>"

text \<open>\<open>pthread_cond_signal\<close> of \<open>cnd\<close> wakes one waiting service thread if there is one; of \<open>dqcnd\<close>,
  the acceptor if it waits.\<close>

definition signal_cnd :: "nat \<Rightarrow> sys \<Rightarrow> sys \<Rightarrow> bool" where
  "signal_cnd n s s' \<longleftrightarrow> (\<exists>w < n. wpcs s w = WWait \<and> s' = set_w w WWoken s)
     \<or> (\<forall>w < n. wpcs s w \<noteq> WWait) \<and> s' = s"

fun wake_acc :: "apc \<Rightarrow> apc" where
  "wake_acc (AWait cfd) = AWoken cfd"
| "wake_acc a = a"

definition wake_all :: "(nat \<Rightarrow> wpc) \<Rightarrow> nat \<Rightarrow> wpc" where
  "wake_all f w = (if f w = WWait then WWoken else f w)"

text \<open>\<open>sstep n\<close>: one step of a system with \<open>n\<close> service threads, without spurious wake-ups.\<close>

inductive sstep :: "nat \<Rightarrow> sys \<Rightarrow> sys \<Rightarrow> bool" for n :: nat where
  w_lock: "\<lbrakk>w < n; wpcs s w = WIdle \<or> wpcs s w = WWoken; owner s = None\<rbrakk> \<Longrightarrow>
     sstep n s ((set_w w WTest s)\<lparr>owner := Some (Worker w)\<rparr>)"
| w_wait: "\<lbrakk>w < n; wpcs s w = WTest; \<not> stopsvr s \<and> qcount (ctx s) = 0\<rbrakk> \<Longrightarrow> sstep n s (set_w w WEnter s)"
| w_go: "\<lbrakk>w < n; wpcs s w = WTest; \<not> (\<not> stopsvr s \<and> qcount (ctx s) = 0)\<rbrakk> \<Longrightarrow> sstep n s (set_w w WTake s)"
| w_sleep: "\<lbrakk>w < n; wpcs s w = WEnter\<rbrakk> \<Longrightarrow> sstep n s ((set_w w WWait s)\<lparr>owner := None\<rparr>)"
| w_take: "\<lbrakk>w < n; wpcs s w = WTake; dequeue_take (ctx s) = Some (cfd, sig, p)\<rbrakk> \<Longrightarrow>
     sstep n s ((set_w w (WUnlock cfd) s)\<lparr>ctx := p,
       acc := (if sig then wake_acc (acc s) else acc s),
       popped := (if qcount (ctx s) > 0 then popped s @ [cfd] else popped s)\<rparr>)"
| w_unlock: "\<lbrakk>w < n; wpcs s w = WUnlock cfd\<rbrakk> \<Longrightarrow>
     sstep n s ((set_w w (if cfd = -1 then WExit else WRun cfd) s)\<lparr>owner := None\<rparr>)"
| w_done: "\<lbrakk>w < n; wpcs s w = WRun cfd\<rbrakk> \<Longrightarrow> sstep n s (set_w w WIdle s)"
| a_accept: "\<lbrakk>acc s = AIdle; \<not> stopsvr s; 0 \<le> cfd\<rbrakk> \<Longrightarrow> sstep n s (s\<lparr>acc := ALock cfd\<rparr>)"
| a_exit: "acc s = AIdle \<Longrightarrow> sstep n s (s\<lparr>acc := AExit\<rparr>)"
| a_lock: "\<lbrakk>acc s = ALock cfd; owner s = None\<rbrakk> \<Longrightarrow> sstep n s (s\<lparr>acc := ATest cfd, owner := Some Acceptor\<rparr>)"
| a_relock: "\<lbrakk>acc s = AWoken cfd; owner s = None\<rbrakk> \<Longrightarrow>
     sstep n s (s\<lparr>acc := ATest cfd, owner := Some Acceptor, ctx := (ctx s)\<lparr>qwait := qwait (ctx s) - 1\<rparr>\<rparr>)"
| a_wait: "\<lbrakk>acc s = ATest cfd; \<not> stopsvr s \<and> qsize (ctx s) \<le> qcount (ctx s)\<rbrakk> \<Longrightarrow>
     sstep n s (s\<lparr>acc := AEnter cfd, ctx := (ctx s)\<lparr>qwait := qwait (ctx s) + 1\<rparr>\<rparr>)"
| a_go: "\<lbrakk>acc s = ATest cfd; \<not> (\<not> stopsvr s \<and> qsize (ctx s) \<le> qcount (ctx s))\<rbrakk> \<Longrightarrow>
     sstep n s (s\<lparr>acc := APut cfd\<rparr>)"
| a_sleep: "acc s = AEnter cfd \<Longrightarrow> sstep n s (s\<lparr>acc := AWait cfd, owner := None\<rparr>)"
| a_put: "\<lbrakk>acc s = APut cfd; queue_put cfd (ctx s) = Some (True, p); signal_cnd n s s1\<rbrakk> \<Longrightarrow>
     sstep n s (s1\<lparr>acc := AUnlock, ctx := p, pushed := pushed s @ [cfd]\<rparr>)"
| a_drop: "\<lbrakk>acc s = APut cfd; queue_put cfd (ctx s) = Some (False, p)\<rbrakk> \<Longrightarrow>
     sstep n s (s\<lparr>acc := AUnlock, ctx := p\<rparr>)"
| a_unlock: "acc s = AUnlock \<Longrightarrow> sstep n s (s\<lparr>acc := AIdle, owner := None\<rparr>)"
| sig_int: "sstep n s (s\<lparr>stopsvr := True\<rparr>)"
| m_broadcast: "\<lbrakk>stopsvr s; \<not> broadcast s\<rbrakk> \<Longrightarrow>
     sstep n s (s\<lparr>broadcast := True, wpcs := wake_all (wpcs s)\<rparr>)"

text \<open>\<open>spurious n\<close>: a wait ends without a signal.\<close>

inductive spurious :: "nat \<Rightarrow> sys \<Rightarrow> sys \<Rightarrow> bool" for n :: nat where
  sp_worker: "\<lbrakk>w < n; wpcs s w = WWait\<rbrakk> \<Longrightarrow> spurious n s (set_w w WWoken s)"
| sp_acceptor: "acc s = AWait cfd \<Longrightarrow> spurious n s (s\<lparr>acc := AWoken cfd\<rparr>)"

definition sys_init :: "nat \<Rightarrow> int list \<Rightarrow> sys" where
  "sys_init sz mem = \<lparr>ctx = init_per_cpu_ctx sz mem, owner = None, stopsvr = False,
     wpcs = (\<lambda>w. WIdle), acc = AIdle, broadcast = False, pushed = [], popped = []\<rparr>"

inductive reachable :: "nat \<Rightarrow> sys \<Rightarrow> sys \<Rightarrow> bool" for n :: nat and s0 :: sys where
  reach_init: "reachable n s0 s0"
| reach_step: "reachable n s0 s \<Longrightarrow> sstep n s s' \<or> spurious n s s' \<Longrightarrow> reachable n s0 s'"

subsection \<open>Invariants\<close>

fun wcrit :: "wpc \<Rightarrow> bool" where
  "wcrit WTest = True"
| "wcrit WEnter = True"
| "wcrit WTake = True"
| "wcrit (WUnlock cfd) = True"
| "wcrit _ = False"

fun acrit :: "apc \<Rightarrow> bool" where
  "acrit (ATest cfd) = True"
| "acrit (AEnter cfd) = True"
| "acrit (APut cfd) = True"
| "acrit AUnlock = True"
| "acrit _ = False"

text \<open>A thread is between lock and unlock exactly if it owns the mutex.\<close>

definition mutex_inv :: "nat \<Rightarrow> sys \<Rightarrow> bool" where
  "mutex_inv n s \<longleftrightarrow> (\<forall>w < n. wcrit (wpcs s w) \<longleftrightarrow> owner s = Some (Worker w))
     \<and> (acrit (acc s) \<longleftrightarrow> owner s = Some Acceptor) \<and> (\<forall>w. owner s = Some (Worker w) \<longrightarrow> w < n)"

lemma wake_acc_crit [simp]: "acrit (wake_acc a) = acrit a"
  by (cases a) simp_all

lemma wake_all_crit [simp]: "wcrit (wake_all f w) = wcrit (f w)"
  by (simp add: wake_all_def)

lemma signal_cnd_same:
  "signal_cnd n s s' \<Longrightarrow> owner s' = owner s \<and> ctx s' = ctx s \<and> acc s' = acc s \<and> stopsvr s' = stopsvr s
    \<and> broadcast s' = broadcast s \<and> pushed s' = pushed s \<and> popped s' = popped s
    \<and> (\<forall>w < n. wcrit (wpcs s' w) = wcrit (wpcs s w))"
  by (auto simp: signal_cnd_def set_w_def split: if_splits)

lemma mutex_inv_step: "sstep n s s' \<or> spurious n s s' \<Longrightarrow> mutex_inv n s \<Longrightarrow> mutex_inv n s'"
proof (elim disjE)
  assume "sstep n s s'" "mutex_inv n s"
  then show ?thesis
    by cases (auto simp: mutex_inv_def set_w_def dest!: signal_cnd_same)
next
  assume "spurious n s s'" "mutex_inv n s"
  then show ?thesis by cases (auto simp: mutex_inv_def set_w_def)
qed

text \<open>The queue holds what was put in and not taken out, in order.\<close>

fun acc_fd :: "apc \<Rightarrow> int option" where
  "acc_fd (ALock cfd) = Some cfd"
| "acc_fd (ATest cfd) = Some cfd"
| "acc_fd (AEnter cfd) = Some cfd"
| "acc_fd (AWait cfd) = Some cfd"
| "acc_fd (AWoken cfd) = Some cfd"
| "acc_fd (APut cfd) = Some cfd"
| "acc_fd _ = None"

definition data_inv :: "sys \<Rightarrow> bool" where
  "data_inv s \<longleftrightarrow> q_inv (ctx s) \<and> pushed s = popped s @ qcontents (ctx s)
     \<and> (\<forall>c \<in> set (pushed s). 0 \<le> c) \<and> pred_option (\<lambda>c. 0 \<le> c) (acc_fd (acc s))"

lemma q_inv_qwait [simp]: "q_inv (p\<lparr>qwait := k\<rparr>) = q_inv p" "qcontents (p\<lparr>qwait := k\<rparr>) = qcontents p"
  by (simp_all add: q_inv_def qcontents_def)

lemma wake_acc_fd [simp]: "acc_fd (wake_acc a) = acc_fd a"
  by (cases a) simp_all

lemma dequeue_take_data:
  assumes "q_inv p" "dequeue_take p = Some (cfd, sig, p')"
  shows "q_inv p'" "qcontents p = (if qcount p > 0 then [cfd] else []) @ qcontents p'"
    "qsize p' = qsize p" "qwait p' = qwait p" "sig \<longleftrightarrow> qcount p > 0 \<and> qwait p > 0"
    "qcount p' = qcount p - 1" "qcount p = 0 \<Longrightarrow> cfd = -1"
proof -
  have "qcontents p \<noteq> []" if "qcount p > 0" using that by (metis length_qcontents length_0_conv less_irrefl)
  then show "q_inv p'" "qcontents p = (if qcount p > 0 then [cfd] else []) @ qcontents p'"
    "qsize p' = qsize p" "qwait p' = qwait p" "sig \<longleftrightarrow> qcount p > 0 \<and> qwait p > 0"
    "qcount p' = qcount p - 1" "qcount p = 0 \<Longrightarrow> cfd = -1"
    using assms dequeue_take_nonempty [OF assms(1)]
    by (cases "qcount p > 0"; auto simp: dequeue_take_empty dequeue_take_def split: if_splits; fail)+
qed

lemma queue_put_data:
  assumes "q_inv p" "queue_put cfd p = Some (True, p')"
  shows "q_inv p'" "qcontents p' = qcontents p @ [cfd]" "qsize p' = qsize p" "qwait p' = qwait p"
    "qcount p < qsize p" "qcount p' = qcount p + 1"
  using assms queue_put_free [OF assms(1), of cfd] by (auto simp: queue_put_def split: if_splits)

lemma data_inv_step: "sstep n s s' \<or> spurious n s s' \<Longrightarrow> data_inv s \<Longrightarrow> data_inv s'"
proof (elim disjE)
  assume "sstep n s s'" "data_inv s"
  then show ?thesis
  proof cases
    case (w_take w cfd sig p)
    with \<open>data_inv s\<close> dequeue_take_data [of "ctx s" cfd sig p] show ?thesis
      by (auto simp: data_inv_def set_w_def)
  next
    case (a_put cfd p s1)
    with \<open>data_inv s\<close> queue_put_data [of "ctx s" cfd p] show ?thesis
      by (auto simp: data_inv_def dest!: signal_cnd_same)
  next
    case (a_drop cfd p)
    with \<open>data_inv s\<close> show ?thesis
      by (auto simp: data_inv_def queue_put_def split: if_splits)
  qed (auto simp: data_inv_def set_w_def)
next
  assume "spurious n s s'" "data_inv s"
  then show ?thesis by cases (auto simp: data_inv_def set_w_def)
qed

text \<open>Who waits, and why: a service thread decides to wait only on an empty queue, the acceptor only
  on a full one, and a queue that is not empty has a service thread that does not wait.\<close>

fun acc_in_wait :: "apc \<Rightarrow> bool" where
  "acc_in_wait (AEnter cfd) = True"
| "acc_in_wait (AWait cfd) = True"
| "acc_in_wait (AWoken cfd) = True"
| "acc_in_wait _ = False"

fun acc_asleep :: "apc \<Rightarrow> bool" where
  "acc_asleep (AEnter cfd) = True"
| "acc_asleep (AWait cfd) = True"
| "acc_asleep _ = False"

definition wake_inv :: "nat \<Rightarrow> sys \<Rightarrow> bool" where
  "wake_inv n s \<longleftrightarrow> (\<forall>w < n. wpcs s w = WEnter \<longrightarrow> qcount (ctx s) = 0)
     \<and> (\<forall>w < n. wpcs s w = WTake \<longrightarrow> stopsvr s \<or> qcount (ctx s) > 0)
     \<and> (\<forall>w < n. wpcs s w = WExit \<or> wpcs s w = WUnlock (-1) \<longrightarrow> stopsvr s)
     \<and> qwait (ctx s) = (if acc_in_wait (acc s) then 1 else 0)
     \<and> (acc_asleep (acc s) \<longrightarrow> qcount (ctx s) = qsize (ctx s))
     \<and> (0 < n \<longrightarrow> qcount (ctx s) > 0 \<longrightarrow> (\<exists>w < n. wpcs s w \<noteq> WWait))"

lemma acc_wait_cases: "acc_in_wait a \<longleftrightarrow> (\<exists>c. a = AEnter c \<or> a = AWait c \<or> a = AWoken c)"
  "acc_asleep a \<longleftrightarrow> (\<exists>c. a = AEnter c \<or> a = AWait c)"
  "acc_in_wait (wake_acc a) = acc_in_wait a" "acc_asleep (wake_acc a) \<longleftrightarrow> (\<exists>c. a = AEnter c)"
  by (cases a; simp)+

lemma only_owner:
  assumes "mutex_inv n s" "w < n" "wcrit (wpcs s w)" "v < n" "v \<noteq> w"
  shows "\<not> wcrit (wpcs s v)" "\<not> acrit (acc s)"
  using assms by (auto simp: mutex_inv_def)

lemma wake_inv_take:
  assumes inv: "mutex_inv n s" "data_inv s" "wake_inv n s"
    and w: "w < n" "wpcs s w = WTake" and take: "dequeue_take (ctx s) = Some (cfd, sig, p)"
  shows "wake_inv n ((set_w w (WUnlock cfd) s)\<lparr>ctx := p, acc := (if sig then wake_acc (acc s) else acc s),
    popped := pp\<rparr>)"
proof -
  have "q_inv (ctx s)" using inv(2) by (simp add: data_inv_def)
  note d = dequeue_take_data [OF this take]
  have others: "wpcs s v \<noteq> WEnter" "wpcs s v \<noteq> WTake" "wpcs s v \<noteq> WUnlock c" if "v < n" "v \<noteq> w" for v c
    using only_owner(1) [OF inv(1) w(1) _ that] w(2) by auto
  have acc: "\<not> acrit (acc s)" using inv(1) w by (auto simp: mutex_inv_def)
  have "stopsvr s" if "cfd = -1"
  proof (rule ccontr)
    assume "\<not> stopsvr s"
    then have "qcount (ctx s) > 0" using inv(3) w by (auto simp: wake_inv_def)
    then have "cfd \<in> set (qcontents (ctx s))" using d(2) by simp
    then have "0 \<le> cfd" using inv(2) by (simp add: data_inv_def)
    with \<open>cfd = -1\<close> show False by simp
  qed
  moreover have "0 < qsize (ctx s)" using inv(2) by (simp add: data_inv_def q_inv_def)
  ultimately show ?thesis
    using inv(3) others acc d w
    by (cases "acc s") (auto simp: wake_inv_def set_w_def acc_wait_cases intro!: exI [of _ w])
qed

lemma wake_inv_put:
  assumes inv: "mutex_inv n s" "data_inv s" "wake_inv n s"
    and a: "acc s = APut cfd" and put: "queue_put cfd (ctx s) = Some (True, p)" and sig: "signal_cnd n s s1"
  shows "wake_inv n (s1\<lparr>acc := AUnlock, ctx := p, pushed := pp\<rparr>)"
proof -
  have "q_inv (ctx s)" using inv(2) by (simp add: data_inv_def)
  note d = queue_put_data [OF this put]
  have "\<not> wcrit (wpcs s1 v)" if "v < n" for v
    using inv(1) a that sig by (auto simp: mutex_inv_def dest!: signal_cnd_same)
  then have crit: "wpcs s1 v \<noteq> WEnter" "wpcs s1 v \<noteq> WTake" "wpcs s1 v \<noteq> WUnlock c" if "v < n" for v c
    using that by fastforce+
  have "\<exists>w < n. wpcs s1 w \<noteq> WWait" if "0 < n"
    using sig that by (auto simp: signal_cnd_def set_w_def)
  moreover have "stopsvr s" if "v < n" "wpcs s1 v = WExit" for v
    using sig that inv(3) by (auto simp: signal_cnd_def set_w_def wake_inv_def split: if_splits)
  ultimately show ?thesis
    using inv(3) crit d a signal_cnd_same [OF sig] by (auto simp: wake_inv_def)
qed

lemma wake_inv_step:
  assumes "sstep n s s' \<or> spurious n s s'" and inv: "mutex_inv n s" "data_inv s" "wake_inv n s"
  shows "wake_inv n s'"
  using assms(1)
proof (elim disjE)
  assume "sstep n s s'"
  then show ?thesis
  proof cases
    case (w_take w cfd sig p)
    then show ?thesis using wake_inv_take [OF inv] by simp
  next
    case (a_put cfd p s1)
    then show ?thesis using wake_inv_put [OF inv] by simp
  next
    case (w_sleep w)
    with inv(3) show ?thesis by (auto simp: wake_inv_def set_w_def)
  next
    case (a_wait cfd)
    with inv show ?thesis by (auto simp: wake_inv_def data_inv_def q_inv_def)
  next
    case m_broadcast
    with inv(3) show ?thesis by (auto simp: wake_inv_def wake_all_def split: if_splits)
  next
    case (a_drop cfd p)
    with inv(3) show ?thesis by (auto simp: wake_inv_def queue_put_def split: if_splits)
  qed (use inv(3) in \<open>auto simp: wake_inv_def set_w_def split: if_splits\<close>)
next
  assume "spurious n s s'"
  then show ?thesis
    using inv(3) by cases (auto simp: wake_inv_def set_w_def)
qed

lemma reachable_inv:
  assumes "reachable n (sys_init sz mem) s" "0 < sz" "length mem = sz"
  shows "mutex_inv n s \<and> data_inv s \<and> wake_inv n s"
  using assms(1)
proof induction
  case reach_init
  then show ?case
    using init_q_inv [OF assms(2,3)] assms(2)
    by (auto simp: sys_init_def mutex_inv_def data_inv_def wake_inv_def init_per_cpu_ctx_def)
next
  case (reach_step s s')
  then show ?case
    using mutex_inv_step data_inv_step wake_inv_step by blast
qed

subsection \<open>Properties\<close>

text \<open>The circular buffer is a bounded FIFO queue: putting a descriptor into a buffer
  that is not full appends it, taking one out of a buffer that is not empty returns the oldest; a
  full or empty buffer is left alone, and no access leaves the array.\<close>

theorem session_queue_refines:
  assumes "q_inv p"
  shows "(case qcontents p of [] \<Rightarrow> dequeue_take p = Some (-1, False, p)
      | c # cs \<Rightarrow> (\<exists>p'. dequeue_take p = Some (c, qwait p > 0, p') \<and> q_inv p' \<and> qcontents p' = cs))
    \<and> (if length (qcontents p) < qsize p
       then \<exists>p'. queue_put cfd p = Some (True, p') \<and> q_inv p' \<and> qcontents p' = qcontents p @ [cfd]
       else queue_put cfd p = Some (False, p))"
proof (intro conjI)
  show "case qcontents p of [] \<Rightarrow> dequeue_take p = Some (-1, False, p)
      | c # cs \<Rightarrow> (\<exists>p'. dequeue_take p = Some (c, qwait p > 0, p') \<and> q_inv p' \<and> qcontents p' = cs)"
  proof (cases "qcontents p")
    case Nil
    then have "qcount p = 0" using length_qcontents [of p] by simp
    with Nil show ?thesis by (simp add: dequeue_take_empty)
  next
    case (Cons c cs)
    then have "qcount p > 0" using length_qcontents [of p] by simp
    from dequeue_take_nonempty [OF assms this] Cons show ?thesis by auto
  qed
  show "if length (qcontents p) < qsize p
       then \<exists>p'. queue_put cfd p = Some (True, p') \<and> q_inv p' \<and> qcontents p' = qcontents p @ [cfd]
       else queue_put cfd p = Some (False, p)"
    using queue_put_free [OF assms, of cfd] queue_put_full [of p cfd] by auto
qed



text \<open>The shutdown can hang: \<^verbatim>\<open>main\<close> broadcasts \<open>cnd\<close> without the mutex, so a service thread
  that has tested \<open>stopsvr\<close> but does not wait yet misses it. There is a reachable state after the
  broadcast in which a service thread waits, the acceptor is gone, and no step of the program
  changes anything.\<close>

theorem session_lost_wakeup:
  assumes "0 < sz" "length mem = sz"
  shows "\<exists>s. reachable 1 (sys_init sz mem) s \<and> stopsvr s \<and> broadcast s \<and> wpcs s 0 = WWait
    \<and> (\<forall>s'. sstep 1 s s' \<longrightarrow> s' = s)"
proof -
  let ?s0 = "sys_init sz mem"
  let ?s1 = "(set_w 0 WTest ?s0)\<lparr>owner := Some (Worker 0)\<rparr>"
  let ?s2 = "set_w 0 WEnter ?s1"
  let ?s3 = "?s2\<lparr>acc := AExit\<rparr>"
  let ?s4 = "?s3\<lparr>stopsvr := True\<rparr>"
  let ?s5 = "?s4\<lparr>broadcast := True, wpcs := wake_all (wpcs ?s4)\<rparr>"
  let ?s6 = "(set_w 0 WWait ?s5)\<lparr>owner := None\<rparr>"
  have "sstep 1 ?s0 ?s1" by (rule w_lock) (simp_all add: sys_init_def)
  moreover have "sstep 1 ?s1 ?s2"
    by (rule w_wait) (simp_all add: sys_init_def set_w_def init_per_cpu_ctx_def)
  moreover have "sstep 1 ?s2 ?s3" by (rule a_exit) (simp add: sys_init_def set_w_def)
  moreover have "sstep 1 ?s3 ?s4" by (rule sig_int)
  moreover have "sstep 1 ?s4 ?s5" by (rule m_broadcast) (simp_all add: sys_init_def set_w_def)
  moreover have "sstep 1 ?s5 ?s6" by (rule w_sleep) (simp_all add: sys_init_def set_w_def wake_all_def)
  ultimately have "reachable 1 ?s0 ?s6" by (meson reach_init reach_step)
  moreover have "\<forall>s'. sstep 1 ?s6 s' \<longrightarrow> s' = ?s6"
    by (auto elim!: sstep.cases simp: set_w_def sys_init_def)
  ultimately show ?thesis by (intro exI [of _ ?s6]) (simp add: set_w_def)
qed

subsection \<open>Witnesses\<close>

definition demo_ctx :: per_cpu_ctx where
  "demo_ctx = \<lparr>qsize = 2, rqpos = 1, wqpos = 0, qcount = 1, qwait = 0, squeue = [3, 4]\<rparr>"



end
