(* ===== verification/BStream.thy ===== *)
theory BStream
  imports CStr
begin

text \<open>
  The buffered socket stream of \<^verbatim>\<open>thrplhttp.c\<close>. The counters are \<^verbatim>\<open>size_t\<close>, here 64-bit words; the
  socket is a parameter with state \<open>'d\<close>: \<open>recv n d\<close> and \<open>send bs d\<close> give \<open>None\<close> for -1. A read
  or write outside the buffer is a fault (\<open>None\<close>).
\<close>

definition BSTREAM_BUFSIZE :: nat where "BSTREAM_BUFSIZE = 1024 * 4"

record bstream =
  ridx :: u64
  bcnt :: u64
  buf :: "u8 list"

definition bstream_open :: "u8 list \<Rightarrow> bstream" where
  "bstream_open mem = \<lparr>ridx = 0, bcnt = 0, buf = mem\<rparr>"

text \<open>What \<^verbatim>\<open>recv\<close> returns as a \<^verbatim>\<open>size_t\<close>.\<close>

definition recv_count :: "u8 list option \<Rightarrow> u64" where
  "recv_count r = (case r of None \<Rightarrow> -1 | Some bs \<Rightarrow> of_nat (length bs))"

definition store_at :: "nat \<Rightarrow> u8 list \<Rightarrow> u8 list \<Rightarrow> u8 list option" where
  "store_at i bs mem = (if i + length bs \<le> length mem
     then Some (take i mem @ bs @ drop (i + length bs) mem) else None)"

definition bstream_refil ::
  "(nat \<Rightarrow> 'd \<Rightarrow> u8 list option \<times> 'd) \<Rightarrow> bstream \<Rightarrow> 'd \<Rightarrow> (u64 \<times> bstream \<times> 'd) option" where
  "bstream_refil recv b d = do {
     mem \<leftarrow> (if bcnt b > 0 \<and> ridx b > 0
            then (if unat (ridx b) + unat (bcnt b) \<le> length (buf b)
                  then store_at 0 (take (unat (bcnt b)) (drop (unat (ridx b)) (buf b))) (buf b) else None)
            else Some (buf b));
     let room = unat (of_nat BSTREAM_BUFSIZE - bcnt b);
     let (r, d) = recv room d;
     mem \<leftarrow> (case r of None \<Rightarrow> Some mem | Some bs \<Rightarrow> store_at (unat (bcnt b)) bs mem);
     let n = recv_count r;
     Some (n, \<lparr>ridx = 0, bcnt = (if n > 0 then bcnt b + n else bcnt b), buf = mem\<rparr>, d) }"

text \<open>\<^verbatim>\<open>memchr(buf + ridx, '\n', bcnt)\<close>: the distance to the newline; it faults when it would have to
  read past the end of the buffer.\<close>

definition find_eol :: "bstream \<Rightarrow> nat option option" where
  "find_eol b = (
     let seen = drop (unat (ridx b)) (buf b);
         k = length (takeWhile (\<lambda>c. c \<noteq> 10) (take (unat (bcnt b)) seen)) in
     if k < unat (bcnt b) then (if k < length seen then Some (Some k) else None) else Some None)"

definition take_line :: "nat \<Rightarrow> bstream \<Rightarrow> cstr \<times> bstream" where
  "take_line k b = (
     let i = unat (ridx b); lsize = of_nat k + 1 in
     (take k (drop i (buf b)),
      b\<lparr>buf := (buf b)[i + k := 0], bcnt := bcnt b - lsize, ridx := ridx b + lsize\<rparr>))"

definition bstream_readln ::
  "(nat \<Rightarrow> 'd \<Rightarrow> u8 list option \<times> 'd) \<Rightarrow> bstream \<Rightarrow> 'd \<Rightarrow> (cstr option \<times> bstream \<times> 'd) option" where
  "bstream_readln recv b d = do {
     eol \<leftarrow> find_eol b;
     (case eol of
        Some k \<Rightarrow> (let (ln, b) = take_line k b in Some (Some ln, b, d))
      | None \<Rightarrow> do {
          (n, b, d) \<leftarrow> bstream_refil recv b d;
          if n \<le> 0 then Some (None, b, d)
          else do {
            eol \<leftarrow> find_eol b;
            (case eol of
               None \<Rightarrow> Some (None, b, d)
             | Some k \<Rightarrow> (let (ln, b) = take_line k b in Some (Some ln, b, d))) } }) }"

definition bstream_readsome ::
  "(nat \<Rightarrow> 'd \<Rightarrow> u8 list option \<times> 'd) \<Rightarrow> nat \<Rightarrow> bstream \<Rightarrow> 'd \<Rightarrow> (u64 \<times> u8 list \<times> bstream \<times> 'd) option" where
  "bstream_readsome recv n b d = (
     if bcnt b > 0 then
       let cnt = (if bcnt b > of_nat n then of_nat n else bcnt b) in
       (if unat (ridx b) + unat cnt \<le> length (buf b)
        then Some (cnt, take (unat cnt) (drop (unat (ridx b)) (buf b)),
               b\<lparr>ridx := ridx b + cnt, bcnt := bcnt b - cnt\<rparr>, d)
        else None)
     else let (r, d) = recv n d in
       Some (recv_count r, (case r of None \<Rightarrow> [] | Some bs \<Rightarrow> bs), b, d))"

subsection \<open>The pending bytes\<close>

definition pending :: "bstream \<Rightarrow> u8 list" where
  "pending b = take (unat (bcnt b)) (drop (unat (ridx b)) (buf b))"

definition b_inv :: "bstream \<Rightarrow> bool" where
  "b_inv b \<longleftrightarrow> length (buf b) = BSTREAM_BUFSIZE \<and> unat (ridx b) + unat (bcnt b) \<le> BSTREAM_BUFSIZE"

lemma length_pending: "b_inv b \<Longrightarrow> length (pending b) = unat (bcnt b)"
  by (auto simp: pending_def b_inv_def)

lemma find_eol_pending:
  assumes "b_inv b"
  shows "find_eol b = Some (if 10 \<in> set (pending b)
     then Some (length (takeWhile (\<lambda>c. c \<noteq> 10) (pending b))) else None)"
proof -
  let ?k = "length (takeWhile (\<lambda>c. c \<noteq> 10) (pending b))"
  have "?k < unat (bcnt b) \<longleftrightarrow> 10 \<in> set (pending b)"
    using takeWhile_shorter [of "\<lambda>c. c \<noteq> 10" "pending b"] length_pending [OF assms] by auto
  moreover have "?k < unat (bcnt b) \<Longrightarrow> ?k < length (drop (unat (ridx b)) (buf b))"
    using assms by (auto simp: b_inv_def)
  ultimately show ?thesis by (auto simp: find_eol_def Let_def pending_def [symmetric])
qed

lemma take_line_pending:
  assumes "b_inv b" "10 \<in> set (pending b)" "k = length (takeWhile (\<lambda>c. c \<noteq> 10) (pending b))"
  shows "\<exists>b'. take_line k b = (takeWhile (\<lambda>c. c \<noteq> 10) (pending b), b') \<and> b_inv b'
    \<and> pending b' = drop (Suc k) (pending b)"
proof -
  let ?i = "unat (ridx b)" and ?n = "unat (bcnt b)"
  have k: "k < ?n"
    using takeWhile_shorter [of "\<lambda>c. c \<noteq> 10" "pending b"] length_pending [OF assms(1)] assms(2,3) by auto
  have bd: "?i + ?n \<le> 4096" "length (buf b) = 4096"
    using assms(1) by (simp_all add: b_inv_def BSTREAM_BUFSIZE_def)
  have lsize: "unat (of_nat k + 1 :: u64) = Suc k"
  proof -
    have "of_nat k + 1 = (of_nat (Suc k) :: u64)" by simp
    then show ?thesis using k bd by (simp only: unat_of_nat) simp
  qed
  have idx: "unat (ridx b + (of_nat k + 1)) = ?i + Suc k" "unat (bcnt b - (of_nat k + 1)) = ?n - Suc k"
    using k bd lsize by (simp_all add: unat_word_ariths(1) unat_sub_if_size word_le_nat_alt)
  have "take k (drop ?i (buf b)) = takeWhile (\<lambda>c. c \<noteq> 10) (pending b)"
  proof -
    have "takeWhile (\<lambda>c. c \<noteq> 10) (pending b) = take k (pending b)"
      unfolding assms(3) by (rule takeWhile_eq_take)
    then show ?thesis using k by (simp add: pending_def min_absorb1)
  qed
  moreover have "drop (?i + Suc k) ((buf b)[?i + k := 0]) = drop (?i + Suc k) (buf b)" by simp
  then have "take (?n - Suc k) (drop (?i + Suc k) ((buf b)[?i + k := 0])) = drop (Suc k) (pending b)"
    by (simp add: pending_def drop_take add.commute)
  ultimately show ?thesis
    using bd idx k by (simp add: take_line_def Let_def b_inv_def pending_def BSTREAM_BUFSIZE_def)
qed

lemma bstream_refil_ok:
  assumes "b_inv b" "recv (BSTREAM_BUFSIZE - unat (bcnt b)) d = (Some bs, d')"
    and "length bs \<le> BSTREAM_BUFSIZE - unat (bcnt b)"
  shows "\<exists>b'. bstream_refil recv b d = Some (of_nat (length bs), b', d') \<and> b_inv b'
    \<and> pending b' = pending b @ bs"
proof -
  let ?i = "unat (ridx b)" and ?n = "unat (bcnt b)"
  have bd: "?i + ?n \<le> 4096" "length (buf b) = 4096"
    using assms(1) by (simp_all add: b_inv_def BSTREAM_BUFSIZE_def)
  define mem where "mem = (if bcnt b > 0 \<and> ridx b > 0 then pending b @ drop ?n (buf b) else buf b)"
  have mem: "(if bcnt b > 0 \<and> ridx b > 0
      then (if unat (ridx b) + unat (bcnt b) \<le> length (buf b)
            then store_at 0 (take (unat (bcnt b)) (drop (unat (ridx b)) (buf b))) (buf b) else None)
      else Some (buf b)) = Some mem"
    using bd by (simp add: mem_def store_at_def pending_def)
  have mp: "length mem = 4096" "take ?n mem = pending b"
    using bd length_pending [OF assms(1)] by (auto simp: mem_def pending_def word_neq_0_conv [symmetric])
  have room: "unat (of_nat BSTREAM_BUFSIZE - bcnt b) = BSTREAM_BUFSIZE - ?n"
    using bd by (simp add: unat_sub_if_size BSTREAM_BUFSIZE_def word_le_nat_alt)
  have st: "store_at ?n bs mem = Some (pending b @ bs @ drop (?n + length bs) mem)"
    using assms(3) mp bd by (simp add: store_at_def BSTREAM_BUFSIZE_def)
  have len: "unat (of_nat (length bs) :: u64) = length bs"
    using assms(3) by (simp add: unat_of_nat BSTREAM_BUFSIZE_def)
  have cnt: "unat (bcnt b + of_nat (length bs)) = ?n + length bs"
    using assms(3) bd len by (simp add: unat_word_ariths(1) BSTREAM_BUFSIZE_def)
  let ?b = "\<lparr>ridx = 0, bcnt = bcnt b + of_nat (length bs), buf = pending b @ bs @ drop (?n + length bs) mem\<rparr>"
  have "bstream_refil recv b d = Some (of_nat (length bs), ?b, d')"
    unfolding bstream_refil_def mem room
    using st by (auto simp: assms(2) recv_count_def Let_def word_neq_0_conv [symmetric])
  moreover have "b_inv ?b" "pending ?b = pending b @ bs"
    using cnt assms(3) mp length_pending [OF assms(1)] bd
    by (simp_all add: b_inv_def pending_def [of ?b] BSTREAM_BUFSIZE_def)
  ultimately show ?thesis by blast
qed

lemma bstream_readln_recv:
  assumes "b_inv b" "10 \<notin> set (pending b)"
    and "recv (BSTREAM_BUFSIZE - unat (bcnt b)) d = (Some bs, d')"
    and "length bs \<le> BSTREAM_BUFSIZE - unat (bcnt b)"
  shows "\<exists>b'. b_inv b' \<and> (case dropWhile (\<lambda>c. c \<noteq> 10) bs of
      [] \<Rightarrow> bstream_readln recv b d = Some (None, b', d') \<and> pending b' = pending b @ bs
    | nl # rest \<Rightarrow> bstream_readln recv b d = Some (Some (pending b @ takeWhile (\<lambda>c. c \<noteq> 10) bs), b', d')
        \<and> pending b' = rest)"
proof -
  obtain b1 where b1: "bstream_refil recv b d = Some (of_nat (length bs), b1, d')" "b_inv b1"
    "pending b1 = pending b @ bs"
    using bstream_refil_ok [where recv = recv, OF assms(1,3,4)] by blast
  have z: "(of_nat (length bs) :: u64) = 0 \<longleftrightarrow> bs = []"
    using assms(4) by (simp add: word_unat_eq_iff unat_of_nat BSTREAM_BUFSIZE_def)
  have tw: "takeWhile (\<lambda>c. c \<noteq> 10) (pending b @ bs) = pending b @ takeWhile (\<lambda>c. c \<noteq> 10) bs"
    using assms(2) by (intro takeWhile_append2) auto
  note e0 = find_eol_pending [OF assms(1)] and e1 = find_eol_pending [OF b1(2)]
  show ?thesis
  proof (cases "10 \<in> set bs")
    case False
    then have dw: "dropWhile (\<lambda>c. c \<noteq> 10) bs = []" by auto
    have "10 \<notin> set (pending b1)" using False assms(2) b1(3) by simp
    then have "bstream_readln recv b d = Some (None, b1, d')"
      using b1(1) z e0 e1 assms(2) by (simp add: bstream_readln_def)
    then show ?thesis using b1(2,3) by (auto simp: dw)
  next
    case True
    let ?k = "length (pending b @ takeWhile (\<lambda>c. c \<noteq> 10) bs)"
    have in1: "10 \<in> set (pending b1)" using True b1(3) by simp
    have k1: "?k = length (takeWhile (\<lambda>c. c \<noteq> 10) (pending b1))" using b1(3) tw by simp
    obtain b2 where b2: "take_line ?k b1 = (takeWhile (\<lambda>c. c \<noteq> 10) (pending b1), b2)" "b_inv b2"
      "pending b2 = drop (Suc ?k) (pending b1)"
      using take_line_pending [OF b1(2) in1 k1] by blast
    have dw: "dropWhile (\<lambda>c. c \<noteq> 10) bs = 10 # drop (Suc (length (takeWhile (\<lambda>c. c \<noteq> 10) bs))) bs"
      using takeWhile_split [OF True] takeWhile_dropWhile_id [of "\<lambda>c. c \<noteq> 10" bs] by (metis same_append_eq)
    have "bs \<noteq> []" using True by auto
    then have "bstream_readln recv b d = Some (Some (pending b @ takeWhile (\<lambda>c. c \<noteq> 10) bs), b2, d')"
      using b1 z e0 e1 assms(2) True b2(1) tw by (simp add: bstream_readln_def)
    then show ?thesis using b2 b1(3) by (auto simp: dw)
  qed
qed

lemma bstream_open_inv:
  "b_inv (bstream_open (replicate BSTREAM_BUFSIZE c))" "pending (bstream_open mem) = []"
  by (simp_all add: b_inv_def pending_def bstream_open_def)

lemma bstream_readln_first:
  assumes "recv BSTREAM_BUFSIZE d = (Some (l @ 10 # rest), d')" "length (l @ 10 # rest) \<le> BSTREAM_BUFSIZE" "10 \<notin> set l"
  shows "\<exists>b. bstream_readln recv (bstream_open (replicate BSTREAM_BUFSIZE 0)) d = Some (Some l, b, d') \<and> b_inv b \<and> pending b = rest"
proof -
  let ?b = "bstream_open (replicate BSTREAM_BUFSIZE 0)"
  have b: "10 \<notin> set (pending ?b)" "bcnt ?b = 0" "pending ?b = []" by (simp_all add: pending_def bstream_open_def)
  have "takeWhile (\<lambda>c. c \<noteq> 10) (l @ 10 # rest) = l" using assms(3) by (simp add: takeWhile_stop takeWhile_neq)
  moreover from this have "dropWhile (\<lambda>c. c \<noteq> 10) (l @ 10 # rest) = 10 # rest"
    by (metis same_append_eq takeWhile_dropWhile_id)
  ultimately show ?thesis
    using bstream_readln_recv [OF bstream_open_inv(1) [of 0] b(1), of recv d "l @ 10 # rest" d'] assms(1,2) b by auto
qed

lemma bstream_readln_pending:
  assumes "b_inv b" "pending b = l @ 10 # rest" "10 \<notin> set l"
  shows "\<exists>b'. bstream_readln recv b d = Some (Some l, b', d) \<and> b_inv b' \<and> pending b' = rest"
proof -
  have tw: "takeWhile (\<lambda>c. c \<noteq> 10) (pending b) = l" using assms(2,3) by (simp add: takeWhile_stop takeWhile_neq)
  have "10 \<in> set (pending b)" using assms(2) by simp
  then obtain b' where "take_line (length l) b = (l, b')" "b_inv b'" "pending b' = rest"
    using take_line_pending [OF assms(1), of "length l"] tw assms(2) by auto
  then show ?thesis
    using find_eol_pending [OF assms(1)] \<open>10 \<in> set (pending b)\<close> tw by (simp add: bstream_readln_def)
qed

subsection \<open>Properties\<close>


text \<open>When \<^verbatim>\<open>recv\<close> fails on an empty stream whose buffer holds no newline, \<^verbatim>\<open>bstream_readln\<close>
  reads past the end of its buffer: the -1 in a \<^verbatim>\<open>size_t\<close> is taken for a count.\<close>

theorem bstream_readln_error:
  assumes "length (buf b) = BSTREAM_BUFSIZE" "bcnt b = 0" "ridx b = 0" "10 \<notin> set (buf b)"
    and "recv BSTREAM_BUFSIZE d = (None, d')"
  shows "bstream_readln recv b d = None"
proof -
  have r: "unat (of_nat BSTREAM_BUFSIZE - 0 :: u64) = BSTREAM_BUFSIZE" by (simp add: BSTREAM_BUFSIZE_def)
  let ?b = "\<lparr>ridx = 0, bcnt = -1, buf = buf b\<rparr>"
  have "bstream_refil recv b d = Some (-1, ?b, d')"
    using assms r by (simp add: bstream_refil_def recv_count_def Let_def word_neq_0_conv [symmetric])
  moreover have "find_eol b = Some None" using assms(2) by (simp add: find_eol_def Let_def)
  moreover have "find_eol ?b = None"
  proof -
    have u: "unat (-1 :: u64) = 2 ^ 64 - 1" by (simp add: unsigned_minus_1_eq_mask mask_eq_exp_minus_1)
    have "takeWhile (\<lambda>c. c \<noteq> 10) (buf b) = buf b" using assms(4) by (auto simp: takeWhile_eq_all_conv)
    then show ?thesis
      using assms(1) u by (simp add: find_eol_def Let_def BSTREAM_BUFSIZE_def del: takeWhile_eq_all_conv)
  qed
  ultimately show ?thesis by (simp add: bstream_readln_def)
qed


subsection \<open>Reading a block\<close>

text \<open>\<^verbatim>\<open>buf\<close> and \<^verbatim>\<open>cnt\<close> of the loop move together, so that the pointer is \<open>cnt\<close> bytes behind the start of the block \<open>dst\<close>.\<close>

partial_function (option) bstream_read_loop ::
  "(nat \<Rightarrow> 'd \<Rightarrow> u8 list option \<times> 'd) \<Rightarrow> u64 \<Rightarrow> u64 \<Rightarrow> u8 list \<Rightarrow> bstream \<Rightarrow> 'd \<Rightarrow> (u64 \<times> u8 list \<times> bstream \<times> 'd) option" where
  "bstream_read_loop recv n cnt dst b d = (
     if cnt < n then do {
       (acnt, bs, b, d) \<leftarrow> bstream_readsome recv (unat (n - cnt)) b d;
       dst \<leftarrow> store_at (unat cnt) bs dst;
       if acnt \<le> 0 then Some (cnt, dst, b, d) else bstream_read_loop recv n (cnt + acnt) dst b d }
     else Some (cnt, dst, b, d))"

definition bstream_read ::
  "(nat \<Rightarrow> 'd \<Rightarrow> u8 list option \<times> 'd) \<Rightarrow> u64 \<Rightarrow> u8 list \<Rightarrow> bstream \<Rightarrow> 'd \<Rightarrow> (u64 \<times> u8 list \<times> bstream \<times> 'd) option" where
  "bstream_read recv n dst b d = bstream_read_loop recv n 0 dst b d"

text \<open>A peer that sends \<open>left d\<close> and then ends: a \<^verbatim>\<open>recv\<close> gives at least one byte of what is left, and nothing only at the end.\<close>

definition gives_all :: "(nat \<Rightarrow> 'd \<Rightarrow> u8 list option \<times> 'd) \<Rightarrow> ('d \<Rightarrow> u8 list) \<Rightarrow> bool" where
  "gives_all recv left \<longleftrightarrow> (\<forall>n d. 0 < n \<longrightarrow> (\<exists>k d'. recv n d = (Some (take k (left d)), d') \<and> left d' = drop k (left d)
     \<and> k \<le> n \<and> (left d \<noteq> [] \<longrightarrow> 0 < k)))"

lemma bstream_readsome_ok:
  assumes G: "gives_all recv left" and b: "b_inv b" and n: "0 < n" "n < 2 ^ 64"
  shows "\<exists>k b' d'. bstream_readsome recv n b d = Some (of_nat k, take k (pending b @ left d), b', d') \<and> k \<le> n \<and> b_inv b'
    \<and> k \<le> length (pending b @ left d) \<and> pending b' @ left d' = drop k (pending b @ left d) \<and> (pending b @ left d \<noteq> [] \<longrightarrow> 0 < k)"
proof (cases "bcnt b > 0")
  case True
  define c where "c = (if bcnt b > of_nat n then of_nat n else bcnt b)"
  have bd: "unat (ridx b) + unat (bcnt b) \<le> 4096" "length (buf b) = 4096" using b by (simp_all add: b_inv_def BSTREAM_BUFSIZE_def)
  have un: "unat (of_nat n :: u64) = n" using n(2) by (simp add: unat_of_nat)
  have c: "unat c = min n (unat (bcnt b))" using un by (simp add: c_def word_less_nat_alt)
  have le: "c \<le> bcnt b" using c by (simp add: word_le_nat_alt)
  have idx: "unat (ridx b + c) = unat (ridx b) + unat c" "unat (bcnt b - c) = unat (bcnt b) - unat c"
    using bd c le by (simp_all add: unat_word_ariths(1) unat_sub)
  have p: "length (pending b) = unat (bcnt b)" by (rule length_pending [OF b])
  let ?b = "b\<lparr>ridx := ridx b + c, bcnt := bcnt b - c\<rparr>"
  have "pending ?b = drop (unat c) (pending b)" by (simp add: pending_def idx drop_take) (simp add: add.commute)
  moreover have "take (unat c) (drop (unat (ridx b)) (buf b)) = take (unat c) (pending b)" using c by (simp add: pending_def min_absorb1)
  moreover have "b_inv ?b" using bd c by (simp add: b_inv_def BSTREAM_BUFSIZE_def idx)
  moreover have "0 < unat c" using c n(1) True by (simp add: word_less_nat_alt)
  moreover have "unat c \<le> n" "unat c \<le> length (pending b)" "unat (ridx b) + unat c \<le> length (buf b)" using c p bd by simp_all
  ultimately show ?thesis using True
    by (intro exI [of _ "unat c"] exI [of _ ?b] exI [of _ d]) (simp add: bstream_readsome_def Let_def c_def [symmetric])
next
  case False
  then have p: "pending b = []" by (simp add: pending_def word_less_nat_alt)
  obtain k d' where k: "recv n d = (Some (take k (left d)), d')" "left d' = drop k (left d)" "k \<le> n" "left d \<noteq> [] \<longrightarrow> 0 < k"
    using G n(1) unfolding gives_all_def by blast
  let ?k = "min k (length (left d))"
  have "take ?k (left d) = take k (left d)" "drop ?k (left d) = drop k (left d)" by (simp_all add: min_def)
  then show ?thesis using False k p b
    by (intro exI [of _ ?k] exI [of _ b] exI [of _ d']) (simp add: bstream_readsome_def recv_count_def min.commute)
qed

lemma store_at_ok: "i + length bs \<le> length mem \<Longrightarrow> store_at i bs mem = Some (take i mem @ bs @ drop (i + length bs) mem)"
  by (simp add: store_at_def)

lemma splice_parts:
  assumes "length xs = k" "i \<le> length mem"
  shows "take (i + k) (take i mem @ xs @ drop (i + k) mem) = take i mem @ xs"
    "drop (i + k + m) (take i mem @ xs @ drop (i + k) mem) = drop (i + k + m) mem"
  using assms by (auto simp: add.commute)

text \<open>\<^verbatim>\<open>bstream_read\<close> fills the block with the next \<open>n\<close> bytes of the stream, buffered ones first, or with all there are, leaves the rest of the
  block and of the stream alone, and returns how many it has read.\<close>

lemma bstream_read_loop_all:
  assumes G: "gives_all recv left" and "length dst \<ge> unat n" "b_inv b" "i \<le> unat n"
  shows "\<exists>b' d'. let m = min (unat n - i) (length (pending b @ left d)) in
    bstream_read_loop recv n (of_nat i) dst b d = Some (of_nat (i + m), take i dst @ take m (pending b @ left d) @ drop (i + m) dst, b', d')
    \<and> b_inv b' \<and> pending b' @ left d' = drop m (pending b @ left d)"
  using assms(2-4)
proof (induction "unat n - i" arbitrary: i dst b d rule: less_induct)
  case less
  define S where "S = pending b @ left d"
  have n64: "unat n < 2 ^ 64" using unsigned_less [of n] by simp
  have u: "unat (of_nat j :: u64) = j" if "j \<le> unat n" for j using that n64 by (simp add: unat_of_nat)
  show ?case
  proof (cases "i = unat n")
    case True
    then show ?thesis using less.prems by (subst bstream_read_loop.simps) (simp add: Let_def)
  next
    case False
    then have lt: "i < unat n" using less.prems(3) by simp
    then have c: "of_nat i < n" "unat (n - of_nat i) = unat n - i" using u [of i] by (simp_all add: word_less_nat_alt unat_sub word_le_nat_alt)
    have r: "0 < unat n - i" "unat n - i < 2 ^ 64" using lt n64 by linarith+
    obtain k b1 d1 where k: "bstream_readsome recv (unat n - i) b d = Some (of_nat k, take k S, b1, d1)" "k \<le> unat n - i" "b_inv b1"
      "k \<le> length S" "pending b1 @ left d1 = drop k S" "S \<noteq> [] \<longrightarrow> 0 < k"
      using bstream_readsome_ok [OF G less.prems(2) r, of d] unfolding S_def by blast
    let ?D = "take i dst @ take k S @ drop (i + k) dst"
    have l: "length (take k S) = k" using k(4) by simp
    have s: "store_at i (take k S) dst = Some ?D" using store_at_ok [of i "take k S" dst] l k(2) less.prems(1) lt by (simp only: l)
    show ?thesis
    proof (cases "k = 0")
      case True
      then have e: "S = []" using k(6) by blast
      have "bstream_read_loop recv n (of_nat i) dst b d = Some (of_nat i, ?D, b1, d1)"
        using c k(1) s True u [of i] lt by (subst bstream_read_loop.simps) simp
      then show ?thesis using e k(3,5) True unfolding S_def [symmetric] by (auto simp: Let_def)
    next
      case False
      have step: "bstream_read_loop recv n (of_nat i) dst b d = bstream_read_loop recv n (of_nat (i + k)) ?D b1 d1"
        using c k(1,2) s False u [of i] u [of k] lt
        by (subst bstream_read_loop.simps) (simp add: word_le_nat_alt)
      have p: "unat n - (i + k) < unat n - i" "length ?D \<ge> unat n" "i + k \<le> unat n" using False lt k(2,4) less.prems(1) by auto
      obtain b' d' where IH: "let m = min (unat n - (i + k)) (length (pending b1 @ left d1)) in
          bstream_read_loop recv n (of_nat (i + k)) ?D b1 d1
            = Some (of_nat (i + k + m), take (i + k) ?D @ take m (pending b1 @ left d1) @ drop (i + k + m) ?D, b', d')
          \<and> b_inv b' \<and> pending b' @ left d' = drop m (pending b1 @ left d1)"
        using less.hyps [OF p(1) p(2) k(3) p(3)] by blast
      let ?m = "min (unat n - (i + k)) (length (drop k S))"
      have m: "k + ?m = min (unat n - i) (length S)" using k(2,4) by auto
      have D: "take (i + k) ?D = take i dst @ take k S" "drop (i + k + ?m) ?D = drop (i + k + ?m) dst"
        by (rule splice_parts [OF l]; use less.prems(1) lt in simp)+
      have t: "take k S @ take ?m (drop k S) = take (k + ?m) S" by (simp only: take_add)
      have e: "take (i + k) ?D @ take ?m (drop k S) @ drop (i + k + ?m) ?D = take i dst @ take (k + ?m) S @ drop (i + (k + ?m)) dst"
        unfolding D t [symmetric] by (simp only: append_assoc add.assoc)
      have dd: "drop ?m (drop k S) = drop (k + ?m) S" by (simp add: add.commute)
      show ?thesis unfolding step Let_def S_def [symmetric] m [symmetric]
        using IH [unfolded k(5) Let_def, unfolded e dd, unfolded add.assoc] by blast
    qed
  qed
qed

theorem bstream_read_exact:
  assumes "gives_all recv left" "length dst \<ge> unat n" "b_inv b"
  shows "\<exists>b' d'. let m = min (unat n) (length (pending b @ left d)) in
    bstream_read recv n dst b d = Some (of_nat m, take m (pending b @ left d) @ drop m dst, b', d')
    \<and> b_inv b' \<and> pending b' @ left d' = drop m (pending b @ left d)"
  using bstream_read_loop_all [OF assms, of 0 d] by (simp add: bstream_read_def)

text \<open>An error of \<^verbatim>\<open>recv\<close> at the start is returned as the largest \<^verbatim>\<open>size_t\<close>.\<close>

theorem bstream_read_error:
  assumes "bcnt b = 0" "0 < n" "recv (unat n) d = (None, d')"
  shows "bstream_read recv n dst b d = Some (- 1, dst, b, d')"
proof -
  have "\<not> (- 1 :: u64) < n" by (simp add: not_less)
  then show ?thesis using assms unfolding bstream_read_def
    by (subst bstream_read_loop.simps, subst bstream_read_loop.simps) (simp add: bstream_readsome_def recv_count_def store_at_def)
qed

subsection \<open>Writing\<close>

text \<open>The loop of \<^verbatim>\<open>bstream_write\<close>: \<open>buf\<close> is what the pointer reaches, \<open>cnt\<close> a \<^verbatim>\<open>size_t\<close>. A failing
  \<^verbatim>\<open>send\<close> is not seen as such (\<open>acnt < 0\<close> is false for a \<^verbatim>\<open>size_t\<close>): the count and the pointer go
  back by one. \<open>data\<close> and \<open>off\<close> are the array and the pointer's offset in it.\<close>

partial_function (option) bstream_write_loop ::
  "(u8 list \<Rightarrow> 'd \<Rightarrow> nat option \<times> 'd) \<Rightarrow> u8 list \<Rightarrow> u64 \<Rightarrow> int \<Rightarrow> u64 \<Rightarrow> 'd \<Rightarrow> (u64 \<times> 'd) option" where
  "bstream_write_loop send data n off cnt d = (
     if cnt < n then
       if off < 0 \<or> off + int (unat (n - cnt)) > int (length data) then None
       else case send (take (unat (n - cnt)) (drop (nat off) data)) d of
         (None, d) \<Rightarrow> bstream_write_loop send data n (off - 1) (cnt - 1) d
       | (Some k, d) \<Rightarrow> bstream_write_loop send data n (off + int k) (cnt + of_nat k) d
     else Some (cnt, d))"

definition bstream_write ::
  "(u8 list \<Rightarrow> 'd \<Rightarrow> nat option \<times> 'd) \<Rightarrow> u8 list \<Rightarrow> 'd \<Rightarrow> (u64 \<times> 'd) option" where
  "bstream_write send data d = bstream_write_loop send data (of_nat (length data)) 0 0 d"

text \<open>A socket that takes at least one byte of what it is offered, in order, and never fails: \<open>sent\<close>
  is what has been sent so far, \<open>keep\<close> a part of its state that sending leaves alone.\<close>

definition sends_all :: "(u8 list \<Rightarrow> 'd \<Rightarrow> nat option \<times> 'd) \<Rightarrow> ('d \<Rightarrow> u8 list) \<Rightarrow> ('d \<Rightarrow> 'k) \<Rightarrow> bool" where
  "sends_all send sent keep \<longleftrightarrow> (\<forall>bs d. bs \<noteq> [] \<longrightarrow>
     (\<exists>k d'. send bs d = (Some k, d') \<and> 0 < k \<and> k \<le> length bs \<and> sent d' = sent d @ take k bs \<and> keep d' = keep d))"

lemma bstream_write_loop_all:
  assumes S: "sends_all send sent keep" and "length data < 2 ^ 64" "i \<le> length data"
  shows "\<exists>d'. bstream_write_loop send data (of_nat (length data)) (int i) (of_nat i) d
      = Some (of_nat (length data), d') \<and> sent d' = sent d @ drop i data \<and> keep d' = keep d"
  using assms(3)
proof (induction "length data - i" arbitrary: i d rule: less_induct)
  case less
  let ?n = "of_nat (length data) :: u64"
  have u: "unat (of_nat j :: u64) = j" if "j \<le> length data" for j
    using that assms(2) by (simp add: unat_of_nat)
  show ?case
  proof (cases "i = length data")
    case True
    then show ?thesis by (subst bstream_write_loop.simps) simp
  next
    case False
    then have lt: "i < length data" using less.prems by simp
    have d: "unat (?n - of_nat i) = length data - i"
      using u [of i] u [of "length data"] lt by (simp add: unat_sub_if_size word_le_nat_alt)
    have less: "of_nat i < ?n" using u [of i] u [of "length data"] lt by (simp add: word_less_nat_alt)
    obtain k d1 where k: "send (drop i data) d = (Some k, d1)" "0 < k" "k \<le> length (drop i data)"
      "sent d1 = sent d @ take k (drop i data)" "keep d1 = keep d"
      using S lt unfolding sends_all_def by (metis drop_eq_Nil not_le)
    have step: "bstream_write_loop send data ?n (int i) (of_nat i) d =
        bstream_write_loop send data ?n (int (i + k)) (of_nat (i + k)) d1"
      using less d k lt by (subst bstream_write_loop.simps) simp
    have "length data - (i + k) < length data - i" "i + k \<le> length data" using k lt by auto
    then obtain d' where d': "bstream_write_loop send data ?n (int (i + k)) (of_nat (i + k)) d1
        = Some (?n, d')" "sent d' = sent d1 @ drop (i + k) data" "keep d' = keep d1"
      using less.hyps by blast
    have "take k (drop i data) @ drop (i + k) data = drop i data"
      by (metis add.commute append_take_drop_id drop_drop)
    then show ?thesis using step d' k(4,5) by (auto simp: append_assoc)
  qed
qed

lemma bstream_write_ok:
  assumes "sends_all send sent keep" "length data < 2 ^ 64"
  shows "\<exists>d'. bstream_write send data d = Some (of_nat (length data), d') \<and> sent d' = sent d @ data \<and> keep d' = keep d"
  using bstream_write_loop_all [OF assms, of 0 d] by (simp add: bstream_write_def)

text \<open>A peer that takes up to \<open>c + 1\<close> bytes of a \<^verbatim>\<open>send\<close>, for the next \<open>c\<close> of a list, and all of them
  once the list is used up.\<close>

fun take_send :: "u8 list \<Rightarrow> nat list \<times> u8 list \<Rightarrow> nat option \<times> nat list \<times> u8 list" where
  "take_send bs ([], got) = (Some (length bs), [], got @ bs)"
| "take_send bs (c # cs, got) = (Some (min (length bs) (Suc c)), cs, got @ take (Suc c) bs)"

lemma take_send_all: "sends_all take_send snd (\<lambda>d. ())"
  unfolding sends_all_def
proof (intro allI impI)
  fix bs :: "u8 list" and d :: "nat list \<times> u8 list" assume "bs \<noteq> []"
  then show "\<exists>k d'. take_send bs d = (Some k, d') \<and> 0 < k \<and> k \<le> length bs \<and> snd d' = snd d @ take k bs \<and> () = ()"
    by (cases "(bs, d)" rule: take_send.cases) (auto simp: min_def)
qed

end
