(* ===== verification/Http.thy ===== *)
theory Http
  imports BStream
begin

text \<open>
  The sessions of \<^verbatim>\<open>thrplhttp.c\<close>: the request line, the headers, the responses. The socket, the files and the stop
  flag are parameters; \<open>'d\<close> is the state of the socket.
\<close>

record 'd net =
  n_recv :: "nat \<Rightarrow> 'd \<Rightarrow> u8 list option \<times> 'd"
  n_send :: "u8 list \<Rightarrow> 'd \<Rightarrow> nat option \<times> 'd"
  n_sendfile :: "u8 list \<Rightarrow> 'd \<Rightarrow> int \<times> 'd"

datatype tx_modes = TX_SENDFILE | TX_MMAP

record server =
  rootfs :: cstr
  txmode :: tx_modes
  files :: "cstr \<Rightarrow> u8 list option"

record 'd session =
  bstr :: bstream
  sock :: 'd
  reqs :: u64
  tbytes :: u64

text \<open>A function returns its value, or the process exits (in the wrappers of the system calls).\<close>

datatype 'a outcome = Ret 'a | Exit int

definition crlf :: cstr where "crlf = [13, 10]"

subsection \<open>Responses\<close>

definition bstream_printf :: "'d net \<Rightarrow> cstr \<Rightarrow> 'd session \<Rightarrow> 'd session option" where
  "bstream_printf net wstr s = do {
     (cnt, d) \<leftarrow> bstream_write (n_send net) wstr (sock s);
     Some (s\<lparr>sock := d\<rparr>) }"

definition response_head :: "cstr \<Rightarrow> cstr \<Rightarrow> cstr \<Rightarrow> int \<Rightarrow> cstr" where
  "response_head ver status cclose len = ver @ [32] @ status @ crlf @ bytes ''Connection: '' @ cclose @ crlf
     @ bytes ''Content-Length: '' @ fmt_d len @ crlf @ crlf"

definition sendfile_tx :: "'d net \<Rightarrow> u8 list \<Rightarrow> 'd \<Rightarrow> int \<times> 'd" where
  "sendfile_tx net doc d = (case n_sendfile net doc d of
      (cnt, d) \<Rightarrow> (if cnt \<noteq> int (length doc) then -1 else 0, d))"

text \<open>\<^verbatim>\<open>mmap\<close> of no bytes fails, and \<^verbatim>\<open>xmmap\<close> exits then.\<close>

definition mmap_tx :: "'d net \<Rightarrow> u8 list \<Rightarrow> 'd \<Rightarrow> (int outcome \<times> 'd) option" where
  "mmap_tx net doc d = (if doc = [] then Some (Exit 1, d)
     else do {
       (txcnt, d) \<leftarrow> bstream_write (n_send net) doc d;
       Some (Ret (if txcnt = of_nat (length doc) then 0 else -1), d) })"

definition send_doc :: "server \<Rightarrow> 'd net \<Rightarrow> cstr \<Rightarrow> cstr \<Rightarrow> cstr \<Rightarrow> 'd session \<Rightarrow> (int outcome \<times> 'd session) option" where
  "send_doc srv net doc ver cclose s = (
     let path = rootfs srv @ [47] @ (if take 1 doc = [47] then drop 1 doc else doc) in
     case files srv path of
       None \<Rightarrow> do {
         s \<leftarrow> bstream_printf net (response_head ver (bytes ''404 Not found'') cclose 0) s;
         Some (Ret (-1), s) }
     | Some body \<Rightarrow> do {
         s \<leftarrow> bstream_printf net (response_head ver (bytes ''200 OK'') cclose (int (length body))) s;
         (r, d) \<leftarrow> (case txmode srv of
             TX_SENDFILE \<Rightarrow> (case sendfile_tx net body (sock s) of (r, d) \<Rightarrow> Some (Ret r, d))
           | TX_MMAP \<Rightarrow> mmap_tx net body (sock s));
         let s = s\<lparr>sock := d\<rparr>;
         (case r of
            Exit st \<Rightarrow> Some (Exit st, s)
          | Ret error \<Rightarrow> if error < 0 then Some (Ret error, s)
              else Some (Ret 0, s\<lparr>tbytes := tbytes s + of_nat (length body)\<rparr>)) })"

text \<open>The loop of \<^verbatim>\<open>send_mem\<close>: \<open>msent\<close> and \<open>sz\<close> are longs, the count that \<^verbatim>\<open>bstream_write\<close> returns is a \<^verbatim>\<open>size_t\<close>.\<close>

definition MBUF :: nat where "MBUF = 1024 * 8"

partial_function (option) send_mem_loop :: "'d net \<Rightarrow> int \<Rightarrow> int \<Rightarrow> 'd \<Rightarrow> (int \<times> 'd) option" where
  "send_mem_loop net sz msent d = (if msent < sz then
     let csize = (if sz - msent > int MBUF then MBUF else nat (sz - msent)) in
     bstream_write (n_send net) (replicate csize 0) d \<bind> (\<lambda>(cnt, d).
       let msent = (if cnt > 0 then sint (of_int msent + cnt :: u64) else msent) in
       if cnt \<noteq> of_nat csize then Some (msent, d) else send_mem_loop net sz msent d)
     else Some (msent, d))"

definition send_mem :: "'d net \<Rightarrow> int \<Rightarrow> cstr \<Rightarrow> cstr \<Rightarrow> 'd session \<Rightarrow> (int outcome \<times> 'd session) option" where
  "send_mem net sz ver cclose s = do {
     s \<leftarrow> bstream_printf net (response_head ver (bytes ''200 OK'') cclose sz) s;
     (msent, d) \<leftarrow> send_mem_loop net sz 0 (sock s);
     Some (Ret (if msent = sz then 0 else -1), s\<lparr>sock := d, tbytes := tbytes s + of_int msent\<rparr>) }"

definition send_url :: "server \<Rightarrow> 'd net \<Rightarrow> cstr \<Rightarrow> cstr \<Rightarrow> cstr \<Rightarrow> 'd session \<Rightarrow> (int outcome \<times> 'd session) option" where
  "send_url srv net doc ver cclose s = (
     if take 5 doc = bytes ''/mem-'' then send_mem net (atol (drop 5 doc)) ver cclose s
     else send_doc srv net doc ver cclose s)"

subsection \<open>Requests\<close>

text \<open>\<^verbatim>\<open>strncpy\<close> cuts a longer line and then leaves \<open>req\<close> without its NUL: a search for a token that meets no delimiter
  reads past \<open>req\<close>, a fault.\<close>

definition REQ_SIZE :: nat where "REQ_SIZE = 2048"

definition strtok_req :: "bool \<Rightarrow> cstr \<Rightarrow> cstr \<Rightarrow> (cstr \<times> cstr) option option" where
  "strtok_req terminated delims s = (
     if \<not> terminated \<and> (\<forall>c \<in> set (dropWhile (\<lambda>c. c \<in> set delims) s). c \<notin> set delims) then None
     else Some (strtok_r delims s))"

definition parse_request :: "cstr \<Rightarrow> (cstr \<times> cstr \<times> cstr) option option" where
  "parse_request ln = (
     let req = take REQ_SIZE ln; terminated = (length ln < REQ_SIZE) in
     strtok_req terminated [32] req \<bind> (\<lambda>t1. case t1 of None \<Rightarrow> Some None
     | Some (meth, aux) \<Rightarrow> strtok_req terminated [32] aux \<bind> (\<lambda>t2. case t2 of None \<Rightarrow> Some None
     | Some (doc, aux) \<Rightarrow> strtok_req terminated [32, 13] aux \<bind> (\<lambda>t3. case t3 of None \<Rightarrow> Some None
     | Some (ver, aux) \<Rightarrow> Some (if ci_eq meth (bytes ''GET'') then Some (meth, doc, ver) else None)))))"

record headers =
  clen :: u64
  chunked :: bool
  cclose :: bool

definition skip_spaces :: "cstr \<Rightarrow> cstr" where
  "skip_spaces s = dropWhile (\<lambda>c. c = 32) s"

definition header_line :: "cstr \<Rightarrow> headers \<Rightarrow> headers" where
  "header_line ln h = (
     if ci_prefix (bytes ''Content-Length:'') ln then h\<lparr>clen := of_int (atoi (skip_spaces (drop 15 ln)))\<rparr>
     else if ci_prefix (bytes ''Connection:'') ln then h\<lparr>cclose := ci_prefix (bytes ''close'') (skip_spaces (drop 11 ln))\<rparr>
     else if ci_prefix (bytes ''Transfer-Encoding:'') ln
       then h\<lparr>chunked := ci_prefix (bytes ''chunked'') (skip_spaces (drop 18 ln))\<rparr>
     else h)"

partial_function (option) headers_loop :: "'d net \<Rightarrow> headers \<Rightarrow> bstream \<Rightarrow> 'd \<Rightarrow> (headers \<times> bstream \<times> 'd) option" where
  "headers_loop net h b d = bstream_readln (n_recv net) b d \<bind> (\<lambda>(ln, b, d).
     case ln of None \<Rightarrow> Some (h, b, d)
     | Some ln \<Rightarrow> if c_string ln = [13] then Some (h, b, d)
         else headers_loop net (header_line (c_string ln) h) b d)"

definition bad_request :: "'d net \<Rightarrow> 'd session \<Rightarrow> (bool outcome \<times> 'd session) option" where
  "bad_request net s = do {
     s \<leftarrow> bstream_printf net (response_head (bytes ''HTTP/1.1'') (bytes ''400 Bad request'') (bytes ''close'') 0) s;
     Some (Ret False, s) }"

text \<open>One pass of the loop of \<^verbatim>\<open>process_session\<close>: whether it goes on, apart from the stop flag.\<close>

definition session_pass :: "server \<Rightarrow> 'd net \<Rightarrow> 'd session \<Rightarrow> (bool outcome \<times> 'd session) option" where
  "session_pass srv net s = do {
     (ln, b, d) \<leftarrow> bstream_readln (n_recv net) (bstr s) (sock s);
     let s = s\<lparr>bstr := b, sock := d\<rparr>;
     (case ln of None \<Rightarrow> Some (Ret False, s)
      | Some ln \<Rightarrow> do {
          req \<leftarrow> parse_request (c_string ln);
          (case req of None \<Rightarrow> bad_request net s
           | Some (meth, doc, ver) \<Rightarrow> do {
               let s = s\<lparr>reqs := reqs s + 1\<rparr>;
               (h, b, d) \<leftarrow> headers_loop net \<lparr>clen = 0, chunked = False, cclose = \<not> ci_eq ver (bytes ''HTTP/1.1'')\<rparr> (bstr s) (sock s);
               let s = s\<lparr>bstr := b, sock := d\<rparr>;
               if clen h \<noteq> 0 \<or> chunked h then bad_request net s
               else do {
                 (r, s) \<leftarrow> send_url srv net doc ver (if cclose h then bytes ''close'' else bytes ''keep-alive'') s;
                 (case r of Exit st \<Rightarrow> Some (Exit st, s) | Ret _ \<Rightarrow> Some (Ret (\<not> cclose h), s)) } }) }) }"

text \<open>\<open>stop\<close> is the stop flag as it reads after a pass.\<close>

partial_function (option) session_loop :: "server \<Rightarrow> 'd net \<Rightarrow> ('d \<Rightarrow> bool) \<Rightarrow> 'd session \<Rightarrow> (unit outcome \<times> 'd session) option" where
  "session_loop srv net stop s = session_pass srv net s \<bind> (\<lambda>(r, s).
     case r of Exit st \<Rightarrow> Some (Exit st, s)
     | Ret again \<Rightarrow> if \<not> stop (sock s) \<and> again then session_loop srv net stop s else Some (Ret (), s))"

definition process_session :: "server \<Rightarrow> 'd net \<Rightarrow> ('d \<Rightarrow> bool) \<Rightarrow> u8 list \<Rightarrow> 'd \<Rightarrow> u64 \<Rightarrow> u64 \<Rightarrow> (unit outcome \<times> 'd session) option" where
  "process_session srv net stop mem d nreqs nbytes =
     session_loop srv net stop \<lparr>bstr = bstream_open mem, sock = d, reqs = nreqs, tbytes = nbytes\<rparr>"

subsection \<open>The acceptor and the options\<close>

datatype accepted = Conn int | Eagain | Failed

text \<open>What a pass of the loop of \<^verbatim>\<open>accept_session\<close> sees: whether \<^verbatim>\<open>poll\<close> returns a positive number, whether the shutdown pipe and
  the server socket are readable, and what \<^verbatim>\<open>accept\<close> would give. The result is \<open>None\<close> as long as the loop runs.\<close>

record poll_event =
  polled :: bool
  shut :: bool
  ready :: bool
  acc :: accepted

fun accept_session :: "poll_event list \<Rightarrow> int option" where
  "accept_session [] = None"
| "accept_session (e # es) = (
     if \<not> polled e \<or> shut e then Some (-1)
     else if ready e then (case acc e of Conn cfd \<Rightarrow> Some cfd | Failed \<Rightarrow> Some (-1) | Eagain \<Rightarrow> accept_session es)
     else accept_session es)"

record pl_opts =
  pl_port :: int
  pl_lbklog :: int
  pl_root :: cstr
  pl_noatime :: bool
  pl_txmode :: tx_modes
  pl_stksize :: int
  rescpu :: int
  nthreads :: int
  qsize_opt :: int

definition pl_defaults :: pl_opts where
  "pl_defaults = \<lparr>pl_port = 80, pl_lbklog = 1024, pl_root = bytes ''.'', pl_noatime = False, pl_txmode = TX_MMAP,
     pl_stksize = 0, rescpu = 0, nthreads = 16, qsize_opt = 32\<rparr>"

text \<open>\<open>None\<close> when the usage is asked for; an option without its value at the end is ignored.\<close>

fun pl_options :: "cstr list \<Rightarrow> pl_opts \<Rightarrow> pl_opts option" where
  "pl_options [] opt = Some opt"
| "pl_options (a # as) opt = (
     if a = bytes ''--port'' \<or> a = bytes ''-p''
       then (case as of [] \<Rightarrow> Some opt | v # as \<Rightarrow> pl_options as (opt\<lparr>pl_port := atoi v\<rparr>))
     else if a = bytes ''--listen'' \<or> a = bytes ''-L''
       then (case as of [] \<Rightarrow> Some opt | v # as \<Rightarrow> pl_options as (opt\<lparr>pl_lbklog := atoi v\<rparr>))
     else if a = bytes ''--root'' \<or> a = bytes ''-r''
       then (case as of [] \<Rightarrow> Some opt | v # as \<Rightarrow> pl_options as (opt\<lparr>pl_root := v\<rparr>))
     else if a = bytes ''-N'' \<or> a = bytes ''--no-atime'' then pl_options as (opt\<lparr>pl_noatime := True\<rparr>)
     else if a = bytes ''-S'' \<or> a = bytes ''--sendfile'' then pl_options as (opt\<lparr>pl_txmode := TX_SENDFILE\<rparr>)
     else if a = bytes ''--stksize'' \<or> a = bytes ''-k''
       then (case as of [] \<Rightarrow> Some opt | v # as \<Rightarrow> pl_options as (opt\<lparr>pl_stksize := atoi v\<rparr>))
     else if a = bytes ''--res-cpu'' \<or> a = bytes ''-R''
       then (case as of [] \<Rightarrow> Some opt | v # as \<Rightarrow> pl_options as (opt\<lparr>rescpu := atoi v\<rparr>))
     else if a = bytes ''--num-threads'' \<or> a = bytes ''-T''
       then (case as of [] \<Rightarrow> Some opt | v # as \<Rightarrow> pl_options as (opt\<lparr>nthreads := atoi v\<rparr>))
     else if a = bytes ''--queue-size'' \<or> a = bytes ''-Q''
       then (case as of [] \<Rightarrow> Some opt | v # as \<Rightarrow> pl_options as (opt\<lparr>qsize_opt := atoi v\<rparr>))
     else if a = bytes ''--help'' \<or> a = bytes ''-h'' then None
     else pl_options as opt)"

definition used_cpus :: "int \<Rightarrow> pl_opts \<Rightarrow> int" where
  "used_cpus avail opt = (if avail - rescpu opt \<le> 0 then 1 else avail - rescpu opt)"

text \<open>The counters that \<^verbatim>\<open>main\<close> adds up over the processors: connections, requests, bytes.\<close>

fun pl_totals :: "(u64 \<times> u64 \<times> u64) list \<Rightarrow> u64 \<times> u64 \<times> u64 \<Rightarrow> u64 \<times> u64 \<times> u64" where
  "pl_totals [] tot = tot"
| "pl_totals ((c, r, t) # pcx) (conns, rs, ts) = pl_totals pcx (conns + c, rs + r, ts + t)"

subsection \<open>Reading a request\<close>

lemma headers_loop_lines:
  assumes "b_inv b" "pending b = concat (map (\<lambda>l. l @ [10]) hs) @ [13, 10] @ rest"
    and "\<forall>l \<in> set hs. 10 \<notin> set l \<and> c_string l \<noteq> [13]"
  shows "\<exists>b'. headers_loop net h b d = Some (fold (\<lambda>l. header_line (c_string l)) hs h, b', d) \<and> b_inv b' \<and> pending b' = rest"
  using assms
proof (induction hs arbitrary: b h)
  case Nil
  obtain b' where "bstream_readln (n_recv net) b d = Some (Some [13], b', d)" "b_inv b'" "pending b' = rest"
    using bstream_readln_pending [OF Nil(1), of "[13]" rest "n_recv net" d] Nil(2) by auto
  then show ?case by (subst headers_loop.simps) (simp add: c_string_def)
next
  case (Cons l hs)
  obtain b' where b': "bstream_readln (n_recv net) b d = Some (Some l, b', d)" "b_inv b'"
    "pending b' = concat (map (\<lambda>l. l @ [10]) hs) @ [13, 10] @ rest"
    using bstream_readln_pending [OF Cons.prems(1), of l "concat (map (\<lambda>l. l @ [10]) hs) @ [13, 10] @ rest" "n_recv net" d]
      Cons.prems(2,3) by auto
  then show ?case
    using Cons.IH [OF b'(2,3), of "header_line (c_string l) h"] Cons.prems(3) by (subst headers_loop.simps) simp
qed

lemma parse_request_line:
  assumes "ci_eq meth (bytes ''GET'')" "meth \<noteq> []" "doc \<noteq> []" "ver \<noteq> []"
    and "32 \<notin> set meth" "32 \<notin> set doc" "32 \<notin> set ver" "13 \<notin> set ver"
    and "length meth + length doc + length ver + 3 < REQ_SIZE"
  shows "parse_request (meth @ [32] @ doc @ [32] @ ver @ [13]) = Some (Some (meth, doc, ver))"
proof -
  have "strtok_r [32] (meth @ [32] @ doc @ [32] @ ver @ [13]) = Some (meth, doc @ [32] @ ver @ [13])"
    using strtok_r_token [of meth "[32]" "[32] @ doc @ [32] @ ver @ [13]"] assms(2,5) by auto
  moreover have "strtok_r [32] (doc @ [32] @ ver @ [13]) = Some (doc, ver @ [13])"
    using strtok_r_token [of doc "[32]" "[32] @ ver @ [13]"] assms(3,6) by auto
  moreover have "strtok_r [32, 13] (ver @ [13]) = Some (ver, [])"
    using strtok_r_token [of ver "[32, 13]" "[13]"] assms(4,7,8) by auto
  ultimately show ?thesis using assms(1,9) by (simp add: parse_request_def strtok_req_def)
qed

subsection \<open>Sending\<close>

lemma bstream_printf_ok:
  assumes "sends_all (n_send net) sent keep" "length w < 2 ^ 64"
  shows "\<exists>d. bstream_printf net w s = Some (s\<lparr>sock := d\<rparr>) \<and> sent d = sent (sock s) @ w \<and> keep d = keep (sock s)"
  using bstream_write_ok [OF assms, of "sock s"] by (auto simp: bstream_printf_def)

lemma send_mem_loop_ok:
  assumes "sends_all (n_send net) sent keep" "0 \<le> msent" "msent \<le> sz" "sz < 2 ^ 63"
  shows "\<exists>d'. send_mem_loop net sz msent d = Some (sz, d') \<and> sent d' = sent d @ replicate (nat (sz - msent)) 0 \<and> keep d' = keep d"
  using assms(2,3)
proof (induction "nat (sz - msent)" arbitrary: msent d rule: less_induct)
  case less
  show ?case
  proof (cases "msent = sz")
    case True
    then show ?thesis by (subst send_mem_loop.simps) simp
  next
    case False
    define c where "c = (if sz - msent > int MBUF then MBUF else nat (sz - msent))"
    have c: "0 < c" "c \<le> 8192" "int c \<le> sz - msent" using less.prems False by (auto simp: c_def MBUF_def)
    obtain d1 where d1: "bstream_write (n_send net) (replicate c 0) d = Some (of_nat c, d1)" "sent d1 = sent d @ replicate c 0" "keep d1 = keep d"
      using bstream_write_ok [OF assms(1), of "replicate c 0" d] c(2) by auto
    have pos: "(0::u64) < of_nat c" using c by (simp add: word_less_nat_alt unat_of_nat)
    have m: "sint (of_int msent + of_nat c :: u64) = msent + int c"
      using sint64_of_int [of "msent + int c"] less.prems c assms(4) by simp
    have "nat (sz - (msent + int c)) < nat (sz - msent)" "0 \<le> msent + int c" "msent + int c \<le> sz"
      using c less.prems by auto
    then obtain d' where d': "send_mem_loop net sz (msent + int c) d1 = Some (sz, d')"
      "sent d' = sent d1 @ replicate (nat (sz - (msent + int c))) 0" "keep d' = keep d1"
      using less.hyps by blast
    have "nat (sz - msent) = c + nat (sz - (msent + int c))" using c by simp
    moreover have "send_mem_loop net sz msent d = send_mem_loop net sz (msent + int c) d1"
      using d1 False less.prems pos m by (subst send_mem_loop.simps) (simp add: c_def [symmetric] Let_def)
    ultimately show ?thesis using d' d1(2,3) by (simp add: replicate_add)
  qed
qed

lemma strtol_dec:
  assumes "int n < 2 ^ 63" shows "strtol 10 (dec_digits n) = int n"
proof -
  have ne: "dec_digits n \<noteq> []" by (subst dec_digits.simps) simp
  then obtain c cs where c: "dec_digits n = c # cs" by (cases "dec_digits n") auto
  have "digit_in 10 c \<noteq> None" using dec_digits_digits [of n] c by simp
  then have "isdigit8 c"
    by (auto simp: digit_in_def hex_val_def isdigit8_def word_le_nat_alt split: if_splits)
  then have "\<not> isspace8 c" "c \<noteq> 45" "c \<noteq> 43" by (auto simp: isdigit8_def isspace8_def word_le_nat_alt)
  then have "strtol_sign (dropWhile isspace8 (dec_digits n)) = (1, dec_digits n)" using c by simp
  then show ?thesis using assms digits_val_dec [of n] by (simp add: strtol_def strtol_digits_def)
qed

lemma dec_digits_range: "\<forall>c \<in> set (dec_digits n). 48 \<le> c \<and> c \<le> 57"
proof (induction n rule: dec_digits.induct)
  case (1 n)
  have "48 \<le> (48 + of_nat d :: u8) \<and> 48 + of_nat d \<le> (57::u8)" if "d < 10" for d
    using that by (simp add: word_le_nat_alt unat_word_ariths unat_of_nat)
  then show ?case using 1 by (subst dec_digits.simps) auto
qed

subsection \<open>Properties\<close>

definition request :: "cstr \<Rightarrow> cstr \<Rightarrow> cstr list \<Rightarrow> cstr" where
  "request doc ver hs = bytes ''GET '' @ doc @ [32] @ ver @ [13, 10] @ concat (map (\<lambda>l. l @ [10]) hs) @ [13, 10]"

lemma session_pass_reads:
  assumes recv: "n_recv net BSTREAM_BUFSIZE d0 = (Some (request doc ver hs), d1)" and len: "length (request doc ver hs) \<le> BSTREAM_BUFSIZE"
    and doc: "doc \<noteq> []" "set doc \<inter> {0, 10, 32} = {}" and ver: "ver \<noteq> []" "set ver \<inter> {0, 10, 13, 32} = {}"
    and req: "length doc + length ver + 6 < REQ_SIZE"
    and hs: "\<forall>l \<in> set hs. 10 \<notin> set l \<and> c_string l \<noteq> [13]"
    and h: "fold (\<lambda>l. header_line (c_string l)) hs \<lparr>clen = 0, chunked = False, cclose = \<not> ci_eq ver (bytes ''HTTP/1.1'')\<rparr> = h"
    and s: "s = \<lparr>bstr = bstream_open (replicate BSTREAM_BUFSIZE 0), sock = d0, reqs = r, tbytes = t\<rparr>"
  shows "\<exists>b. b_inv b \<and> pending b = [] \<and> session_pass srv net s = (
     let s = \<lparr>bstr = b, sock = d1, reqs = r + 1, tbytes = t\<rparr> in
     if clen h \<noteq> 0 \<or> chunked h then bad_request net s
     else do {
       (x, s) \<leftarrow> send_url srv net doc ver (if cclose h then bytes ''close'' else bytes ''keep-alive'') s;
       (case x of Exit st \<Rightarrow> Some (Exit st, s) | Ret _ \<Rightarrow> Some (Ret (\<not> cclose h), s)) })"
proof -
  let ?b0 = "bstream_open (replicate BSTREAM_BUFSIZE 0)"
  let ?l = "bytes ''GET'' @ [32] @ doc @ [32] @ ver @ [13]"
  let ?rest = "concat (map (\<lambda>l. l @ [10]) hs) @ [13, 10]"
  have rq: "request doc ver hs = ?l @ 10 # ?rest" by (simp add: request_def bytes_def)
  have l: "10 \<notin> set ?l" "0 \<notin> set ?l" using doc(2) ver(2) by (auto simp: bytes_def)
  obtain b1 where b1: "bstream_readln (n_recv net) ?b0 d0 = Some (Some ?l, b1, d1)" "b_inv b1" "pending b1 = ?rest"
    using bstream_readln_first [of "n_recv net" d0 ?l ?rest d1] recv len l(1) unfolding rq by blast
  have "parse_request ?l = Some (Some (bytes ''GET'', doc, ver))"
    using doc ver req by (intro parse_request_line) (auto simp: ci_eq_def bytes_def)
  moreover have "c_string ?l = ?l" unfolding c_string_def by (rule takeWhile_neq [OF l(2)])
  moreover obtain b where b: "headers_loop net \<lparr>clen = 0, chunked = False, cclose = \<not> ci_eq ver (bytes ''HTTP/1.1'')\<rparr> b1 d1
      = Some (h, b, d1)" "b_inv b" "pending b = []"
    using headers_loop_lines [OF b1(2), of hs "[]" net _ d1] b1(3) hs h by auto
  ultimately show ?thesis
    using b1 s by (intro exI [of _ b]) (simp add: session_pass_def Let_def)
qed


text \<open>A client that sends one request and then nothing.\<close>

definition demo_net :: "cstr \<Rightarrow> (nat list \<times> u8 list) net" where
  "demo_net req = \<lparr>n_recv = (\<lambda>m d. (Some req, d)), n_send = take_send, n_sendfile = (\<lambda>bs d. (int (length bs), d))\<rparr>"

definition demo_server :: server where
  "demo_server = \<lparr>rootfs = [46], txmode = TX_MMAP, files = (\<lambda>p. Some [])\<rparr>"

lemma dec_digits_3: "dec_digits 3 = [51]"
  by (subst dec_digits.simps) simp


text \<open>A request for a document whose name runs through the 2048 bytes of the request buffer makes the server
  read past the buffer: \<^verbatim>\<open>strncpy\<close> leaves it without a terminating NUL.\<close>

theorem http_long_request:
  assumes "n_recv net BSTREAM_BUFSIZE d0 = (Some (bytes ''GET '' @ doc @ 10 # rest), d1)"
    and "length (bytes ''GET '' @ doc @ 10 # rest) \<le> BSTREAM_BUFSIZE"
    and "set doc \<inter> {0, 10, 32} = {}" "2044 \<le> length doc"
  shows "process_session srv net stop (replicate BSTREAM_BUFSIZE 0) d0 r t = None"
proof -
  let ?l = "bytes ''GET '' @ doc"
  have "10 \<notin> set ?l" "0 \<notin> set ?l" using assms(3) by (auto simp: bytes_def)
  moreover from this obtain b where "bstream_readln (n_recv net) (bstream_open (replicate BSTREAM_BUFSIZE 0)) d0 = Some (Some ?l, b, d1)"
    using bstream_readln_first [of "n_recv net" d0 ?l rest d1] assms(1,2) by auto
  moreover have "c_string ?l = ?l" unfolding c_string_def by (rule takeWhile_neq [OF calculation(2)])
  moreover have "parse_request ?l = None"
  proof -
    have "take REQ_SIZE ?l = bytes ''GET'' @ [32] @ take 2044 doc" by (simp add: REQ_SIZE_def bytes_def)
    moreover have "strtok_req False [32] (bytes ''GET'' @ [32] @ x) = Some (Some (bytes ''GET'', x))" for x
      using strtok_r_token [of "bytes ''GET''" "[32]" "[32] @ x"] by (simp add: strtok_req_def bytes_def)
    moreover have "strtok_req False [32] (take 2044 doc) = None"
      using assms(3) by (auto simp: strtok_req_def dest!: set_dropWhileD in_set_takeD)
    moreover have "(length ?l < REQ_SIZE) = False" using assms(4) by (simp add: bytes_def REQ_SIZE_def)
    ultimately show ?thesis unfolding parse_request_def Let_def by (simp only: bind.simps option.case prod.case)
  qed
  ultimately show ?thesis by (simp add: process_session_def session_loop.simps session_pass_def Let_def)
qed

text \<open>In the default mode a request for an empty file ends the whole server: it maps zero bytes, which fails,
  and the wrapper of \<^verbatim>\<open>mmap\<close> exits with status 1.\<close>

theorem http_empty_file:
  assumes "sends_all (n_send net) sent keep" "txmode srv = TX_MMAP" "take 5 doc \<noteq> bytes ''/mem-''"
    and "files srv (rootfs srv @ [47] @ (if take 1 doc = [47] then drop 1 doc else doc)) = Some []"
    and "length (response_head ver (bytes ''200 OK'') cl 0) < 2 ^ 64"
  shows "\<exists>s'. send_url srv net doc ver cl s = Some (Exit 1, s')"
  using bstream_printf_ok [OF assms(1,5), of s] assms(2-4)
  by (auto simp: send_url_def send_doc_def mmap_tx_def Let_def)

end
