(* ===== verification/ThrHttp.thy ===== *)
theory ThrHttp
  imports Http
begin

text \<open>
  The thread-per-connection server \<^verbatim>\<open>thrhttp.c\<close>: its stream, which reads lines of any length, its responses, its sessions and
  its acceptor. \<open>alloc n\<close> says whether an allocation of \<open>n\<close> bytes succeeds. The code that it shares word by word with
  \<^verbatim>\<open>thrplhttp.c\<close> (\<open>bstream_write\<close>, \<open>sendfile_tx\<close>, the loop of \<open>send_mem\<close>, the header lines) is that of the theories of that server.
\<close>

record thr_server = server +
  alloc :: "nat \<Rightarrow> bool"

subsection \<open>The stream\<close>

definition thr_bstream_open :: "(nat \<Rightarrow> bool) \<Rightarrow> u8 list \<Rightarrow> bstream option" where
  "thr_bstream_open al mem = (if al (24 + BSTREAM_BUFSIZE) then Some \<lparr>ridx = 0, bcnt = 0, buf = mem\<rparr> else None)"

definition thr_bstream_refil ::
  "(nat \<Rightarrow> 'd \<Rightarrow> u8 list option \<times> 'd) \<Rightarrow> bstream \<Rightarrow> 'd \<Rightarrow> (u64 \<times> bstream \<times> 'd) option" where
  "thr_bstream_refil recv b d = do {
     let (r, d) = recv BSTREAM_BUFSIZE d;
     mem \<leftarrow> (case r of None \<Rightarrow> Some (buf b) | Some bs \<Rightarrow> store_at 0 bs (buf b));
     Some (recv_count r, \<lparr>ridx = 0, bcnt = recv_count r, buf = mem\<rparr>, d) }"

text \<open>The number of bytes, the bytes and the new stream.\<close>

definition thr_bstream_readsome ::
  "(nat \<Rightarrow> 'd \<Rightarrow> u8 list option \<times> 'd) \<Rightarrow> nat \<Rightarrow> bstream \<Rightarrow> 'd \<Rightarrow> (u64 \<times> u8 list \<times> bstream \<times> 'd) option" where
  "thr_bstream_readsome recv n b d = (
     if ridx b < bcnt b then
       let cnt = (if bcnt b - ridx b > of_nat n then of_nat n else bcnt b - ridx b) in
       (if unat (ridx b) + unat cnt \<le> length (buf b)
        then Some (cnt, take (unat cnt) (drop (unat (ridx b)) (buf b)), b\<lparr>ridx := ridx b + cnt\<rparr>, d)
        else None)
     else let (r, d) = recv n d in
       Some (recv_count r, (case r of None \<Rightarrow> [] | Some bs \<Rightarrow> bs), b, d))"

text \<open>\<^verbatim>\<open>memchr(buf + ridx, '\n', bcnt - ridx)\<close>, a fault when it leaves the buffer.\<close>

definition thr_find_eol :: "bstream \<Rightarrow> nat option option" where
  "thr_find_eol b = (
     let seen = drop (unat (ridx b)) (buf b); n = unat (bcnt b - ridx b);
         k = length (takeWhile (\<lambda>c. c \<noteq> 10) (take n seen)) in
     if k < n then (if k < length seen then Some (Some k) else None) else Some None)"

partial_function (option) thr_readln_loop ::
  "(nat \<Rightarrow> bool) \<Rightarrow> (nat \<Rightarrow> 'd \<Rightarrow> u8 list option \<times> 'd) \<Rightarrow> cstr option \<Rightarrow> bstream \<Rightarrow> 'd \<Rightarrow> (cstr option \<times> bstream \<times> 'd) option" where
  "thr_readln_loop al recv ln b d =
     (if ridx b = bcnt b then thr_bstream_refil recv b d else Some (1, b, d)) \<bind> (\<lambda>(n, b, d).
     if n \<le> 0 then Some (ln, b, d)
     else thr_find_eol b \<bind> (\<lambda>eol.
       let cnt = (case eol of Some k \<Rightarrow> k + 1 | None \<Rightarrow> unat (bcnt b - ridx b));
           old = (case ln of None \<Rightarrow> [] | Some l \<Rightarrow> l) in
       if \<not> al (length old + cnt + 1) then Some (None, b, d)
       else thr_bstream_readsome recv cnt b d \<bind> (\<lambda>(c, bs, b, d).
         if eol = None then thr_readln_loop al recv (Some (old @ bs)) b d
         else Some (Some (old @ bs), b, d))))"

definition thr_bstream_readln ::
  "(nat \<Rightarrow> bool) \<Rightarrow> (nat \<Rightarrow> 'd \<Rightarrow> u8 list option \<times> 'd) \<Rightarrow> bstream \<Rightarrow> 'd \<Rightarrow> (cstr option \<times> bstream \<times> 'd) option" where
  "thr_bstream_readln al recv b d = thr_readln_loop al recv None b d"

subsection \<open>Responses\<close>

definition thr_bstream_printf :: "(nat \<Rightarrow> bool) \<Rightarrow> 'd net \<Rightarrow> cstr \<Rightarrow> 'd session \<Rightarrow> 'd session option" where
  "thr_bstream_printf al net wstr s = (if al (length wstr + 1) then do {
       (cnt, d) \<leftarrow> bstream_write (n_send net) wstr (sock s);
       Some (s\<lparr>sock := d\<rparr>) }
     else Some s)"

definition thr_mmap_tx :: "'d net \<Rightarrow> u8 list \<Rightarrow> 'd \<Rightarrow> (int \<times> 'd) option" where
  "thr_mmap_tx net doc d = (if doc = [] then Some (-1, d)
     else do {
       (txcnt, d) \<leftarrow> bstream_write (n_send net) doc d;
       Some (if txcnt = of_nat (length doc) then 0 else -1, d) })"

definition thr_send_doc :: "thr_server \<Rightarrow> 'd net \<Rightarrow> cstr \<Rightarrow> cstr \<Rightarrow> cstr \<Rightarrow> 'd session \<Rightarrow> (int \<times> 'd session) option" where
  "thr_send_doc srv net doc ver conn s = (
     let path = rootfs srv @ [47] @ (if take 1 doc = [47] then drop 1 doc else doc) in
     if \<not> alloc srv (length path + 1) then do {
       s \<leftarrow> thr_bstream_printf (alloc srv) net (response_head ver (bytes ''500 Internal server error'') conn 0) s;
       Some (-1, s) }
     else case files srv path of
       None \<Rightarrow> do {
         s \<leftarrow> thr_bstream_printf (alloc srv) net (response_head ver (bytes ''404 Not found'') conn 0) s;
         Some (-1, s) }
     | Some body \<Rightarrow> do {
         s \<leftarrow> thr_bstream_printf (alloc srv) net (response_head ver (bytes ''200 OK'') conn (int (length body))) s;
         (error, d) \<leftarrow> (case txmode srv of
             TX_SENDFILE \<Rightarrow> Some (sendfile_tx net body (sock s))
           | TX_MMAP \<Rightarrow> thr_mmap_tx net body (sock s));
         let s = s\<lparr>sock := d\<rparr>;
         if error < 0 then Some (error, s)
         else Some (0, s\<lparr>tbytes := tbytes s + of_nat (length body)\<rparr>) })"

definition thr_send_mem :: "thr_server \<Rightarrow> 'd net \<Rightarrow> int \<Rightarrow> cstr \<Rightarrow> cstr \<Rightarrow> 'd session \<Rightarrow> (int \<times> 'd session) option" where
  "thr_send_mem srv net sz ver conn s = do {
     s \<leftarrow> thr_bstream_printf (alloc srv) net (response_head ver (bytes ''200 OK'') conn sz) s;
     (msent, d) \<leftarrow> send_mem_loop net sz 0 (sock s);
     Some (if msent = sz then 0 else -1, s\<lparr>sock := d, tbytes := tbytes s + of_int msent\<rparr>) }"

definition thr_send_url :: "thr_server \<Rightarrow> 'd net \<Rightarrow> cstr \<Rightarrow> cstr \<Rightarrow> cstr \<Rightarrow> 'd session \<Rightarrow> (int \<times> 'd session) option" where
  "thr_send_url srv net doc ver conn s = (
     if take 5 doc = bytes ''/mem-'' then thr_send_mem srv net (atol (drop 5 doc)) ver conn s
     else thr_send_doc srv net doc ver conn s)"

subsection \<open>Sessions\<close>

definition thr_parse_request :: "cstr \<Rightarrow> (cstr \<times> cstr \<times> cstr) option" where
  "thr_parse_request req = do {
     (meth, aux) \<leftarrow> strtok_r [32] req;
     (doc, aux) \<leftarrow> strtok_r [32] aux;
     (ver, aux) \<leftarrow> strtok_r [32, 13, 10] aux;
     if ci_eq meth (bytes ''GET'') then Some (meth, doc, ver) else None }"

partial_function (option) thr_headers_loop ::
  "(nat \<Rightarrow> bool) \<Rightarrow> 'd net \<Rightarrow> headers \<Rightarrow> bstream \<Rightarrow> 'd \<Rightarrow> (headers \<times> bstream \<times> 'd) option" where
  "thr_headers_loop al net h b d = thr_bstream_readln al (n_recv net) b d \<bind> (\<lambda>(ln, b, d).
     case ln of None \<Rightarrow> Some (h, b, d)
     | Some ln \<Rightarrow> if c_string ln = [13, 10] then Some (h, b, d)
         else thr_headers_loop al net (header_line (c_string ln) h) b d)"

definition thr_bad_request :: "thr_server \<Rightarrow> 'd net \<Rightarrow> 'd session \<Rightarrow> (bool \<times> 'd session) option" where
  "thr_bad_request srv net s = do {
     s \<leftarrow> thr_bstream_printf (alloc srv) net
        (response_head (bytes ''HTTP/1.1'') (bytes ''400 Bad request'') (bytes ''close'') 0) s;
     Some (False, s) }"

definition thr_pass :: "thr_server \<Rightarrow> 'd net \<Rightarrow> 'd session \<Rightarrow> (bool \<times> 'd session) option" where
  "thr_pass srv net s = do {
     (req, b, d) \<leftarrow> thr_bstream_readln (alloc srv) (n_recv net) (bstr s) (sock s);
     let s = s\<lparr>bstr := b, sock := d\<rparr>;
     (case req of None \<Rightarrow> Some (False, s)
      | Some req \<Rightarrow> (case thr_parse_request (c_string req) of None \<Rightarrow> thr_bad_request srv net s
         | Some (meth, doc, ver) \<Rightarrow> do {
             let s = s\<lparr>reqs := reqs s + 1\<rparr>;
             (h, b, d) \<leftarrow> thr_headers_loop (alloc srv) net
                \<lparr>clen = 0, chunked = False, cclose = \<not> ci_eq ver (bytes ''HTTP/1.1'')\<rparr> (bstr s) (sock s);
             let s = s\<lparr>bstr := b, sock := d\<rparr>;
             if clen h \<noteq> 0 \<or> chunked h then thr_bad_request srv net s
             else do {
               (r, s) \<leftarrow> thr_send_url srv net doc ver (if cclose h then bytes ''close'' else bytes ''keep-alive'') s;
               Some (\<not> cclose h, s) } })) }"

partial_function (option) thr_loop :: "thr_server \<Rightarrow> 'd net \<Rightarrow> ('d \<Rightarrow> bool) \<Rightarrow> 'd session \<Rightarrow> 'd session option" where
  "thr_loop srv net stop s = thr_pass srv net s \<bind> (\<lambda>(again, s).
     if \<not> stop (sock s) \<and> again then thr_loop srv net stop s else Some s)"

text \<open>The result is the socket's state and the counters \<open>reqs\<close> and \<open>tbytes\<close>.\<close>

definition thproc ::
  "thr_server \<Rightarrow> 'd net \<Rightarrow> ('d \<Rightarrow> bool) \<Rightarrow> u8 list \<Rightarrow> 'd \<Rightarrow> u64 \<Rightarrow> u64 \<Rightarrow> ('d \<times> u64 \<times> u64) option" where
  "thproc srv net stop mem d nreqs nbytes = (case thr_bstream_open (alloc srv) mem of
       None \<Rightarrow> Some (d, nreqs, nbytes)
     | Some b \<Rightarrow> do {
         s \<leftarrow> thr_loop srv net stop \<lparr>bstr = b, sock = d, reqs = nreqs, tbytes = nbytes\<rparr>;
         Some (sock s, reqs s, tbytes s) })"

subsection \<open>Options and the acceptor\<close>

record thr_opts =
  port :: int
  lbklog :: int
  root :: cstr
  noatime :: bool
  sendfile :: bool
  stksize :: int

definition thr_defaults :: thr_opts where
  "thr_defaults = \<lparr>port = 80, lbklog = 1024, root = bytes ''.'', noatime = False, sendfile = False, stksize = 0\<rparr>"

text \<open>\<open>None\<close> when the usage is asked for.\<close>

fun thr_options :: "cstr list \<Rightarrow> thr_opts \<Rightarrow> thr_opts option" where
  "thr_options [] opt = Some opt"
| "thr_options (a # as) opt = (
     if a = bytes ''--port'' \<or> a = bytes ''-p''
       then (case as of [] \<Rightarrow> Some opt | v # as \<Rightarrow> thr_options as (opt\<lparr>port := atoi v\<rparr>))
     else if a = bytes ''--listen'' \<or> a = bytes ''-L''
       then (case as of [] \<Rightarrow> Some opt | v # as \<Rightarrow> thr_options as (opt\<lparr>lbklog := atoi v\<rparr>))
     else if a = bytes ''--root'' \<or> a = bytes ''-r''
       then (case as of [] \<Rightarrow> Some opt | v # as \<Rightarrow> thr_options as (opt\<lparr>root := v\<rparr>))
     else if a = bytes ''-N'' \<or> a = bytes ''--no-atime'' then thr_options as (opt\<lparr>noatime := True\<rparr>)
     else if a = bytes ''-S'' \<or> a = bytes ''--sendfile'' then thr_options as (opt\<lparr>sendfile := True\<rparr>)
     else if a = bytes ''--stksize'' \<or> a = bytes ''-k''
       then (case as of [] \<Rightarrow> Some opt | v # as \<Rightarrow> thr_options as (opt\<lparr>stksize := atoi v\<rparr>))
     else if a = bytes ''--help'' \<or> a = bytes ''-h'' then None
     else thr_options as opt)"

text \<open>What \<^verbatim>\<open>accept\<close> and \<^verbatim>\<open>pthread_create\<close> answer until the stop flag is set: the number of connections, the descriptors given to
  a thread and those closed.\<close>

fun thr_accepts :: "(int option \<times> bool) list \<Rightarrow> u64 \<times> int list \<times> int list \<Rightarrow> u64 \<times> int list \<times> int list" where
  "thr_accepts [] st = st"
| "thr_accepts ((None, _) # evs) st = thr_accepts evs st"
| "thr_accepts ((Some cfd, created) # evs) (conns, started, closed) =
     thr_accepts evs (if created then (conns + 1, started @ [cfd], closed) else (conns + 1, started, closed @ [cfd]))"

subsection \<open>Reading lines\<close>

definition t_inv :: "bstream \<Rightarrow> bool" where
  "t_inv b \<longleftrightarrow> length (buf b) = BSTREAM_BUFSIZE \<and> ridx b \<le> bcnt b \<and> unat (bcnt b) \<le> BSTREAM_BUFSIZE"

definition t_pending :: "bstream \<Rightarrow> u8 list" where
  "t_pending b = take (unat (bcnt b) - unat (ridx b)) (drop (unat (ridx b)) (buf b))"

text \<open>The peer sends the bytes \<open>w\<close> in pieces of its choice, no more than a \<^verbatim>\<open>recv\<close> asks for.\<close>

fun delivers :: "(nat \<Rightarrow> 'd \<Rightarrow> u8 list option \<times> 'd) \<Rightarrow> 'd \<Rightarrow> u8 list list \<Rightarrow> 'd \<Rightarrow> bool" where
  "delivers recv d [] d' \<longleftrightarrow> d' = d"
| "delivers recv d (c # cs) d' \<longleftrightarrow> (\<exists>d1. recv BSTREAM_BUFSIZE d = (Some c, d1) \<and> c \<noteq> [] \<and> length c \<le> BSTREAM_BUFSIZE
     \<and> delivers recv d1 cs d')"

definition to_come :: "(nat \<Rightarrow> 'd \<Rightarrow> u8 list option \<times> 'd) \<Rightarrow> bstream \<Rightarrow> 'd \<Rightarrow> u8 list \<Rightarrow> 'd \<Rightarrow> bool" where
  "to_come recv b d w d' \<longleftrightarrow> t_inv b \<and> (\<exists>cs. delivers recv d cs d' \<and> t_pending b @ concat cs = w)"

lemma unat_sub_le: "a \<le> b \<Longrightarrow> unat (b - a :: u64) = unat b - unat a"
  by (simp add: unat_sub_if_size word_le_nat_alt)

lemma length_t_pending: "t_inv b \<Longrightarrow> length (t_pending b) = unat (bcnt b - ridx b)"
  by (auto simp: t_pending_def t_inv_def unat_sub_le)

lemma t_pending_empty: "t_inv b \<Longrightarrow> ridx b = bcnt b \<longleftrightarrow> t_pending b = []"
  by (metis length_t_pending length_0_conv right_minus_eq unat_eq_zero)

lemma thr_find_eol_pending:
  assumes "t_inv b"
  shows "thr_find_eol b = Some (if 10 \<in> set (t_pending b)
     then Some (length (takeWhile (\<lambda>c. c \<noteq> 10) (t_pending b))) else None)"
proof -
  let ?k = "length (takeWhile (\<lambda>c. c \<noteq> 10) (t_pending b))" and ?n = "unat (bcnt b - ridx b)"
  have p: "t_pending b = take ?n (drop (unat (ridx b)) (buf b))"
    using assms by (simp add: t_pending_def t_inv_def unat_sub_le)
  have "?k < ?n \<longleftrightarrow> 10 \<in> set (t_pending b)"
    using takeWhile_shorter [of "\<lambda>c. c \<noteq> 10" "t_pending b"] length_t_pending [OF assms] by auto
  moreover have "?n \<le> length (drop (unat (ridx b)) (buf b))" using assms by (auto simp: t_inv_def unat_sub_le)
  ultimately show ?thesis by (auto simp: thr_find_eol_def Let_def p [symmetric])
qed

lemma thr_readsome_pending:
  assumes "t_inv b" "0 < n" "n \<le> length (t_pending b)"
  shows "\<exists>c b'. thr_bstream_readsome recv n b d = Some (c, take n (t_pending b), b', d) \<and> t_inv b'
    \<and> t_pending b' = drop n (t_pending b)"
proof -
  have bd: "unat (ridx b) \<le> unat (bcnt b)" "unat (bcnt b) \<le> 4096" "length (buf b) = 4096"
    using assms(1) by (auto simp: t_inv_def BSTREAM_BUFSIZE_def word_le_nat_alt)
  have n: "n \<le> unat (bcnt b) - unat (ridx b)"
    using assms(3) length_t_pending [OF assms(1)] assms(1) by (simp add: unat_sub_le t_inv_def)
  have un: "unat (of_nat n :: u64) = n" using n bd by (simp add: unat_of_nat)
  have idx: "unat (ridx b + of_nat n) = unat (ridx b) + n" using un n bd by (simp add: unat_word_ariths(1))
  have lt: "ridx b < bcnt b" using n assms(2) by (simp add: word_less_nat_alt)
  define cnt where "cnt = (if bcnt b - ridx b > of_nat n then of_nat n else bcnt b - ridx b)"
  have sub: "unat (bcnt b - ridx b) = unat (bcnt b) - unat (ridx b)" using lt by (simp add: unat_sub_le)
  have "unat cnt = n" using n un sub by (auto simp: cnt_def word_less_nat_alt)
  then have cnt: "cnt = of_nat n" using un by (simp add: word_unat_eq_iff)
  have "thr_bstream_readsome recv n b d
      = Some (of_nat n, take n (drop (unat (ridx b)) (buf b)), b\<lparr>ridx := ridx b + of_nat n\<rparr>, d)"
    unfolding thr_bstream_readsome_def cnt_def [symmetric] cnt using lt un n bd by (simp add: Let_def)
  moreover have "take n (drop (unat (ridx b)) (buf b)) = take n (t_pending b)"
    using n by (simp add: t_pending_def min_absorb1)
  moreover have "t_pending (b\<lparr>ridx := ridx b + of_nat n\<rparr>) = drop n (t_pending b)"
    using idx by (simp add: t_pending_def drop_take add.commute [of n])
  moreover have "t_inv (b\<lparr>ridx := ridx b + of_nat n\<rparr>)"
    using idx n bd by (simp add: t_inv_def BSTREAM_BUFSIZE_def word_le_nat_alt)
  ultimately show ?thesis by auto
qed

lemma thr_refil_delivers:
  assumes "t_inv b" "recv BSTREAM_BUFSIZE d = (Some c, d1)" "c \<noteq> []" "length c \<le> BSTREAM_BUFSIZE"
  shows "\<exists>n b'. thr_bstream_refil recv b d = Some (n, b', d1) \<and> 0 < n \<and> t_inv b' \<and> t_pending b' = c"
proof -
  have u: "unat (of_nat (length c) :: u64) = length c" using assms(4) by (simp add: unat_of_nat BSTREAM_BUFSIZE_def)
  then have "0 < (of_nat (length c) :: u64)" using assms(3) by (simp add: word_less_nat_alt)
  moreover have "thr_bstream_refil recv b d = Some (of_nat (length c),
      \<lparr>ridx = 0, bcnt = of_nat (length c), buf = c @ drop (length c) (buf b)\<rparr>, d1)"
    using assms by (simp add: thr_bstream_refil_def store_at_def recv_count_def t_inv_def)
  ultimately show ?thesis using assms u by (simp add: t_inv_def t_pending_def)
qed

text \<open>One pass of the loop of \<^verbatim>\<open>bstream_readln\<close> over pending bytes, without or with a newline.\<close>

lemma thr_readln_pass:
  assumes "t_inv b" "t_pending b \<noteq> []" "\<forall>n. al n" "old = (case ln of None \<Rightarrow> [] | Some l \<Rightarrow> l)"
    and "thr_bstream_refil recv b0 d0 = Some (n, b, d) \<and> 0 < n \<and> ridx b0 = bcnt b0 \<or> b0 = b \<and> d0 = d"
  shows "\<exists>b'. t_inv b' \<and> (if 10 \<in> set (t_pending b)
     then \<exists>l rest. t_pending b = l @ 10 # rest \<and> 10 \<notin> set l
       \<and> thr_readln_loop al recv ln b0 d0 = Some (Some (old @ l @ [10]), b', d) \<and> t_pending b' = rest
     else thr_readln_loop al recv ln b0 d0 = thr_readln_loop al recv (Some (old @ t_pending b)) b' d \<and> t_pending b' = [])"
proof -
  let ?p = "t_pending b" and ?l = "takeWhile (\<lambda>c. c \<noteq> 10) (t_pending b)"
  have ne: "ridx b \<noteq> bcnt b" using t_pending_empty assms(1,2) by blast
  have len: "unat (bcnt b - ridx b) = length ?p" using length_t_pending [OF assms(1)] by simp
  define cnt where "cnt = (if 10 \<in> set ?p then length ?l + 1 else length ?p)"
  have "10 \<in> set ?p \<Longrightarrow> length ?l < length ?p" using takeWhile_shorter [of "\<lambda>c. c \<noteq> 10" ?p] by auto
  then have cnt: "0 < cnt" "cnt \<le> length ?p" using assms(2) by (auto simp: cnt_def)
  obtain c b' where b': "thr_bstream_readsome recv cnt b d = Some (c, take cnt ?p, b', d)" "t_inv b'" "t_pending b' = drop cnt ?p"
    using thr_readsome_pending [OF assms(1) cnt, of recv d] by auto
  have loop: "thr_readln_loop al recv ln b0 d0 = (if 10 \<in> set ?p then Some (Some (old @ take cnt ?p), b', d)
      else thr_readln_loop al recv (Some (old @ take cnt ?p)) b' d)"
    using assms(3-5) ne b'(1) thr_find_eol_pending [OF assms(1)] len
    by (subst thr_readln_loop.simps) (auto simp: Let_def cnt_def)
  show ?thesis
  proof (cases "10 \<in> set ?p")
    case False
    then show ?thesis using loop b' by (auto simp: cnt_def)
  next
    case True
    then obtain l rest where p: "?p = l @ 10 # rest" "10 \<notin> set l" by (metis split_list_first)
    then have "?l = l" by (simp add: takeWhile_stop takeWhile_neq)
    then have "take cnt ?p = l @ [10]" "drop cnt ?p = rest" using p by (simp_all add: cnt_def)
    then show ?thesis using loop True b' p by auto
  qed
qed

lemma first_newline:
  assumes "p @ q = l @ 10 # rest" "(10 :: u8) \<notin> set l"
  shows "10 \<notin> set p \<Longrightarrow> \<exists>l'. l = p @ l' \<and> q = l' @ 10 # rest"
    and "p = l1 @ 10 # rest1 \<Longrightarrow> 10 \<notin> set l1 \<Longrightarrow> l1 = l \<and> rest1 @ q = rest"
  using assms by (auto simp: append_eq_append_conv2 append_eq_Cons_conv Cons_eq_append_conv)

lemma thr_readln_loop_empty:
  assumes "t_inv b" "t_pending b = []" "delivers recv d cs d'" "concat cs = l @ 10 # rest" "10 \<notin> set l" "\<forall>n. al n"
  shows "\<exists>b' d1. thr_readln_loop al recv ln b d = Some (Some ((case ln of None \<Rightarrow> [] | Some l \<Rightarrow> l) @ l @ [10]), b', d1)
    \<and> to_come recv b' d1 rest d'"
  using assms(1-5)
proof (induction cs arbitrary: b d l ln)
  case (Cons c cs)
  obtain d1 where d1: "recv BSTREAM_BUFSIZE d = (Some c, d1)" "c \<noteq> []" "length c \<le> BSTREAM_BUFSIZE" "delivers recv d1 cs d'"
    using Cons.prems(3) by auto
  obtain n b1 where b1: "thr_bstream_refil recv b d = Some (n, b1, d1)" "0 < n" "t_inv b1" "t_pending b1 = c"
    using thr_refil_delivers [of b recv d c d1] Cons.prems(1) d1(1-3) by auto
  have e: "ridx b = bcnt b" using t_pending_empty Cons.prems(1,2) by blast
  have w: "c @ concat cs = l @ 10 # rest" using Cons.prems(4) by simp
  obtain b' where b': "t_inv b'" "if 10 \<in> set c
     then \<exists>l rest. c = l @ 10 # rest \<and> 10 \<notin> set l
       \<and> thr_readln_loop al recv ln b d = Some (Some ((case ln of None \<Rightarrow> [] | Some l \<Rightarrow> l) @ l @ [10]), b', d1) \<and> t_pending b' = rest
     else thr_readln_loop al recv ln b d = thr_readln_loop al recv (Some ((case ln of None \<Rightarrow> [] | Some l \<Rightarrow> l) @ c)) b' d1 \<and> t_pending b' = []"
    using thr_readln_pass [OF b1(3) _ assms(6) refl, of recv b d n d1 ln] b1 d1(2) e by auto
  show ?case
  proof (cases "10 \<in> set c")
    case True
    then obtain l1 rest1 where r: "c = l1 @ 10 # rest1" "10 \<notin> set l1" "t_pending b' = rest1"
      "thr_readln_loop al recv ln b d = Some (Some ((case ln of None \<Rightarrow> [] | Some l \<Rightarrow> l) @ l1 @ [10]), b', d1)"
      using b'(2) by auto
    then show ?thesis using first_newline(2) [OF w Cons.prems(5) r(1,2)] b'(1) d1(4) by (auto simp: to_come_def)
  next
    case False
    obtain l' where l': "l = c @ l'" "concat cs = l' @ 10 # rest"
      using first_newline(1) [OF w Cons.prems(5) False] by auto
    moreover have "10 \<notin> set l'" using Cons.prems(5) l'(1) by simp
    ultimately show ?thesis using Cons.IH [OF b'(1) _ d1(4) l'(2), of "Some ((case ln of None \<Rightarrow> [] | Some l \<Rightarrow> l) @ c)"] b'(2) False by simp
  qed
qed simp

lemma thr_readln_reads:
  assumes "to_come recv b d (l @ 10 # rest) d'" "10 \<notin> set l" "\<forall>n. al n"
  shows "\<exists>b' d1. thr_bstream_readln al recv b d = Some (Some (l @ [10]), b', d1) \<and> to_come recv b' d1 rest d'"
proof -
  obtain cs where cs: "t_inv b" "delivers recv d cs d'" "t_pending b @ concat cs = l @ 10 # rest"
    using assms(1) by (auto simp: to_come_def)
  show ?thesis
  proof (cases "t_pending b = []")
    case True
    then show ?thesis
      using thr_readln_loop_empty [OF cs(1) True cs(2) _ assms(2,3), of rest None] cs(3) by (simp add: thr_bstream_readln_def)
  next
    case False
    obtain b' where b': "t_inv b'" "if 10 \<in> set (t_pending b)
       then \<exists>l rest. t_pending b = l @ 10 # rest \<and> 10 \<notin> set l
         \<and> thr_readln_loop al recv None b d = Some (Some (l @ [10]), b', d) \<and> t_pending b' = rest
       else thr_readln_loop al recv None b d = thr_readln_loop al recv (Some (t_pending b)) b' d \<and> t_pending b' = []"
      using thr_readln_pass [OF cs(1) False assms(3) refl, of recv b d _ d None, unfolded option.case append_Nil] by auto
    show ?thesis
    proof (cases "10 \<in> set (t_pending b)")
      case True
      then obtain l1 rest1 where r: "t_pending b = l1 @ 10 # rest1" "10 \<notin> set l1" "t_pending b' = rest1"
        "thr_readln_loop al recv None b d = Some (Some (l1 @ [10]), b', d)"
        using b'(2) by auto
      then show ?thesis
        using first_newline(2) [OF cs(3) assms(2) r(1,2)] b'(1) cs(2) by (auto simp: to_come_def thr_bstream_readln_def)
    next
      case no_nl: False
      obtain l' where l': "l = t_pending b @ l'" "concat cs = l' @ 10 # rest"
        using first_newline(1) [OF cs(3) assms(2) no_nl] by auto
      then show ?thesis
        using thr_readln_loop_empty [OF b'(1) _ cs(2) l'(2) _ assms(3), of "Some (t_pending b)"] b'(2) no_nl assms(2)
        by (simp add: thr_bstream_readln_def)
    qed
  qed
qed

lemma thr_headers_read:
  assumes "to_come (n_recv net) b d (concat (map (\<lambda>l. l @ [10]) hs) @ [13, 10] @ rest) d'" "\<forall>n. al n"
    and "\<forall>l \<in> set hs. 10 \<notin> set l \<and> c_string (l @ [10]) \<noteq> [13, 10]"
  shows "\<exists>b' d1. thr_headers_loop al net h b d = Some (fold (\<lambda>l. header_line (c_string (l @ [10]))) hs h, b', d1)
    \<and> to_come (n_recv net) b' d1 rest d'"
  using assms(1,3)
proof (induction hs arbitrary: b d h)
  case Nil
  then obtain b' d1 where "thr_bstream_readln al (n_recv net) b d = Some (Some ([13] @ [10]), b', d1)" "to_come (n_recv net) b' d1 rest d'"
    using thr_readln_reads [of "n_recv net" b d "[13]" rest d' al] assms(2) by auto
  then show ?case by (subst thr_headers_loop.simps) (simp add: c_string_def)
next
  case (Cons l hs)
  obtain b' d1 where b': "thr_bstream_readln al (n_recv net) b d = Some (Some (l @ [10]), b', d1)"
    "to_come (n_recv net) b' d1 (concat (map (\<lambda>l. l @ [10]) hs) @ [13, 10] @ rest) d'"
    using thr_readln_reads [of "n_recv net" b d l "concat (map (\<lambda>l. l @ [10]) hs) @ [13, 10] @ rest" d' al] Cons.prems assms(2) by auto
  then show ?case
    using Cons.IH [OF b'(2), of "header_line (c_string (l @ [10])) h"] Cons.prems(2) by (subst thr_headers_loop.simps) simp
qed

lemma thr_parse_request_line:
  assumes "ci_eq meth (bytes ''GET'')" "meth \<noteq> []" "doc \<noteq> []" "ver \<noteq> []"
    and "32 \<notin> set meth" "32 \<notin> set doc" "set ver \<inter> {10, 13, 32} = {}"
  shows "thr_parse_request (meth @ [32] @ doc @ [32] @ ver @ [13, 10]) = Some (meth, doc, ver)"
proof -
  have "strtok_r [32] (meth @ [32] @ doc @ [32] @ ver @ [13, 10]) = Some (meth, doc @ [32] @ ver @ [13, 10])"
    using strtok_r_token [of meth "[32]" "[32] @ doc @ [32] @ ver @ [13, 10]"] assms(2,5) by auto
  moreover have "strtok_r [32] (doc @ [32] @ ver @ [13, 10]) = Some (doc, ver @ [13, 10])"
    using strtok_r_token [of doc "[32]" "[32] @ ver @ [13, 10]"] assms(3,6) by auto
  moreover have "strtok_r [32, 13, 10] (ver @ [13, 10]) = Some (ver, [10])"
    using strtok_r_token [of ver "[32, 13, 10]" "[13, 10]"] assms(4,7) by auto
  ultimately show ?thesis using assms(1) by (simp add: thr_parse_request_def)
qed

subsection \<open>Answers\<close>

text \<open>What a client is to receive for a document, and how many bytes of it are counted.\<close>

definition answer :: "thr_server \<Rightarrow> cstr \<Rightarrow> cstr \<Rightarrow> cstr \<Rightarrow> u8 list" where
  "answer srv doc ver conn = (
     if take 5 doc = bytes ''/mem-'' then
       response_head ver (bytes ''200 OK'') conn (atol (drop 5 doc)) @ replicate (nat (atol (drop 5 doc))) 0
     else case files srv (rootfs srv @ [47] @ (if take 1 doc = [47] then drop 1 doc else doc)) of
       None \<Rightarrow> response_head ver (bytes ''404 Not found'') conn 0
     | Some body \<Rightarrow> response_head ver (bytes ''200 OK'') conn (int (length body)) @ body)"

definition counted :: "thr_server \<Rightarrow> cstr \<Rightarrow> nat" where
  "counted srv doc = (
     if take 5 doc = bytes ''/mem-'' then nat (atol (drop 5 doc))
     else case files srv (rootfs srv @ [47] @ (if take 1 doc = [47] then drop 1 doc else doc)) of
       None \<Rightarrow> 0 | Some body \<Rightarrow> length body)"

lemma thr_printf_ok:
  assumes "sends_all (n_send net) sent keep" "length w < 2 ^ 64" "\<forall>n. al n"
  shows "\<exists>d. thr_bstream_printf al net w s = Some (s\<lparr>sock := d\<rparr>) \<and> sent d = sent (sock s) @ w \<and> keep d = keep (sock s)"
  using bstream_write_ok [OF assms(1,2), of "sock s"] assms(3) by (auto simp: thr_bstream_printf_def)

lemma send_mem_loop_neg: "sz \<le> 0 \<Longrightarrow> send_mem_loop net sz 0 d = Some (0, d)"
  by (subst send_mem_loop.simps) simp

lemma thr_send_url_answers:
  assumes S: "sends_all (n_send net) sent keep" and "\<forall>n. alloc srv n" "txmode srv = TX_MMAP"
    and len: "length (answer srv doc ver conn) < 2 ^ 64"
  shows "\<exists>r d. thr_send_url srv net doc ver conn s = Some (r, s\<lparr>sock := d, tbytes := tbytes s + of_nat (counted srv doc)\<rparr>)
    \<and> sent d = sent (sock s) @ answer srv doc ver conn \<and> keep d = keep (sock s)"
proof (cases "take 5 doc = bytes ''/mem-''")
  case True
  let ?sz = "atol (drop 5 doc)"
  let ?hd = "response_head ver (bytes ''200 OK'') conn ?sz"
  have "?sz < 2 ^ 63" by (auto simp: atol_def strtol_def strtol_digits_def min_def Let_def split: prod.split)
  obtain d1 where d1: "thr_bstream_printf (alloc srv) net ?hd s = Some (s\<lparr>sock := d1\<rparr>)" "sent d1 = sent (sock s) @ ?hd"
    "keep d1 = keep (sock s)"
    using thr_printf_ok [OF S, of ?hd "alloc srv" s] assms(2) len True by (auto simp: answer_def)
  obtain m d2 where d2: "send_mem_loop net ?sz 0 d1 = Some (m, d2)" "of_int m = (of_nat (nat ?sz) :: u64)"
    "sent d2 = sent d1 @ replicate (nat ?sz) 0" "keep d2 = keep d1"
  proof (cases "?sz \<le> 0")
    case True
    then show ?thesis using that [of 0 d1] send_mem_loop_neg [OF True, of net d1] by simp
  next
    case False
    then show ?thesis
      using that [of ?sz] send_mem_loop_ok [OF S, of 0 ?sz d1] \<open>?sz < 2 ^ 63\<close> by (auto simp: of_nat_nat)
  qed
  show ?thesis using True d1 d2 by (auto simp: thr_send_url_def thr_send_mem_def answer_def counted_def)
next
  case False
  note mem = this
  let ?path = "rootfs srv @ [47] @ (if take 1 doc = [47] then drop 1 doc else doc)"
  show ?thesis
  proof (cases "files srv ?path")
    case None
    then obtain d1 where d1: "thr_bstream_printf (alloc srv) net (answer srv doc ver conn) s = Some (s\<lparr>sock := d1\<rparr>)"
      "sent d1 = sent (sock s) @ answer srv doc ver conn" "keep d1 = keep (sock s)"
      using thr_printf_ok [OF S len, of "alloc srv" s] assms(2) by auto
    have "answer srv doc ver conn = response_head ver (bytes ''404 Not found'') conn 0" "counted srv doc = 0"
      using None mem by (simp_all add: answer_def counted_def)
    then show ?thesis using d1 None mem assms(2) by (auto simp: thr_send_url_def thr_send_doc_def Let_def)
  next
    case (Some body)
    let ?hd = "response_head ver (bytes ''200 OK'') conn (int (length body))"
    have a: "answer srv doc ver conn = ?hd @ body" "counted srv doc = length body"
      using Some mem by (simp_all add: answer_def counted_def)
    obtain d1 where d1: "thr_bstream_printf (alloc srv) net ?hd s = Some (s\<lparr>sock := d1\<rparr>)" "sent d1 = sent (sock s) @ ?hd"
      "keep d1 = keep (sock s)"
      using thr_printf_ok [OF S, of ?hd "alloc srv" s] assms(2) len a(1) by auto
    obtain d2 where d2: "thr_mmap_tx net body d1 = Some (if body = [] then -1 else 0, d2)" "sent d2 = sent d1 @ body" "keep d2 = keep d1"
      using bstream_write_ok [OF S, of body d1] len a(1) by (cases "body = []") (auto simp: thr_mmap_tx_def)
    show ?thesis
      using d1 d2 Some mem assms(2,3) a by (auto simp: thr_send_url_def thr_send_doc_def Let_def)
  qed
qed

subsection \<open>Sessions of several requests\<close>

text \<open>A connection whose two directions do not touch each other.\<close>

definition duplex :: "(nat \<Rightarrow> 'i \<Rightarrow> u8 list option \<times> 'i) \<Rightarrow> (u8 list \<Rightarrow> 'o \<Rightarrow> nat option \<times> 'o) \<Rightarrow> ('i \<times> 'o) net" where
  "duplex recv send = \<lparr>n_recv = (\<lambda>n d. case recv n (fst d) of (r, i) \<Rightarrow> (r, i, snd d)),
     n_send = (\<lambda>bs d. case send bs (snd d) of (r, out) \<Rightarrow> (r, fst d, out)), n_sendfile = (\<lambda>bs d. (-1, d))\<rparr>"

lemma duplex_sends: "sends_all send sent (\<lambda>d. ()) \<Longrightarrow> sends_all (n_send (duplex recv send)) (\<lambda>d. sent (snd d)) fst"
  unfolding sends_all_def
proof (intro allI impI)
  fix bs :: "u8 list" and d :: "'b \<times> 'a"
  assume S: "\<forall>bs d. bs \<noteq> [] \<longrightarrow> (\<exists>k d'. send bs d = (Some k, d') \<and> 0 < k \<and> k \<le> length bs \<and> sent d' = sent d @ take k bs \<and> () = ())"
    and "bs \<noteq> []"
  then obtain k out where "send bs (snd d) = (Some k, out)" "0 < k" "k \<le> length bs" "sent out = sent (snd d) @ take k bs" by blast
  then show "\<exists>k d'. n_send (duplex recv send) bs d = (Some k, d') \<and> 0 < k \<and> k \<le> length bs
      \<and> sent (snd d') = sent (snd d) @ take k bs \<and> fst d' = fst d"
    by (simp add: duplex_def)
qed

lemma duplex_delivers: "delivers (n_recv (duplex recv send)) d cs d' \<longleftrightarrow> delivers recv (fst d) cs (fst d') \<and> snd d' = snd d"
  by (induction cs arbitrary: d) (auto simp: duplex_def prod_eq_iff split: prod.splits)

lemma duplex_to_come:
  "to_come (n_recv (duplex recv send)) b d w d' \<longleftrightarrow> to_come recv b (fst d) w (fst d') \<and> snd d' = snd d"
  by (auto simp: to_come_def duplex_delivers)

record http_request =
  rq_doc :: cstr
  rq_ver :: cstr
  rq_hs :: "cstr list"

definition rq_headers :: "http_request \<Rightarrow> headers" where
  "rq_headers r = fold (\<lambda>l. header_line (c_string (l @ [10]))) (rq_hs r)
     \<lparr>clen = 0, chunked = False, cclose = \<not> ci_eq (rq_ver r) (bytes ''HTTP/1.1'')\<rparr>"

definition rq_bytes :: "http_request \<Rightarrow> u8 list" where
  "rq_bytes r = request (rq_doc r) (rq_ver r) (rq_hs r)"

definition rq_answer :: "thr_server \<Rightarrow> http_request \<Rightarrow> u8 list" where
  "rq_answer srv r = answer srv (rq_doc r) (rq_ver r) (if cclose (rq_headers r) then bytes ''close'' else bytes ''keep-alive'')"

definition rq_ok :: "thr_server \<Rightarrow> http_request \<Rightarrow> bool" where
  "rq_ok srv r \<longleftrightarrow> rq_doc r \<noteq> [] \<and> set (rq_doc r) \<inter> {0, 10, 32} = {} \<and> rq_ver r \<noteq> [] \<and> set (rq_ver r) \<inter> {0, 10, 13, 32} = {}
     \<and> (\<forall>l \<in> set (rq_hs r). 10 \<notin> set l \<and> c_string (l @ [10]) \<noteq> [13, 10])
     \<and> clen (rq_headers r) = 0 \<and> \<not> chunked (rq_headers r) \<and> length (rq_answer srv r) < 2 ^ 64"

lemma thr_pass_answers:
  assumes S: "sends_all send sent (\<lambda>d. ())" and al: "\<forall>n. alloc srv n" and tx: "txmode srv = TX_MMAP" and ok: "rq_ok srv r"
    and w: "to_come recv b i (rq_bytes r @ rest) i'"
  shows "\<exists>b' i1 out1. thr_pass srv (duplex recv send) \<lparr>bstr = b, sock = (i, out), reqs = n, tbytes = t\<rparr> =
      Some (\<not> cclose (rq_headers r), \<lparr>bstr = b', sock = (i1, out1), reqs = n + 1, tbytes = t + of_nat (counted srv (rq_doc r))\<rparr>)
    \<and> to_come recv b' i1 rest i' \<and> sent out1 = sent out @ rq_answer srv r"
proof -
  let ?net = "duplex recv send" and ?al = "alloc srv" and ?h = "rq_headers r"
  let ?l = "bytes ''GET'' @ [32] @ rq_doc r @ [32] @ rq_ver r @ [13]"
  let ?hs = "concat (map (\<lambda>l. l @ [10]) (rq_hs r)) @ [13, 10] @ rest"
  have "rq_bytes r @ rest = ?l @ 10 # ?hs" by (simp add: rq_bytes_def request_def bytes_def)
  then have w1: "to_come (n_recv ?net) b (i, out) (?l @ 10 # ?hs) (i', out)" using w by (simp add: duplex_to_come)
  have l: "10 \<notin> set ?l" "0 \<notin> set ?l" using ok by (auto simp: rq_ok_def bytes_def)
  obtain b1 d1 where b1: "thr_bstream_readln ?al (n_recv ?net) b (i, out) = Some (Some (?l @ [10]), b1, d1)"
    "to_come (n_recv ?net) b1 d1 ?hs (i', out)"
    using thr_readln_reads [OF w1 l(1) al] by blast
  have hs: "\<forall>l \<in> set (rq_hs r). 10 \<notin> set l \<and> c_string (l @ [10]) \<noteq> [13, 10]" using ok by (simp add: rq_ok_def)
  obtain b2 d2 where b2: "thr_headers_loop ?al ?net \<lparr>clen = 0, chunked = False, cclose = \<not> ci_eq (rq_ver r) (bytes ''HTTP/1.1'')\<rparr> b1 d1
      = Some (?h, b2, d2)" "to_come (n_recv ?net) b2 d2 rest (i', out)"
    using thr_headers_read [OF b1(2) al hs] unfolding rq_headers_def by blast
  have out: "snd d2 = out" "to_come recv b2 (fst d2) rest i'" using b2(2) by (auto simp: duplex_to_come)
  have "thr_parse_request (c_string (?l @ [10])) = Some (bytes ''GET'', rq_doc r, rq_ver r)"
  proof -
    have "c_string (?l @ [10]) = ?l @ [10]" using l(2) unfolding c_string_def by (intro takeWhile_neq) simp
    then show ?thesis
      using thr_parse_request_line [of "bytes ''GET''" "rq_doc r" "rq_ver r"] ok by (auto simp: rq_ok_def ci_eq_def bytes_def)
  qed
  moreover obtain x d3 where "thr_send_url srv ?net (rq_doc r) (rq_ver r) (if cclose ?h then bytes ''close'' else bytes ''keep-alive'')
        \<lparr>bstr = b2, sock = d2, reqs = n + 1, tbytes = t\<rparr>
      = Some (x, \<lparr>bstr = b2, sock = d3, reqs = n + 1, tbytes = t + of_nat (counted srv (rq_doc r))\<rparr>)"
    "sent (snd d3) = sent (snd d2) @ rq_answer srv r" "fst d3 = fst d2"
    using thr_send_url_answers [OF duplex_sends [OF S] al tx, of "rq_doc r" "rq_ver r" _ recv "\<lparr>bstr = b2, sock = d2, reqs = n + 1, tbytes = t\<rparr>"] ok
    by (fastforce simp: rq_ok_def rq_answer_def)
  ultimately show ?thesis
    using b1(1) b2(1) out ok by (intro exI [of _ b2] exI [of _ "fst d3"] exI [of _ "snd d3"]) (simp add: thr_pass_def Let_def rq_ok_def prod_eq_iff)
qed

lemma thr_loop_answers:
  assumes S: "sends_all send sent (\<lambda>d. ())" and al: "\<forall>n. alloc srv n" and tx: "txmode srv = TX_MMAP"
    and "\<forall>r \<in> set rs. rq_ok srv r \<and> \<not> cclose (rq_headers r)" "rq_ok srv r'" "cclose (rq_headers r')"
    and "to_come recv b i (concat (map rq_bytes rs) @ rq_bytes r') i'"
  shows "\<exists>s. thr_loop srv (duplex recv send) (\<lambda>d. False) \<lparr>bstr = b, sock = (i, out), reqs = n, tbytes = t\<rparr> = Some s
    \<and> sent (snd (sock s)) = sent out @ concat (map (rq_answer srv) (rs @ [r']))
    \<and> reqs s = n + of_nat (length (rs @ [r'])) \<and> tbytes s = t + of_nat (sum_list (map (\<lambda>r. counted srv (rq_doc r)) (rs @ [r'])))"
  using assms(4,7)
proof (induction rs arbitrary: b i out n t)
  case Nil
  then show ?case
    using thr_pass_answers [OF S al tx assms(5), of recv b i "[]" i' out n t] assms(6)
    by (subst thr_loop.simps) auto
next
  case (Cons r rs)
  obtain b' i1 out1 where p: "thr_pass srv (duplex recv send) \<lparr>bstr = b, sock = (i, out), reqs = n, tbytes = t\<rparr> =
      Some (True, \<lparr>bstr = b', sock = (i1, out1), reqs = n + 1, tbytes = t + of_nat (counted srv (rq_doc r))\<rparr>)"
    "to_come recv b' i1 (concat (map rq_bytes rs) @ rq_bytes r') i'" "sent out1 = sent out @ rq_answer srv r"
    using thr_pass_answers [OF S al tx, of r recv b i "concat (map rq_bytes rs) @ rq_bytes r'" i' out n t] Cons.prems by auto
  then show ?case
    using Cons.IH [OF _ p(2), of out1 "n + 1" "t + of_nat (counted srv (rq_doc r))"] Cons.prems(1)
    by (subst thr_loop.simps) (auto simp: algebra_simps)
qed

subsection \<open>Properties\<close>

text \<open>C4. A client that sends any number of requests over one connection, all but the last asking to keep it
  open, receives exactly the answers in the order of the requests, however the network cuts the requests (in the middle of
  a line, several in one packet) and the answers into pieces. The thread ends after the last answer, and its requests and the
  bytes of the documents are counted. The server maps its files, allocations succeed and nobody stops it.\<close>

theorem thr_session_answers:
  assumes "sends_all send sent (\<lambda>d. ())" "\<forall>n. alloc srv n" "txmode srv = TX_MMAP"
    and "\<forall>r \<in> set rs. rq_ok srv r \<and> \<not> cclose (rq_headers r)" "rq_ok srv r'" "cclose (rq_headers r')"
    and "delivers recv i cs i'" "concat cs = concat (map rq_bytes (rs @ [r']))" "length mem = BSTREAM_BUFSIZE"
  shows "\<exists>i1 out1. thproc srv (duplex recv send) (\<lambda>d. False) mem (i, out) n t =
      Some ((i1, out1), n + of_nat (length (rs @ [r'])), t + of_nat (sum_list (map (\<lambda>r. counted srv (rq_doc r)) (rs @ [r']))))
    \<and> sent out1 = sent out @ concat (map (rq_answer srv) (rs @ [r']))"
proof -
  let ?b = "\<lparr>ridx = 0, bcnt = 0, buf = mem\<rparr>"
  have "to_come recv ?b i (concat (map rq_bytes rs) @ rq_bytes r') i'"
    using assms(7-9) by (auto simp: to_come_def t_inv_def t_pending_def)
  then obtain s where "thr_loop srv (duplex recv send) (\<lambda>d. False) \<lparr>bstr = ?b, sock = (i, out), reqs = n, tbytes = t\<rparr> = Some s"
    "sent (snd (sock s)) = sent out @ concat (map (rq_answer srv) (rs @ [r']))"
    "reqs s = n + of_nat (length (rs @ [r']))" "tbytes s = t + of_nat (sum_list (map (\<lambda>r. counted srv (rq_doc r)) (rs @ [r'])))"
    using thr_loop_answers [OF assms(1-6), of recv ?b i i' out n t] by auto
  then show ?thesis using assms(2) by (cases "sock s") (auto simp: thproc_def thr_bstream_open_def)
qed

text \<open>A peer that sends pieces one by one, and a server with one file.\<close>

fun piece_recv :: "nat \<Rightarrow> u8 list list \<Rightarrow> u8 list option \<times> u8 list list" where
  "piece_recv n [] = (Some [], [])"
| "piece_recv n (c # cs) = (Some c, cs)"

definition thr_demo_server :: thr_server where
  "thr_demo_server = \<lparr>rootfs = [46], txmode = TX_MMAP,
     files = (\<lambda>p. if p = bytes ''./a'' then Some [65, 66] else None), alloc = (\<lambda>n. True)\<rparr>"

theorem thr_session_answers_witness:
  "\<exists>i1 out1. thproc thr_demo_server (duplex piece_recv take_send) (\<lambda>d. False) (replicate BSTREAM_BUFSIZE 0)
      ([bytes ''GE'', bytes ''T /a HTTP/1.1'' @ [13], [10, 13, 10] @ bytes ''GET /b HTTP/1.0'' @ [13, 10, 13, 10]], ([0], [])) 0 0
      = Some ((i1, out1), 2, 2)
    \<and> snd out1 = response_head (bytes ''HTTP/1.1'') (bytes ''200 OK'') (bytes ''keep-alive'') 2 @ [65, 66]
        @ response_head (bytes ''HTTP/1.0'') (bytes ''404 Not found'') (bytes ''close'') 0"
proof -
  let ?a = "\<lparr>rq_doc = bytes ''/a'', rq_ver = bytes ''HTTP/1.1'', rq_hs = []\<rparr>"
  let ?b = "\<lparr>rq_doc = bytes ''/b'', rq_ver = bytes ''HTTP/1.0'', rq_hs = []\<rparr>"
  let ?cs = "[bytes ''GE'', bytes ''T /a HTTP/1.1'' @ [13], [10, 13, 10] @ bytes ''GET /b HTTP/1.0'' @ [13, 10, 13, 10]]"
  have h: "rq_headers ?a = \<lparr>clen = 0, chunked = False, cclose = False\<rparr>" "rq_headers ?b = \<lparr>clen = 0, chunked = False, cclose = True\<rparr>"
    by (simp_all add: rq_headers_def ci_eq_def bytes_def toupper8_def islower8_def)
  have ans: "rq_answer thr_demo_server ?a = response_head (bytes ''HTTP/1.1'') (bytes ''200 OK'') (bytes ''keep-alive'') 2 @ [65, 66]"
    "rq_answer thr_demo_server ?b = response_head (bytes ''HTTP/1.0'') (bytes ''404 Not found'') (bytes ''close'') 0"
    unfolding rq_answer_def h by (simp_all add: answer_def thr_demo_server_def bytes_def)
  have c: "counted thr_demo_server (bytes ''/a'') = 2" "counted thr_demo_server (bytes ''/b'') = 0"
    by (simp_all add: counted_def thr_demo_server_def bytes_def)
  have ok: "rq_ok thr_demo_server ?a" "rq_ok thr_demo_server ?b"
    unfolding rq_ok_def h ans by (simp_all add: bytes_def response_head_def crlf_def fmt_d_def dec_digits.simps)
  have "delivers piece_recv ?cs ?cs []" by (simp add: bytes_def BSTREAM_BUFSIZE_def)
  moreover have "concat ?cs = concat (map rq_bytes ([?a] @ [?b]))" by (simp add: rq_bytes_def request_def bytes_def)
  ultimately show ?thesis
    using thr_session_answers [OF take_send_all, of thr_demo_server "[?a]" ?b piece_recv ?cs ?cs "[]" "replicate BSTREAM_BUFSIZE 0" "([0], [])" 0 0]
      ok ans c h by (simp add: thr_demo_server_def)
qed

text \<open>When \<^verbatim>\<open>recv\<close> fails, what the buffer still holds from earlier is taken for new data: \<^verbatim>\<open>bstream_readln\<close>
  returns the first line of the old buffer again instead of reporting the end of the connection, because the -1 is kept in a
  \<^verbatim>\<open>size_t\<close>.\<close>

theorem thr_stale_request:
  assumes "t_inv b" "ridx b = bcnt b" "recv BSTREAM_BUFSIZE d = (None, d')" "buf b = l @ 10 # rest" "10 \<notin> set l" "\<forall>n. al n"
  shows "thr_bstream_readln al recv b d
    = Some (Some (l @ [10]), \<lparr>ridx = of_nat (length l + 1), bcnt = -1, buf = buf b\<rparr>, d')"
proof -
  let ?b = "\<lparr>ridx = 0, bcnt = -1, buf = buf b\<rparr>"
  have u: "unat (-1 :: u64) = 2 ^ 64 - 1" by (simp add: unsigned_minus_1_eq_mask mask_eq_exp_minus_1)
  have len: "length l + 1 \<le> 4096" "length (buf b) = 4096"
    using assms(1,4) by (auto simp: t_inv_def BSTREAM_BUFSIZE_def)
  have refil: "thr_bstream_refil recv b d = Some (-1, ?b, d')"
    using assms(3) by (simp add: thr_bstream_refil_def recv_count_def)
  have "takeWhile (\<lambda>c. c \<noteq> 10) (buf b) = l" using assms(4,5) by (simp add: takeWhile_stop takeWhile_neq)
  then have eol: "thr_find_eol ?b = Some (Some (length l))"
    using u len by (simp add: thr_find_eol_def Let_def)
  have un: "unat (of_nat (length l + 1) :: u64) = length l + 1" using len by (simp only: unat_of_nat) simp
  then have "of_nat (length l + 1) < (-1 :: u64)" using u len unfolding word_less_nat_alt by simp
  then have "thr_bstream_readsome recv (length l + 1) ?b d'
      = Some (of_nat (length l + 1), take (length l + 1) (buf b), \<lparr>ridx = of_nat (length l + 1), bcnt = -1, buf = buf b\<rparr>, d')"
    using un len u by (simp add: thr_bstream_readsome_def Let_def word_less_nat_alt del: of_nat_add of_nat_Suc)
  then show ?thesis
    unfolding thr_bstream_readln_def
    using refil eol assms(2,4,6) by (subst thr_readln_loop.simps) (simp add: Let_def del: of_nat_add of_nat_Suc)
qed

end
