(* ===== verification/HttpMain.thy ===== *)
theory HttpMain
  imports SessionQueue ThrHttp "HOL-Library.Multiset"
begin

text \<open>
  How the two HTTP servers come up: \<^verbatim>\<open>main\<close> of \<^verbatim>\<open>thrplhttp.c\<close> with the wrappers that exit when a call fails and the contexts of the
  processors, and \<^verbatim>\<open>main\<close> of \<^verbatim>\<open>thrhttp.c\<close>. The answers of the kernel and of the thread library are parameters. \<open>Inl\<close> is the exit
  status, \<open>None\<close> a store outside a block or an overflow.
\<close>

subsection \<open>Wrappers\<close>

definition xpthread_create :: "int \<Rightarrow> int + unit" where
  "xpthread_create r = (if r \<noteq> 0 then Inl 1 else Inr ())"

definition xpthread_key_create :: "int \<Rightarrow> int + unit" where
  "xpthread_key_create r = (if r \<noteq> 0 then Inl 1 else Inr ())"

definition xpthread_mutex_init :: "int \<Rightarrow> int + unit" where
  "xpthread_mutex_init r = (if r \<noteq> 0 then Inl 1 else Inr ())"

definition xpthread_cond_init :: "int \<Rightarrow> int + unit" where
  "xpthread_cond_init r = (if r \<noteq> 0 then Inl 1 else Inr ())"

definition xpthread_setspecific :: "int \<Rightarrow> int + unit" where
  "xpthread_setspecific r = (if r \<noteq> 0 then Inl 1 else Inr ())"

definition xsched_setaffinity :: "int \<Rightarrow> int + unit" where
  "xsched_setaffinity r = (if r \<noteq> 0 then Inl 1 else Inr ())"

definition xpipe :: "int \<Rightarrow> int + unit" where
  "xpipe r = (if r \<noteq> 0 then Inl 1 else Inr ())"

definition xsocket :: "int \<Rightarrow> int + int" where
  "xsocket fd = (if fd = -1 then Inl 1 else Inr fd)"

definition xbind :: "int \<Rightarrow> int + unit" where
  "xbind r = (if r = -1 then Inl 1 else Inr ())"

text \<open>\<open>avail\<close> says which sizes can be had. \<^verbatim>\<open>malloc\<close> refuses a size that a signed \<^verbatim>\<open>long\<close> cannot hold.\<close>

definition xmalloc :: "(u64 \<Rightarrow> bool) \<Rightarrow> u64 \<Rightarrow> int + nat" where
  "xmalloc avail sz = (if 2 ^ 63 \<le> unat sz \<or> \<not> avail sz then Inl 1 else Inr (unat sz))"

definition after :: "int + 'a \<Rightarrow> ('a \<Rightarrow> (int + 'b) option) \<Rightarrow> (int + 'b) option" where
  "after r f = (case r of Inl e \<Rightarrow> Some (Inl e) | Inr x \<Rightarrow> f x)"

lemma after_simps [simp]: "after (Inl e) f = Some (Inl e)" "after (Inr x) f = f x"
  by (simp_all add: after_def)

subsection \<open>The contexts of the pooled server\<close>

text \<open>\<open>k_mem n\<close> is what a new block of \<open>n\<close> numbers holds; \<open>k_thread cpu i\<close> answers the creation of the \<open>i\<close>-th thread of a processor.\<close>

record pl_kernel =
  k_stack :: "int \<Rightarrow> int"
  k_pipe :: int
  k_cpus :: int
  k_socket :: int
  k_bind :: "u16 \<Rightarrow> int"
  k_key :: int
  k_malloc :: "u64 \<Rightarrow> bool"
  k_mem :: "nat \<Rightarrow> int list"
  k_mutex :: "nat \<Rightarrow> int"
  k_cond :: "nat \<Rightarrow> int"
  k_thread :: "nat \<Rightarrow> nat \<Rightarrow> int"

datatype pl_thread = Serving nat | Accepting nat

record cpu_start =
  cs_nthreads :: int
  cs_threads :: "pl_thread list"
  cs_ctx :: per_cpu_ctx

text \<open>The \<open>i\<close>-th thread is stored in the block of \<open>bytes\<close>; a \<^verbatim>\<open>pthread_t\<close> has eight.\<close>

definition store_thread :: "pl_kernel \<Rightarrow> nat \<Rightarrow> nat \<Rightarrow> pl_thread \<Rightarrow> pl_thread list \<Rightarrow> (int + pl_thread list) option" where
  "store_thread k cpu sz th ths = after (xpthread_create (k_thread k cpu (length ths)))
     (\<lambda>_. if 8 * Suc (length ths) \<le> sz then Some (Inr (ths @ [th])) else None)"

fun create_threads :: "pl_kernel \<Rightarrow> nat \<Rightarrow> nat \<Rightarrow> nat \<Rightarrow> pl_thread list \<Rightarrow> (int + pl_thread list) option" where
  "create_threads k cpu sz 0 ths = store_thread k cpu sz (Accepting cpu) ths"
| "create_threads k cpu sz (Suc n) ths = (case store_thread k cpu sz (Serving cpu) ths of
     Some (Inr ths) \<Rightarrow> create_threads k cpu sz n ths | r \<Rightarrow> r)"

definition start_cpu :: "pl_kernel \<Rightarrow> nat \<Rightarrow> int \<Rightarrow> int \<Rightarrow> (int + cpu_start) option" where
  "start_cpu k cpu nthr qsz =
     after (xpthread_mutex_init (k_mutex k cpu)) (\<lambda>_.
     after (xpthread_cond_init (k_cond k (2 * cpu))) (\<lambda>_.
     after (xpthread_cond_init (k_cond k (2 * cpu + 1))) (\<lambda>_.
     if nthr + 1 = 2 ^ 31 then None
     else after (xmalloc (k_malloc k) (of_int (nthr + 1) * 8)) (\<lambda>sz.
     after (xmalloc (k_malloc k) (of_int qsz * 4)) (\<lambda>_.
     case create_threads k cpu sz (nat nthr) [] of
       None \<Rightarrow> None
     | Some (Inl e) \<Rightarrow> Some (Inl e)
     | Some (Inr ths) \<Rightarrow> Some (Inr \<lparr>cs_nthreads = nthr + 1, cs_threads = ths, cs_ctx = init_per_cpu_ctx (nat qsz) (k_mem k (nat qsz))\<rparr>))))))"

fun start_cpus :: "pl_kernel \<Rightarrow> pl_opts \<Rightarrow> nat \<Rightarrow> nat \<Rightarrow> (int + cpu_start list) option" where
  "start_cpus k opt cpu 0 = Some (Inr [])"
| "start_cpus k opt cpu (Suc n) = (case start_cpu k cpu (nthreads opt) (qsize_opt opt) of
     Some (Inr c) \<Rightarrow> (case start_cpus k opt (Suc cpu) n of Some (Inr cs) \<Rightarrow> Some (Inr (c # cs)) | r \<Rightarrow> r)
   | Some (Inl e) \<Rightarrow> Some (Inl e)
   | None \<Rightarrow> None)"

text \<open>\<^verbatim>\<open>main\<close> up to its loop. The port is cut to sixteen bits; a context has 256 bytes.\<close>

definition pl_start :: "pl_kernel \<Rightarrow> cstr list \<Rightarrow> (int + cpu_start list) option" where
  "pl_start k args = (case pl_options args pl_defaults of None \<Rightarrow> Some (Inl 1)
     | Some opt \<Rightarrow>
         if pl_stksize opt > 0 \<and> k_stack k (pl_stksize opt) \<noteq> 0 then Some (Inl 2)
         else after (xpipe (k_pipe k)) (\<lambda>_.
         after (xsocket (k_socket k)) (\<lambda>_.
         after (xbind (k_bind k (of_int (pl_port opt)))) (\<lambda>_.
         after (xpthread_key_create (k_key k)) (\<lambda>_.
         after (xmalloc (k_malloc k) (of_int (used_cpus (k_cpus k) opt) * 256)) (\<lambda>_.
         start_cpus k opt 0 (nat (used_cpus (k_cpus k) opt))))))))"

text \<open>The loop waits until the descriptor of the pipe can be read: the answers of \<^verbatim>\<open>poll\<close>, and whether \<^verbatim>\<open>POLLIN\<close> is set. Then the threads
  are joined and their counters added up.\<close>

fun pl_wait :: "(int \<times> bool) list \<Rightarrow> nat option" where
  "pl_wait [] = None"
| "pl_wait ((r, pollin) # ps) = (if r > 0 \<and> pollin then Some (length ps) else pl_wait ps)"

definition pl_main :: "pl_kernel \<Rightarrow> (int \<times> bool) list \<Rightarrow> (u64 \<times> u64 \<times> u64) list \<Rightarrow> cstr list \<Rightarrow> (int \<times> (u64 \<times> u64 \<times> u64)) option" where
  "pl_main k polls counters args = (case pl_start k args of None \<Rightarrow> None
     | Some (Inl e) \<Rightarrow> Some (e, (0, 0, 0))
     | Some (Inr cs) \<Rightarrow> (case pl_wait polls of None \<Rightarrow> None
         | Some _ \<Rightarrow> Some (0, pl_totals (take (length cs) counters) (0, 0, 0))))"

text \<open>A service thread binds itself to its processor and keeps its context before it serves; the context holds the processor.\<close>

definition setup_thread_ctx :: "int \<Rightarrow> (u64 \<Rightarrow> bool) \<Rightarrow> int \<Rightarrow> nat \<Rightarrow> (int + nat) option" where
  "setup_thread_ctx aff avail spec cpu = after (xsched_setaffinity aff) (\<lambda>_. after (xmalloc avail 4) (\<lambda>_.
     after (xpthread_setspecific spec) (\<lambda>_. Some (Inr cpu))))"

subsection \<open>What is started\<close>

text \<open>A kernel all of whose answers are good.\<close>

definition good_kernel :: "pl_kernel \<Rightarrow> bool" where
  "good_kernel k \<longleftrightarrow> (\<forall>n. k_stack k n = 0) \<and> k_pipe k = 0 \<and> k_socket k \<noteq> -1 \<and> (\<forall>p. k_bind k p \<noteq> -1) \<and> k_key k = 0
     \<and> (\<forall>n. k_malloc k n) \<and> (\<forall>n. length (k_mem k n) = n) \<and> (\<forall>c. k_mutex k c = 0) \<and> (\<forall>c. k_cond k c = 0) \<and> (\<forall>c i. k_thread k c i = 0)"

lemma create_threads_all:
  assumes "\<forall>i. k_thread k cpu i = 0" "8 * (length ths + n + 1) \<le> sz"
  shows "create_threads k cpu sz n ths = Some (Inr (ths @ replicate n (Serving cpu) @ [Accepting cpu]))"
  using assms(2)
proof (induction n arbitrary: ths)
  case (Suc n)
  then show ?case using assms(1) by (simp add: store_thread_def xpthread_create_def)
qed (simp add: store_thread_def xpthread_create_def assms(1))

lemma unat_of_int_mult:
  assumes "0 \<le> i" "i < 2 ^ 31" "j \<le> 256"
  shows "unat (of_int i * of_nat j :: u64) = nat i * j"
proof -
  have "nat i * j < 2 ^ 31 * 257" using assms by (intro mult_strict_mono) auto
  then have "nat i * j mod 2 ^ 64 = nat i * j" by simp
  moreover have "unat (of_nat (nat i * j) :: u64) = nat i * j mod 2 ^ 64" by (subst unat_of_nat) simp
  moreover have "(of_int i * of_nat j :: u64) = of_nat (nat i * j)" using assms(1) by simp
  ultimately show ?thesis by simp
qed

lemmas unat_of_int_4 = unat_of_int_mult [where j = 4, simplified] and unat_of_int_8 = unat_of_int_mult [where j = 8, simplified]
  and unat_of_int_256 = unat_of_int_mult [where j = 256, simplified]

lemma xmalloc_good: "\<forall>n. avail n \<Longrightarrow> unat sz < 2 ^ 63 \<Longrightarrow> xmalloc avail sz = Inr (unat sz)"
  by (simp add: xmalloc_def)

lemma start_cpu_good:
  assumes "good_kernel k" "0 \<le> nthr" "nthr + 1 < 2 ^ 31" "0 \<le> qsz" "qsz < 2 ^ 31"
  shows "start_cpu k cpu nthr qsz = Some (Inr \<lparr>cs_nthreads = nthr + 1, cs_threads = replicate (nat nthr) (Serving cpu) @ [Accepting cpu],
    cs_ctx = init_per_cpu_ctx (nat qsz) (k_mem k (nat qsz))\<rparr>)"
proof -
  have t: "unat (of_int (nthr + 1) * 8 :: u64) = nat (nthr + 1) * 8" using assms(2,3) by (intro unat_of_int_8) simp_all
  have q: "unat (of_int qsz * 4 :: u64) = nat qsz * 4" using assms(4,5) by (intro unat_of_int_4) simp_all
  have m: "\<forall>n. k_malloc k n" using assms(1) by (simp add: good_kernel_def)
  have "xmalloc (k_malloc k) (of_int (nthr + 1) * 8) = Inr (nat (nthr + 1) * 8)"
    using t assms(3) by (subst xmalloc_good [OF m]) auto
  moreover have "xmalloc (k_malloc k) (of_int qsz * 4) = Inr (nat qsz * 4)"
    using q assms(5) by (subst xmalloc_good [OF m]) auto
  moreover have "create_threads k cpu (nat (nthr + 1) * 8) (nat nthr) [] = Some (Inr ([] @ replicate (nat nthr) (Serving cpu) @ [Accepting cpu]))"
    using assms(1,2) by (intro create_threads_all) (auto simp: good_kernel_def)
  ultimately show ?thesis
    using assms(1,3) by (simp add: start_cpu_def good_kernel_def xpthread_mutex_init_def xpthread_cond_init_def del: of_int_add)
qed

lemma start_cpus_good:
  assumes "good_kernel k" "0 \<le> nthreads opt" "nthreads opt + 1 < 2 ^ 31" "0 \<le> qsize_opt opt" "qsize_opt opt < 2 ^ 31"
  shows "start_cpus k opt cpu n = Some (Inr (map (\<lambda>i. \<lparr>cs_nthreads = nthreads opt + 1,
    cs_threads = replicate (nat (nthreads opt)) (Serving i) @ [Accepting i],
    cs_ctx = init_per_cpu_ctx (nat (qsize_opt opt)) (k_mem k (nat (qsize_opt opt)))\<rparr>) [cpu..<cpu + n]))"
proof (induction n arbitrary: cpu)
  case (Suc n)
  have "[cpu..<cpu + Suc n] = cpu # [Suc cpu..<Suc cpu + n]" by (simp add: upt_conv_Cons)
  then show ?case using Suc [of "Suc cpu"] start_cpu_good [OF assms, of cpu] by simp
qed simp

text \<open>With answers that are all good, and sizes that are not negative, a context for every processor that is used is started: the service
  threads asked for and one acceptor, each on its processor, and the queue is the empty one from which all runs of the
  threads start; with a queue size of at least one it satisfies their invariant.\<close>

lemma pl_start_good:
  assumes "good_kernel k" "pl_options args pl_defaults = Some opt"
    and "0 \<le> nthreads opt" "nthreads opt + 1 < 2 ^ 31" "0 < qsize_opt opt" "qsize_opt opt < 2 ^ 31" "used_cpus (k_cpus k) opt < 2 ^ 31"
  shows "\<exists>cs. pl_start k args = Some (Inr cs) \<and> length cs = nat (used_cpus (k_cpus k) opt)
    \<and> (\<forall>i < length cs. cs_threads (cs ! i) = replicate (nat (nthreads opt)) (Serving i) @ [Accepting i]
        \<and> cs_nthreads (cs ! i) = int (length (cs_threads (cs ! i)))
        \<and> cs_ctx (cs ! i) = ctx (sys_init (nat (qsize_opt opt)) (k_mem k (nat (qsize_opt opt))))
        \<and> q_inv (cs_ctx (cs ! i)) \<and> qcontents (cs_ctx (cs ! i)) = [])"
proof -
  define mem where "mem = k_mem k (nat (qsize_opt opt))"
  have q: "q_inv (init_per_cpu_ctx (nat (qsize_opt opt)) mem) \<and> qcontents (init_per_cpu_ctx (nat (qsize_opt opt)) mem) = []"
    using assms(1,5) by (intro init_q_inv) (auto simp: good_kernel_def mem_def)
  have c: "0 < used_cpus (k_cpus k) opt" by (simp add: used_cpus_def)
  have "unat (of_int (used_cpus (k_cpus k) opt) * 256 :: u64) = nat (used_cpus (k_cpus k) opt) * 256"
    using c assms(7) by (intro unat_of_int_256) simp_all
  then have "xmalloc (k_malloc k) (of_int (used_cpus (k_cpus k) opt) * 256) = Inr (nat (used_cpus (k_cpus k) opt) * 256)"
    using assms(1,7) by (subst xmalloc_good) (auto simp: good_kernel_def)
  then have "pl_start k args = start_cpus k opt 0 (nat (used_cpus (k_cpus k) opt))"
    using assms(1,2) by (simp add: pl_start_def good_kernel_def xpipe_def xsocket_def xbind_def xpthread_key_create_def)
  then show ?thesis using start_cpus_good [OF assms(1,3,4) _ assms(6), of 0] assms(3,5) q by (simp add: sys_init_def flip: mem_def)
qed

text \<open>With \<^verbatim>\<open>-T -1\<close> the block for the threads has no bytes, and the acceptor is stored behind it.\<close>

lemma start_cpu_minus_one:
  assumes "good_kernel k" "0 \<le> qsz" "qsz < 2 ^ 31"
  shows "start_cpu k cpu (-1) qsz = None"
proof -
  have "unat (of_int qsz * 4 :: u64) = nat qsz * 4" using assms(2,3) by (intro unat_of_int_4) simp_all
  then have "xmalloc (k_malloc k) (of_int qsz * 4) = Inr (nat qsz * 4)"
    using assms by (subst xmalloc_good) (auto simp: good_kernel_def)
  then show ?thesis
    using assms(1) by (simp add: start_cpu_def good_kernel_def xpthread_mutex_init_def xpthread_cond_init_def xmalloc_def store_thread_def xpthread_create_def)
qed

subsection \<open>\<^verbatim>\<open>main\<close> of \<^verbatim>\<open>thrhttp.c\<close>\<close>

record thr_kernel =
  t_stack :: "int \<Rightarrow> int"
  t_socket :: int
  t_bind :: "u16 \<Rightarrow> int"

text \<open>\<open>evs\<close> are the answers of \<^verbatim>\<open>accept\<close> and \<^verbatim>\<open>pthread_create\<close> until the signal comes: the exit status, and what the loop has done.\<close>

definition thr_main :: "thr_kernel \<Rightarrow> (int option \<times> bool) list \<Rightarrow> cstr list \<Rightarrow> int \<times> (u64 \<times> int list \<times> int list)" where
  "thr_main k evs args = (case thr_options args thr_defaults of None \<Rightarrow> (1, (0, [], []))
     | Some opt \<Rightarrow>
         if stksize opt > 0 \<and> t_stack k (stksize opt) \<noteq> 0 then (2, (0, [], []))
         else if t_socket k = -1 then (3, (0, [], []))
         else if t_bind k (of_int (port opt)) = -1 then (4, (0, [], []))
         else (0, thr_accepts evs (0, [], [])))"

text \<open>Every connection accepted is counted, and goes to a thread or is closed.\<close>

lemma thr_accepts_all:
  "thr_accepts evs (c, st, cl) = (c + of_nat (length (filter (\<lambda>e. fst e \<noteq> None) evs)),
     st @ map (the \<circ> fst) (filter (\<lambda>e. fst e \<noteq> None \<and> snd e) evs), cl @ map (the \<circ> fst) (filter (\<lambda>e. fst e \<noteq> None \<and> \<not> snd e) evs))"
proof (induction evs arbitrary: c st cl)
  case (Cons e evs)
  obtain a b where "e = (a, b)" by (cases e)
  with Cons show ?case by (cases a) simp_all
qed simp

lemma thr_main_serves:
  assumes "thr_main k evs args = (0, conns, started, closed)"
  shows "unat conns = length (filter (\<lambda>e. fst e \<noteq> None) evs) mod 2 ^ 64
    \<and> mset started + mset closed = mset (map (the \<circ> fst) (filter (\<lambda>e. fst e \<noteq> None) evs))"
proof -
  have m: "mset (map f (filter (\<lambda>e. P e \<and> Q e) es)) + mset (map f (filter (\<lambda>e. P e \<and> \<not> Q e) es)) = mset (map f (filter P es))" for f P Q es
    by (induction es) auto
  have "(conns, started, closed) = thr_accepts evs (0, [], [])"
    using assms by (auto simp: thr_main_def split: option.splits if_splits)
  then show ?thesis using m [of "the \<circ> fst" "\<lambda>e. fst e \<noteq> None" snd evs] by (simp add: thr_accepts_all unat_of_nat)
qed

end
