(* ===== verification/SpinLocks.thy ===== *)
theory SpinLocks
  imports Prelude
begin

text \<open>
  \<^verbatim>\<open>qspins.c\<close>: a ticket lock with 16-bit counters and a decrement spin lock, and the benchmark
  threads that hand a ring of locks around. A lock routine is a sequence of steps, each of which
  reads or writes the lock once, as the machine instructions do: a step takes the lock and the place
  in the routine and gives the new lock and either the next place (\<open>Inl\<close>) or the end of the routine (\<open>Inr\<close>).
\<close>

subsection \<open>The ticket lock\<close>

record tspinlock_t =
  qhead :: u16
  qtail :: u16

definition tspin_lock_init :: tspinlock_t where
  "tspin_lock_init = \<lparr>qhead = 0, qtail = 0\<rparr>"

text \<open>\<open>None\<close> is in front of the \<^verbatim>\<open>xaddw\<close>, \<open>Some pos\<close> in the loop.\<close>

fun tspin_lock :: "tspinlock_t \<Rightarrow> u16 option \<Rightarrow> tspinlock_t \<times> (u16 option + unit)" where
  "tspin_lock l None = (l\<lparr>qhead := qhead l + 1\<rparr>, Inl (Some (qhead l)))"
| "tspin_lock l (Some pos) = (l, if pos \<noteq> qtail l then Inl (Some pos) else Inr ())"

text \<open>The \<^verbatim>\<open>addw\<close> has no lock prefix: it reads and then writes.\<close>

fun tspin_unlock :: "tspinlock_t \<Rightarrow> u16 option \<Rightarrow> tspinlock_t \<times> (u16 option + unit)" where
  "tspin_unlock l None = (l, Inl (Some (qtail l)))"
| "tspin_unlock l (Some v) = (l\<lparr>qtail := v + 1\<rparr>, Inr ())"

subsection \<open>The decrement lock\<close>

record spinlock_t =
  slock :: u32

definition spin_lock_init :: spinlock_t where
  "spin_lock_init = \<lparr>slock = 1\<rparr>"

text \<open>\<open>True\<close> is the label 1, \<open>False\<close> the label 3.\<close>

fun spin_lock :: "spinlock_t \<Rightarrow> bool \<Rightarrow> spinlock_t \<times> (bool + unit)" where
  "spin_lock l True = (let v = slock l - 1 in (l\<lparr>slock := v\<rparr>, if 0 \<le> sint v then Inr () else Inl False))"
| "spin_lock l False = (l, if sint (slock l) \<le> 0 then Inl False else Inl True)"

definition spin_unlock :: "spinlock_t \<Rightarrow> unit \<Rightarrow> spinlock_t \<times> (unit + unit)" where
  "spin_unlock l u = (l\<lparr>slock := 1\<rparr>, Inr ())"

subsection \<open>The threads\<close>

text \<open>\<^verbatim>\<open>tspin_thread\<close> and \<^verbatim>\<open>spin_thread\<close> have the same text but for the lock. A thread is outside its lock
  \<open>k\<close>, in the lock routine, holding it, or in the unlock routine; \<open>iter\<close> counts the passes of the two
  nested loops.\<close>

datatype ('p, 'u) place = Out | Locking 'p | Holding | Unlocking 'u | Done

record ('p, 'u) thread =
  place :: "('p, 'u) place"
  k :: nat
  iter :: nat

record ('l, 'p, 'u) ring =
  locks :: "nat \<Rightarrow> 'l"
  thr :: "nat \<Rightarrow> ('p, 'u) thread"
  go :: bool

definition PASSES :: nat where "PASSES = 32 * 100"

definition set_thr :: "nat \<Rightarrow> ('p, 'u) thread \<Rightarrow> ('l, 'p, 'u) ring \<Rightarrow> ('l, 'p, 'u) ring" where
  "set_thr t x s = s\<lparr>thr := (thr s)(t := x)\<rparr>"

definition set_lock :: "nat \<Rightarrow> 'l \<Rightarrow> ('l, 'p, 'u) ring \<Rightarrow> ('l, 'p, 'u) ring" where
  "set_lock i l s = s\<lparr>locks := (locks s)(i := l)\<rparr>"

lemma ring_upd [simp]:
  "thr (set_thr t x s) = (thr s)(t := x)" "locks (set_thr t x s) = locks s" "go (set_thr t x s) = go s"
  "thr (set_lock i l s) = thr s" "locks (set_lock i l s) = (locks s)(i := l)" "go (set_lock i l s) = go s"
  by (simp_all add: set_thr_def set_lock_def)

text \<open>After an unlock: the next lock of the ring, or the end of the thread.\<close>

definition next_pass :: "nat \<Rightarrow> ('p, 'u) thread \<Rightarrow> ('p, 'u) thread" where
  "next_pass n x = (if iter x < PASSES
     then x\<lparr>place := Out, k := (if k x + 1 \<ge> n then 0 else k x + 1), iter := iter x + 1\<rparr>
     else x\<lparr>place := Done\<rparr>)"

inductive ring_step ::
  "('l \<Rightarrow> 'p \<Rightarrow> 'l \<times> ('p + unit)) \<Rightarrow> 'p \<Rightarrow> ('l \<Rightarrow> 'u \<Rightarrow> 'l \<times> ('u + unit)) \<Rightarrow> 'u \<Rightarrow> nat \<Rightarrow> ('l, 'p, 'u) ring \<Rightarrow> ('l, 'p, 'u) ring \<Rightarrow> bool"
  for lock :: "'l \<Rightarrow> 'p \<Rightarrow> 'l \<times> ('p + unit)" and p0 :: 'p
    and unlock :: "'l \<Rightarrow> 'u \<Rightarrow> 'l \<times> ('u + unit)" and u0 :: 'u and n :: nat
where
  r_call: "\<lbrakk>t < n; thr s t = x; place x = Out\<rbrakk> \<Longrightarrow>
     ring_step lock p0 unlock u0 n s (set_thr t (x\<lparr>place := Locking p0\<rparr>) s)"
| r_lock: "\<lbrakk>t < n; thr s t = x; place x = Locking p; lock (locks s (k x)) p = (l, Inl p')\<rbrakk> \<Longrightarrow>
     ring_step lock p0 unlock u0 n s (set_lock (k x) l (set_thr t (x\<lparr>place := Locking p'\<rparr>) s))"
| r_locked: "\<lbrakk>t < n; thr s t = x; place x = Locking p; lock (locks s (k x)) p = (l, Inr ())\<rbrakk> \<Longrightarrow>
     ring_step lock p0 unlock u0 n s (set_lock (k x) l (set_thr t (x\<lparr>place := Holding\<rparr>) s))"
| r_release: "\<lbrakk>t < n; thr s t = x; place x = Holding; go s\<rbrakk> \<Longrightarrow>
     ring_step lock p0 unlock u0 n s (set_thr t (x\<lparr>place := Unlocking u0\<rparr>) s)"
| r_unlock: "\<lbrakk>t < n; thr s t = x; place x = Unlocking u; unlock (locks s (k x)) u = (l, Inl u')\<rbrakk> \<Longrightarrow>
     ring_step lock p0 unlock u0 n s (set_lock (k x) l (set_thr t (x\<lparr>place := Unlocking u'\<rparr>) s))"
| r_unlocked: "\<lbrakk>t < n; thr s t = x; place x = Unlocking u; unlock (locks s (k x)) u = (l, Inr ())\<rbrakk> \<Longrightarrow>
     ring_step lock p0 unlock u0 n s (set_lock (k x) l (set_thr t (next_pass n x) s))"
| r_go: "ring_step lock p0 unlock u0 n s (s\<lparr>go := True\<rparr>)"

text \<open>\<^verbatim>\<open>main\<close> initialises the locks of the first \<open>n\<close> entries and starts thread \<open>i\<close> on lock \<open>i\<close>.\<close>

definition ring_init :: "'l \<Rightarrow> ('l, 'p, 'u) ring" where
  "ring_init l0 = \<lparr>locks = (\<lambda>i. l0), thr = (\<lambda>t. \<lparr>place = Out, k = t, iter = 0\<rparr>), go = False\<rparr>"

inductive ring_reach ::
  "('l \<Rightarrow> 'p \<Rightarrow> 'l \<times> ('p + unit)) \<Rightarrow> 'p \<Rightarrow> ('l \<Rightarrow> 'u \<Rightarrow> 'l \<times> ('u + unit)) \<Rightarrow> 'u \<Rightarrow> 'l \<Rightarrow> nat \<Rightarrow> ('l, 'p, 'u) ring \<Rightarrow> bool"
  for lock :: "'l \<Rightarrow> 'p \<Rightarrow> 'l \<times> ('p + unit)" and p0 :: 'p
    and unlock :: "'l \<Rightarrow> 'u \<Rightarrow> 'l \<times> ('u + unit)" and u0 :: 'u and l0 :: 'l and n :: nat
where
  ring_start: "ring_reach lock p0 unlock u0 l0 n (ring_init l0)"
| ring_next: "ring_reach lock p0 unlock u0 l0 n s \<Longrightarrow> ring_step lock p0 unlock u0 n s s'
     \<Longrightarrow> ring_reach lock p0 unlock u0 l0 n s'"

inductive_cases ring_stepE: "ring_step lock p0 unlock u0 n s s'"

subsection \<open>What a lock promises\<close>

fun inside :: "('p, 'u) place \<Rightarrow> bool" where
  "inside Holding = True"
| "inside (Unlocking u) = True"
| "inside _ = False"

text \<open>The places of all threads as one lock sees them: a thread at another lock is outside.\<close>

definition view :: "('l, 'p, 'u) ring \<Rightarrow> nat \<Rightarrow> nat \<Rightarrow> ('p, 'u) place" where
  "view s i t = (if k (thr s t) = i \<and> place (thr s t) \<noteq> Done then place (thr s t) else Out)"

text \<open>\<open>linv\<close> is the lock's invariant. A step of a routine keeps it; two threads are never inside at
  once; and while some thread is in a routine or inside, one of them can do a step that is not a turn
  of a spin loop, or holds the lock.\<close>

locale spin_lock_contract =
  fixes lock :: "'l \<Rightarrow> 'p \<Rightarrow> 'l \<times> ('p + unit)" and p0 :: 'p
    and unlock :: "'l \<Rightarrow> 'u \<Rightarrow> 'l \<times> ('u + unit)" and u0 :: 'u
    and l0 :: 'l and limit :: nat
    and linv :: "nat \<Rightarrow> 'l \<Rightarrow> (nat \<Rightarrow> ('p, 'u) place) \<Rightarrow> bool"
  assumes linv_init: "n \<le> limit \<Longrightarrow> linv n l0 (\<lambda>t. Out)"
    and linv_call: "\<lbrakk>n \<le> limit; linv n l C; t < n; C t = Out\<rbrakk> \<Longrightarrow> linv n l (C(t := Locking p0))"
    and linv_lock: "\<lbrakk>n \<le> limit; linv n l C; t < n; C t = Locking p; lock l p = (l', Inl p')\<rbrakk> \<Longrightarrow>
      linv n l' (C(t := Locking p'))"
    and linv_locked: "\<lbrakk>n \<le> limit; linv n l C; t < n; C t = Locking p; lock l p = (l', Inr ())\<rbrakk> \<Longrightarrow>
      linv n l' (C(t := Holding))"
    and linv_release: "\<lbrakk>n \<le> limit; linv n l C; t < n; C t = Holding\<rbrakk> \<Longrightarrow> linv n l (C(t := Unlocking u0))"
    and linv_unlock: "\<lbrakk>n \<le> limit; linv n l C; t < n; C t = Unlocking u; unlock l u = (l', Inl u')\<rbrakk> \<Longrightarrow>
      linv n l' (C(t := Unlocking u'))"
    and linv_unlocked: "\<lbrakk>n \<le> limit; linv n l C; t < n; C t = Unlocking u; unlock l u = (l', Inr ())\<rbrakk> \<Longrightarrow>
      linv n l' (C(t := Out))"
    and linv_range: "\<lbrakk>linv n l C; C t \<noteq> Out\<rbrakk> \<Longrightarrow> t < n"
    and unlock_moves: "unlock l u \<noteq> (l', Inl u)"
    and linv_mutex: "\<lbrakk>linv n l C; inside (C t); inside (C t')\<rbrakk> \<Longrightarrow> t = t'"
    and linv_progress: "\<lbrakk>n \<le> limit; linv n l C; C t = Locking p; \<forall>t'. \<not> inside (C t')\<rbrakk> \<Longrightarrow>
      \<exists>t' < n. \<exists>p'. C t' = Locking p' \<and> lock l p' \<noteq> (l, Inl p')"
begin

definition ring_inv :: "nat \<Rightarrow> ('l, 'p, 'u) ring \<Rightarrow> bool" where
  "ring_inv n s \<longleftrightarrow> (\<forall>i. linv n (locks s i) (view s i))"

lemma view_set_thr:
  "view (set_thr t x s) i = (view s i)(t := (if k x = i \<and> place x \<noteq> Done then place x else Out))"
  by (auto simp: view_def)

lemma view_set_lock [simp]: "view (set_lock j l s) i = view s i"
  by (auto simp: view_def)

lemma ring_inv_init: "n \<le> limit \<Longrightarrow> ring_inv n (ring_init l0)"
  using linv_init by (simp add: ring_inv_def ring_init_def view_def [abs_def] cong: if_cong)

lemma view_at [simp]: "place (thr s t) \<noteq> Done \<Longrightarrow> view s (k (thr s t)) t = place (thr s t)"
  by (simp add: view_def)

lemma view_other: "i \<noteq> k (thr s t) \<Longrightarrow> view s i t = Out"
  by (simp add: view_def)

text \<open>A thread that stays at its lock changes only what this lock sees.\<close>

lemma ring_inv_at:
  assumes "ring_inv n s" "k x = k (thr s t)" "place x \<noteq> Done"
    and "linv n l ((view s (k x))(t := place x))"
  shows "ring_inv n (set_lock (k x) l (set_thr t x s))"
  unfolding ring_inv_def
proof
  fix i
  show "linv n (locks (set_lock (k x) l (set_thr t x s)) i) (view (set_lock (k x) l (set_thr t x s)) i)"
  proof (cases "i = k x")
    case True
    then show ?thesis using assms by (simp add: view_set_thr)
  next
    case False
    then have "(view s i)(t := Out) = view s i" using view_other [of i s t] assms(2) by auto
    then show ?thesis using False assms(1) by (auto simp: view_set_thr ring_inv_def)
  qed
qed

lemma set_lock_same: "set_lock i (locks s i) (set_thr t x s) = set_thr t x s"
  by (simp add: set_lock_def set_thr_def)

lemma next_pass_view: "(if k (next_pass n x) = i \<and> place (next_pass n x) \<noteq> Done then place (next_pass n x) else Out) = Out"
  by (simp add: next_pass_def)

lemma ring_inv_leave:
  assumes "ring_inv n s" "linv n l ((view s (k (thr s t)))(t := Out))"
  shows "ring_inv n (set_lock (k (thr s t)) l (set_thr t (next_pass n (thr s t)) s))"
  unfolding ring_inv_def
proof
  fix i
  have v: "view (set_lock (k (thr s t)) l (set_thr t (next_pass n (thr s t)) s)) i = (view s i)(t := Out)"
    unfolding view_set_lock view_set_thr next_pass_view ..
  show "linv n (locks (set_lock (k (thr s t)) l (set_thr t (next_pass n (thr s t)) s)) i)
      (view (set_lock (k (thr s t)) l (set_thr t (next_pass n (thr s t)) s)) i)"
  proof (cases "i = k (thr s t)")
    case True
    then show ?thesis using assms unfolding v by simp
  next
    case False
    then have "(view s i)(t := Out) = view s i" using view_other [of i s t] by auto
    then show ?thesis using False assms(1) unfolding v by (simp add: ring_inv_def)
  qed
qed

lemma ring_inv_step:
  assumes "n \<le> limit" "ring_inv n s" "ring_step lock p0 unlock u0 n s s'"
  shows "ring_inv n s'"
proof -
  have li: "linv n (locks s i) (view s i)" for i using assms(2) by (simp add: ring_inv_def)
  from assms(3) show ?thesis
  proof (cases rule: ring_step.cases)
    case (r_call t x)
    then have "linv n (locks s (k x)) ((view s (k x))(t := Locking p0))"
      using linv_call [OF assms(1) li, of t "k x"] by auto
    then show ?thesis
      using ring_inv_at [OF assms(2), of "x\<lparr>place := Locking p0\<rparr>" t "locks s (k x)"] r_call set_lock_same [of "k x" s t] by simp
  next
    case (r_lock t x p l p')
    then have "linv n l ((view s (k x))(t := Locking p'))"
      using linv_lock [OF assms(1) li, of t "k x" p l p'] by auto
    then show ?thesis using ring_inv_at [OF assms(2), of "x\<lparr>place := Locking p'\<rparr>" t l] r_lock by simp
  next
    case (r_locked t x p l)
    then have "linv n l ((view s (k x))(t := Holding))"
      using linv_locked [OF assms(1) li, of t "k x" p l] by auto
    then show ?thesis using ring_inv_at [OF assms(2), of "x\<lparr>place := Holding\<rparr>" t l] r_locked by simp
  next
    case (r_release t x)
    then have "linv n (locks s (k x)) ((view s (k x))(t := Unlocking u0))"
      using linv_release [OF assms(1) li, of t "k x"] by auto
    then show ?thesis
      using ring_inv_at [OF assms(2), of "x\<lparr>place := Unlocking u0\<rparr>" t "locks s (k x)"] r_release set_lock_same [of "k x" s t] by simp
  next
    case (r_unlock t x u l u')
    then have "linv n l ((view s (k x))(t := Unlocking u'))"
      using linv_unlock [OF assms(1) li, of t "k x" u l u'] by auto
    then show ?thesis using ring_inv_at [OF assms(2), of "x\<lparr>place := Unlocking u'\<rparr>" t l] r_unlock by simp
  next
    case (r_unlocked t x u l)
    then have "linv n l ((view s (k x))(t := Out))"
      using linv_unlocked [OF assms(1) li, of t "k x" u l] by auto
    then show ?thesis using ring_inv_leave [OF assms(2), of l t] r_unlocked by simp
  next
    case r_go
    then have "view s' i = view s i" for i by (auto simp: view_def)
    then show ?thesis using r_go assms(2) by (simp add: ring_inv_def)
  qed
qed

lemma reach_inv: "ring_reach lock p0 unlock u0 l0 n s \<Longrightarrow> n \<le> limit \<Longrightarrow> ring_inv n s"
proof (induction rule: ring_reach.induct)
  case ring_start
  then show ?case by (rule ring_inv_init)
next
  case (ring_next s s')
  then show ?case by (intro ring_inv_step [OF ring_next.prems _ ring_next.hyps(2)])
qed

lemma ring_mutex:
  assumes "ring_reach lock p0 unlock u0 l0 n s" "n \<le> limit" "inside (place (thr s t))" "inside (place (thr s t'))"
    "k (thr s t) = k (thr s t')"
  shows "t = t'"
proof -
  have "linv n (locks s (k (thr s t))) (view s (k (thr s t)))" using reach_inv [OF assms(1,2)] by (simp add: ring_inv_def)
  moreover have "view s (k (thr s t)) t = place (thr s t)" "view s (k (thr s t)) t' = place (thr s t')"
    using assms(3-5) by (auto simp: view_def)
  ultimately show ?thesis using linv_mutex [of n "locks s (k (thr s t))" "view s (k (thr s t))" t t'] assms(3,4) by simp
qed

text \<open>A thread inside a lock can go on.\<close>

lemma moved: "place (thr s' t) \<noteq> place (thr s t) \<Longrightarrow> s' \<noteq> s"
  by blast

lemma inside_moves:
  assumes "t < n" "go s" "inside (place (thr s t))"
  shows "\<exists>s'. ring_step lock p0 unlock u0 n s s' \<and> s' \<noteq> s"
proof (cases "place (thr s t)")
  case Holding
  then have "set_thr t ((thr s t)\<lparr>place := Unlocking u0\<rparr>) s \<noteq> s" by (intro moved [of _ t]) simp
  then show ?thesis using r_release [OF assms(1) refl Holding assms(2)] by blast
next
  case (Unlocking u)
  let ?i = "k (thr s t)"
  obtain l r where lr: "unlock (locks s ?i) u = (l, r)" by fastforce
  show ?thesis
  proof (cases r)
    case (Inl u')
    then have "u' \<noteq> u" using lr unlock_moves by metis
    then have "set_lock ?i l (set_thr t ((thr s t)\<lparr>place := Unlocking u'\<rparr>) s) \<noteq> s"
      using Unlocking by (intro moved [of _ t]) simp
    then show ?thesis using r_unlock [OF assms(1) refl Unlocking] lr Inl by blast
  next
    case (Inr z)
    have "set_lock ?i l (set_thr t (next_pass n (thr s t)) s) \<noteq> s"
      using Unlocking by (intro moved [of _ t]) (simp add: next_pass_def)
    then show ?thesis using r_unlocked [OF assms(1) refl Unlocking, of unlock l] lr Inr by auto
  qed
qed (use assms(3) in auto)

lemma lock_moves:
  assumes "t < n" "place (thr s t) = Locking p" "lock (locks s (k (thr s t))) p \<noteq> (locks s (k (thr s t)), Inl p)"
  shows "\<exists>s'. ring_step lock p0 unlock u0 n s s' \<and> s' \<noteq> s"
proof -
  let ?i = "k (thr s t)"
  obtain l r where lr: "lock (locks s ?i) p = (l, r)" by fastforce
  show ?thesis
  proof (cases r)
    case (Inl p')
    let ?s = "set_lock ?i l (set_thr t ((thr s t)\<lparr>place := Locking p'\<rparr>) s)"
    have "l \<noteq> locks s ?i \<or> p' \<noteq> p" using lr Inl assms(3) by auto
    then have "locks ?s ?i \<noteq> locks s ?i \<or> place (thr ?s t) \<noteq> place (thr s t)"
      using assms(2) by auto
    then have "?s \<noteq> s" by metis
    then show ?thesis using r_lock [OF assms(1) refl assms(2)] lr Inl by blast
  next
    case (Inr z)
    let ?s = "set_lock ?i l (set_thr t ((thr s t)\<lparr>place := Holding\<rparr>) s)"
    have "?s \<noteq> s" using assms(2) by (intro moved [of _ t]) simp
    then show ?thesis using r_locked [OF assms(1) refl assms(2), of lock l] lr Inr by auto
  qed
qed

lemma ring_progress:
  assumes "ring_reach lock p0 unlock u0 l0 n s" "n \<le> limit" "go s" "t < n" "place (thr s t) \<noteq> Done"
  shows "\<exists>s'. ring_step lock p0 unlock u0 n s s' \<and> s' \<noteq> s"
proof (cases "place (thr s t)")
  case Out
  let ?s = "set_thr t ((thr s t)\<lparr>place := Locking p0\<rparr>) s"
  have "?s \<noteq> s" using Out by (intro moved [of _ t]) simp
  then show ?thesis using r_call [OF assms(4) refl Out] by blast
next
  case (Locking p)
  let ?i = "k (thr s t)" let ?C = "view s ?i"
  have li: "linv n (locks s ?i) ?C" using reach_inv [OF assms(1,2)] by (simp add: ring_inv_def)
  show ?thesis
  proof (cases "\<exists>t'. inside (?C t')")
    case True
    then obtain t' where t': "inside (?C t')" by blast
    moreover have "?C t' \<noteq> Out" using t' by auto
    then have "t' < n" by (rule linv_range [OF li])
    ultimately have "inside (place (thr s t'))" "t' < n" by (auto simp: view_def split: if_splits)
    then show ?thesis using inside_moves [OF _ assms(3)] by blast
  next
    case False
    have "?C t = Locking p" using Locking by simp
    then obtain t' p' where t': "t' < n" "?C t' = Locking p'" "lock (locks s ?i) p' \<noteq> (locks s ?i, Inl p')"
      using linv_progress [OF assms(2) li] False by blast
    then have "place (thr s t') = Locking p'" "k (thr s t') = ?i" by (auto simp: view_def split: if_splits)
    then show ?thesis using lock_moves [of t' n s p'] t' by simp
  qed
next
  case Holding
  then show ?thesis using inside_moves [OF assms(4,3)] by simp
next
  case (Unlocking u)
  then show ?thesis using inside_moves [OF assms(4,3)] by simp
qed (use assms(5) in simp)

end

subsection \<open>The ticket lock is a queue\<close>

fun queued :: "(u16 option, u16 option) place \<Rightarrow> bool" where
  "queued (Locking (Some pos)) = True"
| "queued Holding = True"
| "queued (Unlocking u) = True"
| "queued _ = False"

fun at_ticket :: "u16 \<Rightarrow> nat \<Rightarrow> (u16 option, u16 option) place \<Rightarrow> bool" where
  "at_ticket tail i (Locking (Some pos)) \<longleftrightarrow> pos = tail + of_nat i"
| "at_ticket tail i Holding \<longleftrightarrow> i = 0"
| "at_ticket tail i (Unlocking None) \<longleftrightarrow> i = 0"
| "at_ticket tail i (Unlocking (Some v)) \<longleftrightarrow> i = 0 \<and> v = tail"
| "at_ticket tail i _ \<longleftrightarrow> False"

text \<open>The threads that have drawn a ticket, in the order of their tickets.\<close>

definition tick_rel :: "nat \<Rightarrow> tspinlock_t \<Rightarrow> (nat \<Rightarrow> (u16 option, u16 option) place) \<Rightarrow> nat list \<Rightarrow> bool" where
  "tick_rel n l C q \<longleftrightarrow> distinct q \<and> (\<forall>t. C t \<noteq> Out \<longrightarrow> t < n) \<and> (\<forall>t. t \<in> set q \<longleftrightarrow> queued (C t))
     \<and> qhead l = qtail l + of_nat (length q) \<and> (\<forall>i < length q. at_ticket (qtail l) i (C (q ! i)))"

lemma tick_rel_length:
  assumes "tick_rel n l C q" shows "length q \<le> n"
proof -
  have "set q \<subseteq> {..<n}" using assms by (auto simp: tick_rel_def) (metis queued.simps(4))
  then have "card (set q) \<le> n" by (metis card_lessThan card_mono finite_lessThan)
  then show ?thesis using assms by (simp add: tick_rel_def distinct_card)
qed

lemma tick_index:
  assumes "tick_rel n l C q" "queued (C t)"
  shows "\<exists>i < length q. q ! i = t \<and> at_ticket (qtail l) i (C t)"
proof -
  have "t \<in> set q" using assms by (simp add: tick_rel_def)
  then obtain i where "i < length q" "q ! i = t" by (metis in_set_conv_nth)
  then show ?thesis using assms(1) by (auto simp: tick_rel_def)
qed

lemma of_nat16_inj: "i < 2 ^ 16 \<Longrightarrow> (of_nat i :: u16) = 0 \<longleftrightarrow> i = 0"
  by (simp add: word_unat_eq_iff unat_of_nat)

text \<open>A thread whose ticket is due is at the head.\<close>

lemma tick_head:
  assumes "tick_rel n l C q" "n \<le> 2 ^ 16" "inside (C t) \<or> C t = Locking (Some (qtail l))"
  shows "\<exists>q'. q = t # q'"
proof -
  have "queued (C t)" using assms(3) by (cases "C t") auto
  then obtain i where i: "i < length q" "q ! i = t" "at_ticket (qtail l) i (C t)"
    using tick_index [OF assms(1)] by blast
  have "i < 2 ^ 16" using i(1) tick_rel_length [OF assms(1)] assms(2) by simp
  then have "i = 0"
    using i(3) assms(3) of_nat16_inj [of i] by (cases "C t" rule: inside.cases) (auto elim: at_ticket.elims)
  then show ?thesis using i by (cases q) auto
qed

lemma tick_same_queue:
  assumes "tick_rel n l C q" "t < n" "queued (C t)" "queued pl" "at_ticket (qtail l) 0 (C t) \<longrightarrow> at_ticket (qtail l) 0 pl" "q = t # q'"
  shows "tick_rel n l (C(t := pl)) q"
  using assms by (auto simp: tick_rel_def nth_Cons split: nat.splits)

lemma tick_call: "tick_rel n l C q \<Longrightarrow> t < n \<Longrightarrow> C t = Out \<Longrightarrow> tick_rel n l (C(t := Locking None)) q"
  by (auto simp: tick_rel_def)

lemma tick_draw:
  assumes "tick_rel n l C q" "t < n" "C t = Locking None"
  shows "tick_rel n (l\<lparr>qhead := qhead l + 1\<rparr>) (C(t := Locking (Some (qhead l)))) (q @ [t])"
proof -
  have "t \<notin> set q" using assms by (auto simp: tick_rel_def)
  then show ?thesis using assms by (auto simp: tick_rel_def nth_append less_Suc_eq)
qed

lemma tick_unlock:
  assumes "tick_rel n l C (t # q)" "C t = Unlocking (Some v)"
  shows "tick_rel n (l\<lparr>qtail := v + 1\<rparr>) (C(t := Out)) q"
proof -
  have v: "v = qtail l" using assms by (auto simp: tick_rel_def)
  have shift: "at_ticket (qtail l + 1) i pl" if "at_ticket (qtail l) (Suc i) pl" for i pl
    using that by (cases "(qtail l, Suc i, pl)" rule: at_ticket.cases) auto
  have "at_ticket (qtail l + 1) i (C (q ! i))" if "i < length q" for i
    using assms(1) that shift by (auto simp: tick_rel_def)
  then show ?thesis using assms v by (auto simp: tick_rel_def)
qed

definition tick_inv :: "nat \<Rightarrow> tspinlock_t \<Rightarrow> (nat \<Rightarrow> (u16 option, u16 option) place) \<Rightarrow> bool" where
  "tick_inv n l C \<longleftrightarrow> n \<le> 2 ^ 16 \<and> (\<exists>q. tick_rel n l C q)"

lemma tick_move:
  assumes "tick_inv n l C" "t < n" "queued pl" "inside (C t) \<or> C t = Locking (Some (qtail l))"
    "at_ticket (qtail l) 0 (C t) \<longrightarrow> at_ticket (qtail l) 0 pl"
  shows "tick_inv n l (C(t := pl))"
proof -
  obtain q where q: "tick_rel n l C q" "n \<le> 2 ^ 16" using assms(1) by (auto simp: tick_inv_def)
  obtain q' where "q = t # q'" using tick_head [OF q(1,2) assms(4)] by blast
  moreover have "queued (C t)" using assms(4) by (cases "C t") auto
  ultimately show ?thesis
    using tick_same_queue [OF q(1) assms(2) _ assms(3,5)] q(2) unfolding tick_inv_def by blast
qed

lemma tick_mutex: "tick_inv n l C \<Longrightarrow> inside (C t) \<Longrightarrow> inside (C t') \<Longrightarrow> t = t'"
  unfolding tick_inv_def using tick_head by (metis list.inject)

lemma tick_lock_inv:
  assumes "tick_inv n l C" "t < n" "C t = Locking p"
  shows "tspin_lock l p = (l', Inl p') \<Longrightarrow> tick_inv n l' (C(t := Locking p'))"
    and "tspin_lock l p = (l', Inr ()) \<Longrightarrow> tick_inv n l' (C(t := Holding))"
proof -
  assume "tspin_lock l p = (l', Inl p')"
  then show "tick_inv n l' (C(t := Locking p'))"
    using assms tick_draw [of n l C _ t] by (cases p) (auto simp: tick_inv_def fun_upd_idem split: if_splits)
next
  assume "tspin_lock l p = (l', Inr ())"
  then have "p = Some (qtail l)" "l' = l" by (cases p; auto split: if_splits)+
  then show "tick_inv n l' (C(t := Holding))" using tick_move [OF assms(1,2)] assms(3) by simp
qed

lemma tick_unlock_inv:
  assumes "tick_inv n l C" "t < n" "C t = Unlocking u"
  shows "tspin_unlock l u = (l', Inl u') \<Longrightarrow> tick_inv n l' (C(t := Unlocking u'))"
    and "tspin_unlock l u = (l', Inr ()) \<Longrightarrow> tick_inv n l' (C(t := Out))"
proof -
  assume "tspin_unlock l u = (l', Inl u')"
  then have "u = None" "l' = l" "u' = Some (qtail l)" by (cases u; auto)+
  then show "tick_inv n l' (C(t := Unlocking u'))" using tick_move [OF assms(1,2)] assms(3) by simp
next
  assume u: "tspin_unlock l u = (l', Inr ())"
  obtain q where q: "tick_rel n l C q" "n \<le> 2 ^ 16" using assms(1) by (auto simp: tick_inv_def)
  obtain q' where q': "q = t # q'" using tick_head [OF q, of t] assms(3) by auto
  from u obtain v where "u = Some v" "l' = l\<lparr>qtail := v + 1\<rparr>" by (cases u) auto
  then show "tick_inv n l' (C(t := Out))"
    using tick_unlock [of n l C t q' v] q q' assms(3) by (auto simp: tick_inv_def)
qed

lemma tick_progress:
  assumes "tick_inv n l C" "C t = Locking p" "\<forall>t'. \<not> inside (C t')"
  shows "\<exists>t' < n. \<exists>p'. C t' = Locking p' \<and> tspin_lock l p' \<noteq> (l, Inl p')"
proof -
  obtain q where q: "tick_rel n l C q" using assms(1) by (auto simp: tick_inv_def)
  have tn: "C t' \<noteq> Out \<Longrightarrow> t' < n" for t' using q by (simp add: tick_rel_def)
  show ?thesis
  proof (cases p)
    case None
    then show ?thesis using assms(2) tn [of t] by (intro exI [of _ t]) auto
  next
    case (Some pos)
    then obtain i where "i < length q" using tick_index [OF q, of t] assms(2) by auto
    then obtain h q' where h: "q = h # q'" by (cases q) auto
    then have "queued (C h)" "at_ticket (qtail l) 0 (C h)" using q by (auto simp: tick_rel_def)
    then have "C h = Locking (Some (qtail l))"
      using assms(3) [rule_format, of h] by (cases "C h" rule: queued.cases) auto
    then show ?thesis using tn [of h] by (intro exI [of _ h]) auto
  qed
qed

interpretation tick: spin_lock_contract tspin_lock None tspin_unlock None tspin_lock_init "2 ^ 16" tick_inv
proof unfold_locales
  show "n \<le> 2 ^ 16 \<Longrightarrow> tick_inv n tspin_lock_init (\<lambda>t. Out)" for n
    unfolding tick_inv_def by (auto simp: tick_rel_def tspin_lock_init_def intro!: exI [of _ "[]"])
  show "tick_inv n l (C(t := Locking None))" if "tick_inv n l C" "t < n" "C t = Out" for n l C t
    using that tick_call unfolding tick_inv_def by blast
  show "tick_inv n l (C(t := Unlocking None))" if "tick_inv n l C" "t < n" "C t = Holding" for n l C t
    using that by (intro tick_move) auto
  show "C t \<noteq> Out \<Longrightarrow> t < n" if "tick_inv n l C" for n l C t using that by (auto simp: tick_inv_def tick_rel_def)
  show "tspin_unlock l u \<noteq> (l', Inl u)" for l u l' by (cases u) auto
  show "tick_inv n l' (C(t := Locking p'))"
    if "tick_inv n l C" "t < n" "C t = Locking p" "tspin_lock l p = (l', Inl p')" for n l C t p l' p'
    using tick_lock_inv(1) [OF that] .
  show "tick_inv n l' (C(t := Holding))"
    if "tick_inv n l C" "t < n" "C t = Locking p" "tspin_lock l p = (l', Inr ())" for n l C t p l'
    using tick_lock_inv(2) [OF that] .
  show "tick_inv n l' (C(t := Unlocking u'))"
    if "tick_inv n l C" "t < n" "C t = Unlocking u" "tspin_unlock l u = (l', Inl u')" for n l C t u l' u'
    using tick_unlock_inv(1) [OF that] .
  show "tick_inv n l' (C(t := Out))"
    if "tick_inv n l C" "t < n" "C t = Unlocking u" "tspin_unlock l u = (l', Inr ())" for n l C t u l'
    using tick_unlock_inv(2) [OF that] .
  show "t = t'" if "tick_inv n l C" "inside (C t)" "inside (C t')" for n l C t t'
    using tick_mutex [OF that] .
  show "\<exists>t' < n. \<exists>p'. C t' = Locking p' \<and> tspin_lock l p' \<noteq> (l, Inl p')"
    if "tick_inv n l C" "C t = Locking p" "\<forall>t'. \<not> inside (C t')" for n l C t p
    using tick_progress [OF that] .
qed

subsection \<open>The decrement lock\<close>

text \<open>With a thread inside, the counter is minus the number of threads that have tried and failed
  since; without one it is 1.\<close>

definition spin_held :: "nat \<Rightarrow> spinlock_t \<Rightarrow> (nat \<Rightarrow> (bool, unit) place) \<Rightarrow> bool" where
  "spin_held n l C \<longleftrightarrow> (\<exists>h F. (\<forall>t. inside (C t) \<longleftrightarrow> t = h) \<and> F \<subseteq> {t \<in> {..<n}. C t = Locking False}
     \<and> sint (slock l) = - int (card F))"

definition spin_inv :: "nat \<Rightarrow> spinlock_t \<Rightarrow> (nat \<Rightarrow> (bool, unit) place) \<Rightarrow> bool" where
  "spin_inv n l C \<longleftrightarrow> n < 2 ^ 31 \<and> (\<forall>t. C t \<noteq> Out \<longrightarrow> t < n)
     \<and> (if \<exists>t. inside (C t) then spin_held n l C else slock l = 1)"

lemma sint_pred: "- (2 ^ 31) < sint (w::u32) \<Longrightarrow> sint (w - 1) = sint w - 1"
  using sint_lt [of w] by (simp add: sint_word_ariths signed_take_bit_int_eq_self_iff)

lemma spin_held_sint:
  assumes "spin_held n l C" "n < 2 ^ 31"
  shows "sint (slock l) \<le> 0" "- (2 ^ 31) < sint (slock l)"
proof -
  obtain F where F: "F \<subseteq> {..<n}" "sint (slock l) = - int (card F)" using assms(1) by (auto simp: spin_held_def)
  have "card F \<le> n" using F(1) by (metis card_lessThan card_mono finite_lessThan)
  then show "sint (slock l) \<le> 0" "- (2 ^ 31) < sint (slock l)" using F(2) assms(2) by simp_all
qed

lemma spin_fail:
  assumes "spin_held n l C" "n < 2 ^ 31" "t < n" "C t = Locking True"
  shows "spin_held n (l\<lparr>slock := slock l - 1\<rparr>) (C(t := Locking False))"
proof -
  obtain h F where F: "\<forall>t. inside (C t) \<longleftrightarrow> t = h" "F \<subseteq> {t \<in> {..<n}. C t = Locking False}"
    "sint (slock l) = - int (card F)" using assms(1) by (auto simp: spin_held_def)
  have "finite F" by (rule finite_subset [OF F(2)]) simp
  moreover have "t \<notin> F" using F(2) assms(4) by auto
  ultimately have "sint (slock l - 1) = - int (card (insert t F))"
    using sint_pred [OF spin_held_sint(2) [OF assms(1,2)]] F(3) by simp
  moreover have "\<not> inside (C t)" using assms(4) by simp
  then have "t \<noteq> h" using F(1) by blast
  then have "\<forall>u. inside ((C(t := Locking False)) u) \<longleftrightarrow> u = h" using F(1) by simp
  moreover have "insert t F \<subseteq> {u \<in> {..<n}. (C(t := Locking False)) u = Locking False}" using F(2) assms(3) by auto
  ultimately show ?thesis unfolding spin_held_def by (intro exI conjI) auto
qed

lemma spin_lock_step:
  assumes "spin_inv n l C" "t < n" "C t = Locking p"
  shows "case snd (spin_lock l p) of Inl p' \<Rightarrow> spin_inv n (fst (spin_lock l p)) (C(t := Locking p'))
    | Inr u \<Rightarrow> spin_inv n (fst (spin_lock l p)) (C(t := Holding))"
proof (cases "\<exists>t. inside (C t)")
  case True
  then have h: "spin_held n l C" "n < 2 ^ 31" "\<forall>t. C t \<noteq> Out \<longrightarrow> t < n" using assms(1) by (auto simp: spin_inv_def)
  have in': "\<exists>u. inside ((C(t := Locking p')) u)" for p'
    using True assms(3) by (metis fun_upd_apply inside.simps(4))
  show ?thesis
  proof (cases p)
    case True
    have "sint (slock l - 1) < 0" using sint_pred [OF spin_held_sint(2) [OF h(1,2)]] spin_held_sint(1) [OF h(1,2)] by simp
    then show ?thesis
      using True spin_fail [OF h(1,2) assms(2)] assms(2,3) h in' [of False] by (simp add: spin_inv_def Let_def)
  next
    case False
    then show ?thesis using assms spin_held_sint(1) [OF h(1,2)] by (simp add: fun_upd_idem)
  qed
next
  case False
  then have one: "slock l = 1" "n < 2 ^ 31" "\<forall>t. C t \<noteq> Out \<longrightarrow> t < n" using assms(1) by (auto simp: spin_inv_def)
  show ?thesis
  proof (cases p)
    case True
    have "\<forall>u. inside ((C(t := Holding)) u) \<longleftrightarrow> u = t" using False by auto
    then have "spin_held n (l\<lparr>slock := 0\<rparr>) (C(t := Holding))" unfolding spin_held_def by (intro exI [of _ t] exI [of _ "{}"]) simp
    then show ?thesis using True one assms(2) by (auto simp: spin_inv_def Let_def)
  next
    case F: False
    have "\<not> (\<exists>u. inside ((C(t := Locking True)) u))" using False by auto
    then show ?thesis using F one assms(2) by (simp add: spin_inv_def)
  qed
qed

lemma spin_same:
  assumes "spin_inv n l C" "t < n" "inside pl \<longleftrightarrow> inside (C t)" "C t \<noteq> Locking False"
  shows "spin_inv n l (C(t := pl))"
proof -
  have i: "inside ((C(t := pl)) u) \<longleftrightarrow> inside (C u)" for u using assms(3) by simp
  have "{u \<in> {..<n}. C u = Locking False} \<subseteq> {u \<in> {..<n}. (C(t := pl)) u = Locking False}" using assms(4) by auto
  then have "spin_held n l C \<Longrightarrow> spin_held n l (C(t := pl))"
    unfolding spin_held_def i by (meson subset_trans)
  then show ?thesis using assms(1,2) unfolding spin_inv_def i by (auto split: if_splits)
qed

lemma spin_leave:
  assumes "spin_inv n l C" "t < n" "inside (C t)"
  shows "spin_inv n (l\<lparr>slock := 1\<rparr>) (C(t := Out))"
proof -
  have "\<forall>u. inside (C u) \<longleftrightarrow> u = t" using assms(1,3) by (auto simp: spin_inv_def spin_held_def split: if_splits)
  then have "\<not> (\<exists>u. inside ((C(t := Out)) u))" by simp
  then show ?thesis using assms(1) unfolding spin_inv_def by auto
qed

interpretation spin: spin_lock_contract spin_lock True spin_unlock "()" spin_lock_init "2 ^ 31 - 1" spin_inv
proof unfold_locales
  show "n \<le> 2 ^ 31 - 1 \<Longrightarrow> spin_inv n spin_lock_init (\<lambda>t. Out)" for n
    by (simp add: spin_inv_def spin_lock_init_def)
  show "spin_inv n l (C(t := Locking True))" if "spin_inv n l C" "t < n" "C t = Out" for n l C t
    using that by (intro spin_same) auto
  show "spin_inv n l' (C(t := Locking p'))"
    if "spin_inv n l C" "t < n" "C t = Locking p" "spin_lock l p = (l', Inl p')" for n l C t p l' p'
    using spin_lock_step [OF that(1-3)] that(4) by simp
  show "spin_inv n l' (C(t := Holding))"
    if "spin_inv n l C" "t < n" "C t = Locking p" "spin_lock l p = (l', Inr ())" for n l C t p l'
    using spin_lock_step [OF that(1-3)] that(4) by simp
  show "spin_inv n l (C(t := Unlocking ()))" if "spin_inv n l C" "t < n" "C t = Holding" for n l C t
    using that by (intro spin_same) auto
  show "spin_inv n l' (C(t := Unlocking u'))"
    if "spin_inv n l C" "spin_unlock l u = (l', Inl u')" for n l C t u l' u'
    using that by (simp add: spin_unlock_def)
  show "spin_inv n l' (C(t := Out))"
    if "spin_inv n l C" "t < n" "C t = Unlocking u" "spin_unlock l u = (l', Inr ())" for n l C t u l'
    using spin_leave [OF that(1,2)] that(3,4) by (simp add: spin_unlock_def)
  show "C t \<noteq> Out \<Longrightarrow> t < n" if "spin_inv n l C" for n l C t using that by (simp add: spin_inv_def)
  show "spin_unlock l u \<noteq> (l', Inl u)" for l u l' by (simp add: spin_unlock_def)
  show "t = t'" if "spin_inv n l C" "inside (C t)" "inside (C t')" for n l C t t'
  proof -
    have "spin_held n l C" using that unfolding spin_inv_def by metis
    then obtain h where "\<forall>t. inside (C t) \<longleftrightarrow> t = h" unfolding spin_held_def by blast
    then show ?thesis using that(2,3) by metis
  qed
  show "\<exists>t' < n. \<exists>p'. C t' = Locking p' \<and> spin_lock l p' \<noteq> (l, Inl p')"
    if "spin_inv n l C" "C t = Locking p" "\<forall>t'. \<not> inside (C t')" for n l C t p
  proof -
    have one: "t < n" "slock l = 1" using that by (auto simp: spin_inv_def)
    have "spin_lock l p \<noteq> (l, Inl p)" using one(2) by (cases p) (simp_all add: Let_def)
    then show ?thesis using one(1) that(2) by blast
  qed
qed

subsection \<open>Properties\<close>

text \<open>C20. The ticket lock is a FIFO queue of threads, as long as no more than \<open>2\<^sup>1\<^sup>6\<close> threads use it, also
  when the 16-bit counters wrap around: drawing a ticket puts a thread at the end, only the thread at the head
  finds its ticket due and holds the lock, and the unlock takes it off, although its add is not locked.\<close>

theorem tspin_queue:
  assumes "tick_rel n l C q" "n \<le> 2 ^ 16" "t < n"
  shows "(C t = Out \<longrightarrow> tick_rel n l (C(t := Locking None)) q)
    \<and> (C t = Locking None \<longrightarrow>
        tick_rel n (fst (tspin_lock l None)) (C(t := Locking (Some (qhead l)))) (q @ [t]))
    \<and> (\<forall>pos. C t = Locking (Some pos) \<longrightarrow>
        (if q \<noteq> [] \<and> hd q = t then tspin_lock l (Some pos) = (l, Inr ()) else tspin_lock l (Some pos) = (l, Inl (Some pos))))
    \<and> (inside (C t) \<longrightarrow> q \<noteq> [] \<and> hd q = t)
    \<and> (\<forall>v. C t = Unlocking (Some v) \<longrightarrow> tick_rel n (fst (tspin_unlock l (Some v))) (C(t := Out)) (tl q))"
proof (intro conjI allI impI)
  show "tick_rel n l (C(t := Locking None)) q" if "C t = Out" using tick_call [OF assms(1,3) that] .
  show "tick_rel n (fst (tspin_lock l None)) (C(t := Locking (Some (qhead l)))) (q @ [t])" if "C t = Locking None"
    using tick_draw [OF assms(1,3) that] by simp
  show "if q \<noteq> [] \<and> hd q = t then tspin_lock l (Some pos) = (l, Inr ()) else tspin_lock l (Some pos) = (l, Inl (Some pos))"
    if "C t = Locking (Some pos)" for pos
  proof (cases "q \<noteq> [] \<and> hd q = t")
    case True
    then obtain q' where "q = t # q'" by (cases q) auto
    then show ?thesis using assms(1) that by (auto simp: tick_rel_def)
  next
    case False
    then show ?thesis using tick_head [OF assms(1,2), of t] that by auto
  qed
  show "q \<noteq> []" "hd q = t" if "inside (C t)" using tick_head [OF assms(1,2), of t] that by auto
  show "tick_rel n (fst (tspin_unlock l (Some v))) (C(t := Out)) (tl q)" if "C t = Unlocking (Some v)" for v
    using tick_head [OF assms(1,2), of t] that tick_unlock [of n l C t "tl q" v] assms(1) by auto
qed

theorem tspin_queue_witness:
  "tick_rel 2 (fst (tspin_lock \<lparr>qhead = 0, qtail = 0xFFFF\<rparr> None))
     (\<lambda>t. if t = 0 then Holding else if t = 1 then Locking (Some 0) else Out) [0, 1]"
proof -
  let ?C = "\<lambda>t::nat. if t = 0 then Holding else if t = 1 then Locking None else Out"
  have rel: "tick_rel 2 \<lparr>qhead = 0, qtail = 0xFFFF\<rparr> ?C [0]" by (auto simp: tick_rel_def)
  have eq: "?C(1 := Locking (Some 0)) = (\<lambda>t. if t = 0 then Holding else if t = 1 then Locking (Some 0) else Out)"
    by (rule ext) simp
  have "tick_rel 2 (fst (tspin_lock \<lparr>qhead = 0, qtail = 0xFFFF\<rparr> None)) (?C(1 := Locking (Some 0))) ([0] @ [1])"
    using tspin_queue [OF rel, of 1] by (simp del: tspin_lock.simps)
  then show ?thesis unfolding eq by (simp del: tspin_lock.simps)
qed

text \<open>C6. In every interleaving of the benchmark threads no two of them are inside the same lock at the same
  time, with the ticket locks and with the decrement locks.\<close>

theorem qspins_mutex:
  "(\<forall>s t t'. ring_reach tspin_lock None tspin_unlock None tspin_lock_init n s \<and> n \<le> 2 ^ 16
      \<and> inside (place (thr s t)) \<and> inside (place (thr s t')) \<and> k (thr s t) = k (thr s t') \<longrightarrow> t = t')
    \<and> (\<forall>s t t'. ring_reach spin_lock True spin_unlock () spin_lock_init n s \<and> n < 2 ^ 31
      \<and> inside (place (thr s t)) \<and> inside (place (thr s t')) \<and> k (thr s t) = k (thr s t') \<longrightarrow> t = t')"
proof (intro conjI allI impI; elim conjE)
  fix s t t'
  assume "ring_reach tspin_lock None tspin_unlock None tspin_lock_init n s" "n \<le> 2 ^ 16"
    "inside (place (thr s t))" "inside (place (thr s t'))" "k (thr s t) = k (thr s t')"
  then show "t = t'" by (rule tick.ring_mutex)
next
  fix s t t'
  assume "ring_reach spin_lock True spin_unlock () spin_lock_init n s" "n < 2 ^ 31"
    "inside (place (thr s t))" "inside (place (thr s t'))" "k (thr s t) = k (thr s t')"
  then show "t = t'" using spin.ring_mutex [of n s t t'] by simp
qed

lemma demo_hold:
  "\<exists>s. ring_reach tspin_lock None tspin_unlock None tspin_lock_init 2 s \<and> place (thr s 1) = Holding"
proof -
  let ?R = "ring_reach tspin_lock None tspin_unlock None tspin_lock_init 2"
  let ?x = "\<lambda>pl. \<lparr>place = pl, k = 1, iter = 0\<rparr>"
  let ?s0 = "ring_init tspin_lock_init :: (tspinlock_t, u16 option, u16 option) ring"
  let ?s1 = "set_thr 1 (?x (Locking None)) ?s0"
  let ?s2 = "set_lock 1 \<lparr>qhead = 1, qtail = 0\<rparr> (set_thr 1 (?x (Locking (Some 0))) ?s1)"
  let ?s3 = "set_lock 1 \<lparr>qhead = 1, qtail = 0\<rparr> (set_thr 1 (?x Holding) ?s2)"
  have "?R ?s1" using ring_next [OF ring_start r_call [of 1 2 ?s0 "?x Out"]] by (simp add: ring_init_def)
  then have "?R ?s2" using ring_next [OF _ r_lock [of 1 2 ?s1 "?x (Locking None)"]] by (simp add: ring_init_def tspin_lock_init_def)
  then have "?R ?s3" using ring_next [OF _ r_locked [of 1 2 ?s2 "?x (Locking (Some 0))"]] by simp
  then show ?thesis by (intro exI [of _ ?s3]) simp
qed

theorem qspins_mutex_witness:
  "\<exists>s. ring_reach tspin_lock None tspin_unlock None tspin_lock_init 2 s \<and> inside (place (thr s 1))
     \<and> (\<forall>t. inside (place (thr s t)) \<and> k (thr s t) = k (thr s 1) \<longrightarrow> t = 1)"
proof -
  obtain s where s: "ring_reach tspin_lock None tspin_unlock None tspin_lock_init 2 s" "place (thr s 1) = Holding"
    using demo_hold by blast
  then have "inside (place (thr s t)) \<and> k (thr s t) = k (thr s 1) \<longrightarrow> t = 1" for t
    using conjunct1 [OF qspins_mutex [of 2], rule_format, of s t 1] by simp
  with s show ?thesis by (intro exI [of _ s]) simp
qed



end
