(* ===== verification/MemIsZero.thy ===== *)
theory MemIsZero
  imports Prelude
begin

text \<open>
  \<^verbatim>\<open>memiszero.c\<close>: three ways to test a block of memory for zero bytes. The memory is a map from
  addresses to the bytes that may be read; reading any other byte, or a word at an address that is
  not a multiple of its size, is a fault.
\<close>

unbundle bit_operations_syntax

type_synonym bmem = "u64 \<rightharpoonup> u8"

text \<open>\<open>k\<close> times \<open>z |= *(__u8 const *) p++\<close>\<close>

primrec eat :: "bmem \<Rightarrow> nat \<Rightarrow> u64 \<Rightarrow> u32 \<Rightarrow> (u64 \<times> u32) option" where
  "eat m 0 p z = Some (p, z)"
| "eat m (Suc k) p z = do { b \<leftarrow> m p; eat m k (p + 1) (z OR ucast b) }"

text \<open>The value of a little-endian word of \<open>w\<close> bytes.\<close>

primrec load_le :: "bmem \<Rightarrow> nat \<Rightarrow> u64 \<Rightarrow> nat option" where
  "load_le m 0 p = Some 0"
| "load_le m (Suc w) p = do { b \<leftarrow> m p; v \<leftarrow> load_le m w (p + 1); Some (unat b + 256 * v) }"

definition load_word :: "bmem \<Rightarrow> nat \<Rightarrow> u64 \<Rightarrow> nat option" where
  "load_word m k p = (if p AND mask k = 0 then load_le m (2 ^ k) p else None)"

text \<open>\<open>for (; p < t; p += 2^k) if (*(word *) p) return 0\<close>: \<open>Some None\<close> is the return.\<close>

partial_function (option) words_loop :: "bmem \<Rightarrow> nat \<Rightarrow> u64 \<Rightarrow> u64 \<Rightarrow> u64 option option" where
  "words_loop m k p t = (if p < t then do {
       v \<leftarrow> load_word m k p;
       if v \<noteq> 0 then Some None else words_loop m k (p + 2 ^ k) t }
     else Some (Some p))"

text \<open>The first \<^verbatim>\<open>switch\<close>: from \<open>case c\<close> it falls through the reads up to the last case, and tests \<open>z\<close>
  there; there is no case 0.\<close>

definition head_bytes :: "bmem \<Rightarrow> nat \<Rightarrow> u64 \<Rightarrow> (u64 \<times> u32) option" where
  "head_bytes m k p = (let c = unat (p AND mask k) in
     if c = 0 then Some (p, 0) else eat m (2 ^ k - c) p 0)"

text \<open>The label \<^verbatim>\<open>bytes_loop\<close>: the second \<^verbatim>\<open>switch\<close> falls through \<open>n\<close> reads, for \<open>n\<close> below the word size.\<close>

definition bytes_loop :: "bmem \<Rightarrow> u64 \<Rightarrow> u64 \<Rightarrow> u32 \<Rightarrow> int option" where
  "bytes_loop m p n z = do { (p, z) \<leftarrow> eat m (unat n) p z; Some (if z = 0 then 1 else 0) }"

text \<open>The two routines have the same text but for the word size \<open>2\<^sup>k\<close>: 8 bytes in \<^verbatim>\<open>memiszero\<close>, 4 in
  \<^verbatim>\<open>memiszero_32\<close>.\<close>

definition memiszero_words :: "nat \<Rightarrow> bmem \<Rightarrow> u64 \<Rightarrow> u64 \<Rightarrow> int option" where
  "memiszero_words k m p n = (
     if n < 2 ^ k then bytes_loop m p n 0
     else do {
       let t = (p + n) AND NOT (mask k);
       let n = (p + n) AND mask k;
       (p, z) \<leftarrow> head_bytes m k p;
       if z \<noteq> 0 then Some 0
       else do {
         r \<leftarrow> words_loop m k p t;
         (case r of None \<Rightarrow> Some 0 | Some p \<Rightarrow> bytes_loop m p n z) } })"

definition memiszero :: "bmem \<Rightarrow> u64 \<Rightarrow> u64 \<Rightarrow> int option" where
  "memiszero = memiszero_words 3"

definition memiszero_32 :: "bmem \<Rightarrow> u64 \<Rightarrow> u64 \<Rightarrow> int option" where
  "memiszero_32 = memiszero_words 2"

partial_function (option) loop_bytes :: "bmem \<Rightarrow> u64 \<Rightarrow> u64 \<Rightarrow> int option" where
  "loop_bytes m p t = (if p < t then do {
       b \<leftarrow> m p;
       if b \<noteq> 0 then Some 0 else loop_bytes m (p + 1) t }
     else Some 1)"

definition memiszero_loop :: "bmem \<Rightarrow> u64 \<Rightarrow> u64 \<Rightarrow> int option" where
  "memiszero_loop m p n = loop_bytes m p (p + n)"

subsection \<open>Blocks\<close>

definition readable :: "bmem \<Rightarrow> u64 \<Rightarrow> nat \<Rightarrow> bool" where
  "readable m p k \<longleftrightarrow> (\<forall>i<k. m (p + of_nat i) \<noteq> None)"

definition zeros :: "bmem \<Rightarrow> u64 \<Rightarrow> nat \<Rightarrow> bool" where
  "zeros m p k \<longleftrightarrow> (\<forall>i<k. m (p + of_nat i) = Some 0)"

lemma all_less_add: "(\<forall>i < a + (b::nat). P i) \<longleftrightarrow> (\<forall>i<a. P i) \<and> (\<forall>i<b. P (a + i))"
  by (induction b) (auto simp: less_Suc_eq)

lemma readable_add: "readable m p (a + b) \<longleftrightarrow> readable m p a \<and> readable m (p + of_nat a) b"
  by (simp add: readable_def all_less_add add.assoc)

lemma zeros_add: "zeros m p (a + b) \<longleftrightarrow> zeros m p a \<and> zeros m (p + of_nat a) b"
  by (simp add: zeros_def all_less_add add.assoc)

lemma readable_Suc: "readable m p (Suc k) \<longleftrightarrow> m p \<noteq> None \<and> readable m (p + 1) k"
  using readable_add [of m p 1 k] by (simp add: readable_def [of m p "Suc 0"])

lemma zeros_Suc: "zeros m p (Suc k) \<longleftrightarrow> m p = Some 0 \<and> zeros m (p + 1) k"
  using zeros_add [of m p 1 k] by (simp add: zeros_def [of m p "Suc 0"])

lemma zeros_0 [simp]: "zeros m p 0" "readable m p 0"
  by (simp_all add: zeros_def readable_def)

subsection \<open>What the pieces read\<close>

lemma or_ucast_0: "(z::u32) OR ucast (b::u8) = 0 \<longleftrightarrow> z = 0 \<and> b = 0"
proof -
  have "(ucast b :: u32) = 0 \<longleftrightarrow> b = 0"
    using unat8_less [of b] by (simp add: word_unat_eq_iff unat_of_nat unsigned_ucast_eq take_bit_nat_eq_self)
  then show ?thesis by (metis or.right_neutral or_eq_0_iff)
qed

lemma eat_ok:
  "readable m p k \<Longrightarrow> \<exists>z'. eat m k p z = Some (p + of_nat k, z') \<and> (z' = 0 \<longleftrightarrow> z = 0 \<and> zeros m p k)"
proof (induction k arbitrary: p z)
  case (Suc k)
  then obtain b where b: "m p = Some b" "readable m (p + 1) k" by (auto simp: readable_Suc)
  from Suc.IH [OF b(2), of "z OR ucast b"] b show ?case
    by (auto simp: zeros_Suc or_ucast_0 add.assoc)
qed simp

lemma load_le_ok: "readable m p w \<Longrightarrow> \<exists>v. load_le m w p = Some v \<and> (v = 0 \<longleftrightarrow> zeros m p w)"
proof (induction w arbitrary: p)
  case (Suc w)
  then obtain b where b: "m p = Some b" "readable m (p + 1) w" by (auto simp: readable_Suc)
  from Suc.IH [OF b(2)] b show ?case by (auto simp: zeros_Suc word_unat_eq_iff)
qed simp

lemma unat_low_bits: "unat ((x::u64) AND mask k) = unat x mod 2 ^ k"
proof -
  have "unat (x AND mask k) = take_bit k (unat x)" by (simp only: take_bit_eq_mask [symmetric] unsigned_take_bit_eq)
  then show ?thesis by (simp add: take_bit_eq_mod)
qed

lemma unat_high_bits: "unat ((x::u64) AND NOT (mask k)) = unat x - unat x mod 2 ^ k"
proof -
  have "x AND NOT (mask k) = x - (x AND mask k)"
  proof -
    have "(x AND NOT (mask k)) + (x AND mask k) = (x AND NOT (mask k)) OR (x AND mask k)"
      by (intro disjunctive_add_eq_or) (auto simp: bit_eq_iff bit_simps)
    also have "\<dots> = x" by (auto simp: bit_eq_iff bit_simps)
    finally show ?thesis by (simp add: eq_diff_eq)
  qed
  moreover have "x AND mask k \<le> x" by (rule word_and_le2)
  ultimately show ?thesis by (simp add: unat_sub unat_low_bits)
qed

lemma unat_add_of_nat: "unat (p::u64) + a < 2 ^ 64 \<Longrightarrow> unat (p + of_nat a) = unat p + a"
  by (simp add: unat_word_ariths(1) unat_of_nat)

lemma words_loop_ok:
  assumes "k \<le> 3" "unat p mod 2 ^ k = 0" "unat p + 2 ^ k * j < 2 ^ 64" "readable m p (2 ^ k * j)"
  shows "words_loop m k p (p + of_nat (2 ^ k * j)) =
    Some (if zeros m p (2 ^ k * j) then Some (p + of_nat (2 ^ k * j)) else None)"
  using assms(2-)
proof (induction j arbitrary: p)
  case 0
  then show ?case by (simp add: words_loop.simps)
next
  case (Suc j)
  let ?w = "2 ^ k :: nat"
  have al: "p AND mask k = 0" using Suc.prems(1) by (metis unat_low_bits unsigned_eq_0_iff)
  have lt: "p < p + of_nat (?w * Suc j)"
    using unat_add_of_nat [OF Suc.prems(2)] by (simp add: word_less_nat_alt)
  have r: "readable m p ?w" "readable m (p + of_nat ?w) (?w * j)"
    using Suc.prems(3) readable_add [of m p ?w "?w * j"] by simp_all
  obtain v where v: "load_le m ?w p = Some v" "v = 0 \<longleftrightarrow> zeros m p ?w"
    using load_le_ok [OF r(1)] by blast
  have np: "unat (p + of_nat ?w) = unat p + ?w"
    using Suc.prems(2) by (intro unat_add_of_nat) simp
  have "words_loop m k (p + of_nat ?w) (p + of_nat ?w + of_nat (?w * j)) =
      Some (if zeros m (p + of_nat ?w) (?w * j) then Some (p + of_nat ?w + of_nat (?w * j)) else None)"
    using Suc.prems r(2) np by (intro Suc.IH) simp_all
  moreover have "p + of_nat ?w + of_nat (?w * j) = p + of_nat (?w * Suc j)" by (simp add: add.assoc)
  moreover have "of_nat ?w = (2 ^ k :: u64)" by simp
  ultimately have IH: "words_loop m k (p + 2 ^ k) (p + of_nat (?w * Suc j)) =
      Some (if zeros m (p + of_nat ?w) (?w * j) then Some (p + of_nat (?w * Suc j)) else None)"
    by metis
  show ?case
    using lt al v IH zeros_add [of m p ?w "?w * j"]
    by (subst words_loop.simps) (simp add: load_word_def)
qed

lemma bytes_loop_ok:
  assumes "readable m p (unat n)"
  shows "bytes_loop m p n 0 = Some (if zeros m p (unat n) then 1 else 0)"
  using eat_ok [OF assms, of 0] by (auto simp: bytes_loop_def)

text \<open>The block splits into the bytes up to the first word boundary, whole words and the bytes after
  the last word boundary.\<close>

lemma block_split:
  fixes P N w :: nat
  assumes "0 < w" "w \<le> N"
  defines "h \<equiv> (if P mod w = 0 then 0 else w - P mod w)"
  shows "\<exists>j. h + w * j + (P + N) mod w = N \<and> P + h + w * j = P + N - (P + N) mod w \<and> (P + h) mod w = 0"
proof -
  have a: "(P + h) mod w = 0"
  proof (cases "P mod w = 0")
    case False
    have "h + P mod w = w" using False mod_less_divisor [OF assms(1), of P] by (simp add: h_def)
    then have "P + h = w * (P div w) + w" using mult_div_mod_eq [of w P] by linarith
    then show ?thesis by simp
  qed (simp add: h_def)
  have b: "P + h \<le> P + N" using assms by (auto simp: h_def)
  obtain u where u: "P + h = w * u" using a by (metis mod_0_imp_dvd dvdE)
  let ?T = "P + N - (P + N) mod w"
  have T: "?T = w * ((P + N) div w)" by (metis minus_mod_eq_mult_div)
  have "u \<le> (P + N) div w" using b u assms(1) by (metis div_le_mono nonzero_mult_div_cancel_left not_gr_zero)
  then obtain j where j: "(P + N) div w = u + j" by (metis le_iff_add)
  have e: "P + h + w * j = ?T" using u j T by (simp add: distrib_left)
  moreover have "?T + (P + N) mod w = P + N" by simp
  ultimately show ?thesis using a by (metis add.assoc add_left_cancel)
qed

lemma head_bytes_ok:
  assumes "readable m p (if unat p mod 2 ^ k = 0 then 0 else 2 ^ k - unat p mod 2 ^ k)" (is "readable m p ?h")
  shows "\<exists>z. head_bytes m k p = Some (p + of_nat ?h, z) \<and> (z = 0 \<longleftrightarrow> zeros m p ?h)"
  using eat_ok [OF assms, of 0] by (auto simp: head_bytes_def Let_def unat_low_bits)

lemma memiszero_words_ok:
  assumes "k \<le> 3" "unat p + unat n < 2 ^ 64" "readable m p (unat n)"
  shows "memiszero_words k m p n = Some (if zeros m p (unat n) then 1 else 0)"
proof (cases "n < 2 ^ k")
  case True
  then show ?thesis using bytes_loop_ok [OF assms(3)] by (simp add: memiszero_words_def)
next
  case False
  let ?w = "2 ^ k :: nat"
  let ?P = "unat p" and ?N = "unat n"
  let ?h = "if ?P mod ?w = 0 then 0 else ?w - ?P mod ?w"
  have "unat (2 ^ k :: u64) = ?w" proof -
    have "unat (of_nat ?w :: u64) = ?w"
      using assms(1) power_increasing [of k 3 "2::nat"] by (simp only: unat_of_nat) simp
    then show ?thesis by simp
  qed
  then have wN: "?w \<le> ?N" using False by (simp add: word_less_nat_alt)
  obtain j where j: "?h + ?w * j + (?P + ?N) mod ?w = ?N" "?P + ?h + ?w * j = ?P + ?N - (?P + ?N) mod ?w"
    "(?P + ?h) mod ?w = 0"
    using block_split [of ?w ?N ?P] wN by auto
  define q where "q = p + of_nat ?h"
  define t where "t = (p + n) AND NOT (mask k)"
  define r where "r = (p + n) AND mask k"
  have sum: "unat (p + n) = ?P + ?N" using assms(2) by (simp add: unat_word_ariths(1))
  have q: "unat q = ?P + ?h" unfolding q_def using j(1) assms(2) by (intro unat_add_of_nat) linarith
  have rd: "readable m p ?h" "readable m q (?w * j)" "readable m (q + of_nat (?w * j)) (unat r)"
    using assms(3) j(1) readable_add [of m p "?h + ?w * j" "unat r"] readable_add [of m p ?h "?w * j"]
    unfolding q_def r_def unat_low_bits sum by (simp_all add: add.assoc)
  have zs: "zeros m p ?N \<longleftrightarrow> zeros m p ?h \<and> zeros m q (?w * j) \<and> zeros m (q + of_nat (?w * j)) (unat r)"
    using j(1) zeros_add [of m p "?h + ?w * j" "unat r"] zeros_add [of m p ?h "?w * j"]
    unfolding q_def r_def unat_low_bits sum by (simp add: add.assoc)
  have bd: "unat q + ?w * j < 2 ^ 64" using q j(1) assms(2) by linarith
  have t: "t = q + of_nat (?w * j)"
  proof -
    have "unat t = unat (q + of_nat (?w * j))"
      using unat_add_of_nat [OF bd] q j(2) by (simp add: t_def unat_high_bits sum)
    then show ?thesis by (simp add: word_unat_eq_iff)
  qed
  obtain z where z: "head_bytes m k p = Some (q, z)" "z = 0 \<longleftrightarrow> zeros m p ?h"
    using head_bytes_ok [OF rd(1)] unfolding q_def by blast
  have w: "words_loop m k q t = Some (if zeros m q (?w * j) then Some t else None)"
    unfolding t using assms(1) j(3) q bd rd(2) by (intro words_loop_ok) simp_all
  have b: "bytes_loop m t r 0 = Some (if zeros m t (unat r) then 1 else 0)"
    by (rule bytes_loop_ok) (use rd(3) t in simp)
  have "memiszero_words k m p n = do { (q, z) \<leftarrow> head_bytes m k p;
      if z \<noteq> 0 then Some 0 else do { x \<leftarrow> words_loop m k q t;
        (case x of None \<Rightarrow> Some 0 | Some p \<Rightarrow> bytes_loop m p r z) } }"
    unfolding memiszero_words_def t_def r_def Let_def using False by simp
  with z w b zs [folded t] show ?thesis by (cases "z = 0") simp_all
qed

lemma loop_bytes_ok:
  assumes "unat p + k < 2 ^ 64" "readable m p k"
  shows "loop_bytes m p (p + of_nat k) = Some (if zeros m p k then 1 else 0)"
  using assms
proof (induction k arbitrary: p)
  case 0
  then show ?case by (simp add: loop_bytes.simps)
next
  case (Suc k)
  have lt: "p < p + of_nat (Suc k)"
    using unat_add_of_nat [OF Suc.prems(1)] by (simp add: word_less_nat_alt)
  have n: "unat (p + 1) = unat p + 1" using Suc.prems(1) unat_add_of_nat [of p 1] by simp
  obtain b where b: "m p = Some b" "readable m (p + 1) k" using Suc.prems(2) by (auto simp: readable_Suc)
  have "loop_bytes m (p + 1) (p + 1 + of_nat k) = Some (if zeros m (p + 1) k then 1 else 0)"
    using Suc.prems(1) n b(2) by (intro Suc.IH) simp_all
  then show ?case using lt b(1)
    by (subst loop_bytes.simps) (simp add: zeros_Suc add.assoc)
qed

lemma memiszero_equiv_ok:
  assumes "unat p + unat n < 2 ^ 64" "\<forall>i < unat n. m (p + of_nat i) \<noteq> None"
  shows "memiszero_loop m p n = Some (if \<forall>i < unat n. m (p + of_nat i) = Some 0 then 1 else 0)
    \<and> memiszero m p n = memiszero_loop m p n \<and> memiszero_32 m p n = memiszero_loop m p n"
proof -
  have r: "readable m p (unat n)" using assms(2) by (simp add: readable_def)
  have "memiszero_loop m p n = Some (if zeros m p (unat n) then 1 else 0)"
    using loop_bytes_ok [OF assms(1) r] by (simp add: memiszero_loop_def)
  moreover have "memiszero_words k m p n = Some (if zeros m p (unat n) then 1 else 0)" if "k \<le> 3" for k
    by (rule memiszero_words_ok [OF that assms(1) r])
  ultimately show ?thesis by (simp add: memiszero_def memiszero_32_def zeros_def)
qed

subsection \<open>Properties\<close>

text \<open>C9. On any block that may be read and does not wrap around the address space, whatever its
  alignment and size, \<^verbatim>\<open>memiszero\<close>, \<^verbatim>\<open>memiszero_32\<close> and the byte loop end, read no byte outside the
  block and no misaligned word, and agree: the result is 1 if every byte is zero and 0 otherwise.\<close>

theorem memiszero_equiv:
  assumes "unat p + unat n < 2 ^ 64" "\<forall>i < unat n. m (p + of_nat i) \<noteq> None"
  shows "memiszero_loop m p n = Some (if \<forall>i < unat n. m (p + of_nat i) = Some 0 then 1 else 0)
    \<and> memiszero m p n = memiszero_loop m p n \<and> memiszero_32 m p n = memiszero_loop m p n"
  by (rule memiszero_equiv_ok [OF assms])

definition demo_block :: bmem where
  "demo_block = (\<lambda>a. if 0x1003 \<le> a \<and> a < 0x1017 then Some (if a = 0x1012 then 7 else 0) else None)"

theorem memiszero_equiv_witness:
  "memiszero demo_block 0x1003 20 = Some 0 \<and> memiszero_32 demo_block 0x1003 20 = Some 0"
proof -
  have "demo_block (0x1003 + of_nat i) \<noteq> None" if "i < 20" for i
  proof -
    have "unat (0x1003 + of_nat i :: u64) = 0x1003 + i"
      using that unat_add_of_nat [of "0x1003" i] by simp
    then show ?thesis using that by (simp add: demo_block_def word_le_nat_alt word_less_nat_alt)
  qed
  moreover have "\<exists>i < 20. demo_block (0x1003 + of_nat i) \<noteq> Some 0"
    by (intro exI [of _ 15]) (simp add: demo_block_def)
  ultimately show ?thesis using memiszero_equiv [of "0x1003" 20 demo_block] by auto
qed

subsection \<open>The benchmark\<close>

text \<open>\<^verbatim>\<open>main\<close>: a block whose last byte is 1 goes through each of the three routines in rounds of
  \<open>LOOP_COUNT\<close> calls until \<open>MIN_TEST_TIME\<close> microseconds have passed. \<open>clk i\<close> is what the \<open>i\<close>-th call
  of \<^verbatim>\<open>getustime\<close> returns, \<open>base\<close> what \<^verbatim>\<open>malloc\<close> does; the exit status 1 says that a routine is broken.\<close>

definition MIN_TEST_TIME :: u64 where "MIN_TEST_TIME = 1000000"

definition LOOP_COUNT :: nat where "LOOP_COUNT = 200"

definition mz_data :: "u64 \<Rightarrow> u64 \<Rightarrow> bmem option" where
  "mz_data base sz = (if sz = 0 then None else
     Some (\<lambda>a. if base \<le> a \<and> a < base + sz then Some (if a = base + (sz - 1) then 1 else 0) else None))"

definition mz_round :: "(bmem \<Rightarrow> u64 \<Rightarrow> u64 \<Rightarrow> int option) \<Rightarrow> bmem \<Rightarrow> u64 \<Rightarrow> u64 \<Rightarrow> int option" where
  "mz_round f m p n = foldM (\<lambda>_ s. do { r \<leftarrow> f m p n; Some (s + r) }) [0..<LOOP_COUNT] 0"

partial_function (option) mz_rounds ::
  "(bmem \<Rightarrow> u64 \<Rightarrow> u64 \<Rightarrow> int option) \<Rightarrow> bmem \<Rightarrow> u64 \<Rightarrow> u64 \<Rightarrow> (nat \<Rightarrow> u64) \<Rightarrow> u64 \<Rightarrow> nat \<Rightarrow> u64 \<Rightarrow> (u64 \<times> nat) option option" where
  "mz_rounds f m p n clk ts i count = do {
     s \<leftarrow> mz_round f m p n;
     if s \<noteq> 0 then Some None
     else if clk i - ts < MIN_TEST_TIME then mz_rounds f m p n clk ts (i + 1) (count + 1)
     else Some (Some ((clk i - ts) div (count + 1), i + 1)) }"

fun mz_phases ::
  "(bmem \<Rightarrow> u64 \<Rightarrow> u64 \<Rightarrow> int option) list \<Rightarrow> bmem \<Rightarrow> u64 \<Rightarrow> u64 \<Rightarrow> (nat \<Rightarrow> u64) \<Rightarrow> nat \<Rightarrow> (int \<times> u64 list) option" where
  "mz_phases [] m p n clk i = Some (0, [])"
| "mz_phases (f # fs) m p n clk i = do {
     r \<leftarrow> mz_rounds f m p n clk (clk i) (i + 1) 0;
     (case r of None \<Rightarrow> Some (1, [])
      | Some (us, i) \<Rightarrow> do { (st, uss) \<leftarrow> mz_phases fs m p n clk i; Some (st, us # uss) }) }"

definition memiszero_main :: "u64 \<Rightarrow> u64 \<Rightarrow> (nat \<Rightarrow> u64) \<Rightarrow> (int \<times> u64 list) option" where
  "memiszero_main base sz clk = do {
     data \<leftarrow> mz_data base sz;
     mz_phases [memiszero_loop, memiszero_32, memiszero] data base sz clk 0 }"

lemma mz_round_zero:
  assumes "f m p n = Some 0"
  shows "mz_round f m p n = Some 0"
proof -
  have "foldM (\<lambda>_ s. do { r \<leftarrow> f m p n; Some (s + r) }) xs 0 = Some 0" for xs :: "nat list"
    by (induction xs) (simp_all add: assms)
  then show ?thesis by (simp add: mz_round_def)
qed

lemma mz_rounds_end:
  assumes "f m p n = Some 0" "\<not> clk j - ts < MIN_TEST_TIME" "i \<le> j"
  shows "\<exists>us i'. mz_rounds f m p n clk ts i count = Some (Some (us, i'))"
  using assms(3)
proof (induction "j - i" arbitrary: i count)
  case 0
  then have "j = i" by simp
  then show ?case using assms(1,2) mz_round_zero [of f m p n] by (subst mz_rounds.simps) simp
next
  case (Suc d)
  have "\<exists>us i'. mz_rounds f m p n clk ts (i + 1) (count + 1) = Some (Some (us, i'))"
    using Suc.hyps(2) by (intro Suc.hyps(1)) linarith+
  then show ?case using assms(1) mz_round_zero [of f m p n] by (subst mz_rounds.simps) auto
qed

lemma mz_phases_end:
  assumes "\<forall>f \<in> set fs. f m p n = Some 0" "\<forall>i. \<exists>j > i. \<not> clk j - clk i < MIN_TEST_TIME"
  shows "\<exists>uss. mz_phases fs m p n clk i = Some (0, uss) \<and> length uss = length fs"
  using assms(1)
proof (induction fs arbitrary: i)
  case (Cons f fs)
  obtain j where j: "i + 1 \<le> j" "\<not> clk j - clk i < MIN_TEST_TIME"
    using assms(2) by (metis Suc_eq_plus1 Suc_leI)
  obtain us i' where "mz_rounds f m p n clk (clk i) (i + 1) 0 = Some (Some (us, i'))"
    using mz_rounds_end [of f m p n clk j "clk i" "i + 1" 0] j Cons.prems by auto
  then show ?case using Cons.IH [of i'] Cons.prems by auto
qed simp

text \<open>With a block of at least one byte that does not wrap around and a clock that gets on,
  the benchmark ends: none of the three routines is reported as broken, and three times are printed.\<close>

theorem memiszero_main_ends:
  assumes "sz \<noteq> 0" "unat base + unat sz < 2 ^ 64" "\<forall>i. \<exists>j > i. \<not> clk j - clk i < MIN_TEST_TIME"
  shows "\<exists>uss. memiszero_main base sz clk = Some (0, uss) \<and> length uss = 3"
proof -
  obtain m where m: "mz_data base sz = Some m" and m_def: "m = (\<lambda>a. if base \<le> a \<and> a < base + sz
      then Some (if a = base + (sz - 1) then 1 else 0) else None)"
    using assms(1) by (simp add: mz_data_def)
  have in_block: "base \<le> base + of_nat i \<and> base + of_nat i < base + sz" if "i < unat sz" for i
    using that assms(2) unat_add_of_nat [of base i] by (simp add: word_le_nat_alt word_less_nat_alt unat_word_ariths(1))
  then have rd: "\<forall>i < unat sz. m (base + of_nat i) \<noteq> None" by (simp add: m_def)
  have pos: "unat sz - 1 < unat sz" using assms(1) by (simp add: unat_gt_0)
  have "of_nat (unat sz - 1) = sz - 1"
  proof -
    have "of_nat (unat sz - 1) + 1 = (of_nat (Suc (unat sz - 1)) :: u64)" by simp
    also have "Suc (unat sz - 1) = unat sz" using pos by linarith
    finally show ?thesis by (simp add: eq_diff_eq)
  qed
  then have "m (base + of_nat (unat sz - 1)) = Some 1" using in_block [OF pos] by (simp add: m_def)
  then have "\<not> (\<forall>i < unat sz. m (base + of_nat i) = Some 0)" using pos by (metis option.inject zero_neq_one)
  then have "\<forall>f \<in> set [memiszero_loop, memiszero_32, memiszero]. f m base sz = Some 0"
    using memiszero_equiv_ok [OF assms(2) rd] by simp
  from mz_phases_end [OF this assms(3), of 0] m show ?thesis by (auto simp: memiszero_main_def)
qed

end
