(* ===== verification/BinPatch.thy ===== *)
theory BinPatch
  imports CStr
begin

text \<open>
  \<^verbatim>\<open>binpatch.c\<close>: searches a file for a byte string and writes a copy in which each occurrence is
  replaced by another string of the same size. A stdio stream is its bytes and a position.
\<close>

subsection \<open>The search\<close>

text \<open>The position of the input, \<open>match_pos\<close>, the entry \<open>matches[match_count]\<close> that is being filled and
  the finished entries. The match buffer holds \<open>match_size\<close> bytes: reading behind them is a fault.\<close>

definition MAX_MATCHES :: nat where "MAX_MATCHES = 32"

partial_function (option) search_loop ::
  "u8 list \<Rightarrow> u8 list \<Rightarrow> nat \<Rightarrow> nat \<Rightarrow> nat \<Rightarrow> nat list \<Rightarrow> nat list option" where
  "search_loop inp pat pos match_pos cur matches = (
     if length matches < MAX_MATCHES \<and> pos < length inp then
       if length pat \<le> match_pos then None
       else if pat ! match_pos = inp ! pos then
         let cur = (if match_pos = 0 then pos else cur) in
         if match_pos + 1 = length pat then search_loop inp pat (pos + 1) 0 cur (matches @ [cur])
         else search_loop inp pat (pos + 1) (match_pos + 1) cur matches
       else if match_pos > 0 then search_loop inp pat (cur + 1) 0 cur matches
       else search_loop inp pat (pos + 1) 0 cur matches
     else Some matches)"

definition search :: "u8 list \<Rightarrow> u8 list \<Rightarrow> nat list option" where
  "search inp pat = search_loop inp pat 0 0 0 []"

text \<open>The occurrences from \<open>off\<close> on, each search going on behind the last occurrence.\<close>

function occurrences :: "u8 list \<Rightarrow> u8 list \<Rightarrow> nat \<Rightarrow> nat list" where
  "occurrences inp pat off = (
     if pat = [] \<or> length inp < off + length pat then []
     else if take (length pat) (drop off inp) = pat then off # occurrences inp pat (off + length pat)
     else occurrences inp pat (off + 1))"
  by pat_completeness auto
termination
  by (relation "measure (\<lambda>(inp, pat, off). length inp - off)") (simp_all flip: length_greater_0_conv, linarith+)

declare occurrences.simps [simp del]

lemma occurrences_end: "length inp < off + length pat \<Longrightarrow> occurrences inp pat off = []"
  by (subst occurrences.simps) simp

lemma nth_of_prefix:
  assumes "take k (drop off inp) = take k pat" "i < k" "k \<le> length pat"
  shows "off + i < length inp \<and> inp ! (off + i) = pat ! i"
proof -
  have l: "length (take k (drop off inp)) = k" using assms(1,3) by simp
  then have "off + i < length inp" using assms(2) by auto
  moreover have "take k (drop off inp) ! i = take k pat ! i" using assms(1) by simp
  ultimately show ?thesis using assms(2) by simp
qed

lemma no_match:
  assumes "take k (drop off inp) = take k pat" "k < length pat"
    and "off + k < length inp" "pat ! k \<noteq> inp ! (off + k)"
  shows "take (length pat) (drop off inp) \<noteq> pat"
proof
  assume "take (length pat) (drop off inp) = pat"
  then have "inp ! (off + k) = pat ! k" using nth_of_prefix [of "length pat" off inp pat k] assms(2) by simp
  then show False using assms(4) by simp
qed

lemma extend_prefix:
  assumes "take k (drop off inp) = take k pat" "k < length pat"
    and "off + k < length inp" "pat ! k = inp ! (off + k)"
  shows "take (Suc k) (drop off inp) = take (Suc k) pat"
  using assms by (simp add: take_Suc_conv_app_nth)

lemma search_loop_ok:
  assumes "pat \<noteq> []" "match_pos < length pat" "take match_pos (drop s inp) = take match_pos pat"
    and "match_pos > 0 \<longrightarrow> cur = s" "length ms \<le> MAX_MATCHES"
  shows "search_loop inp pat (s + match_pos) match_pos cur ms
    = Some (ms @ take (MAX_MATCHES - length ms) (occurrences inp pat s))"
  using assms(2-)
proof (induction "(length inp - s, length pat - match_pos)" arbitrary: s match_pos cur ms
    rule: wf_induct_rule [OF wf_lex_prod [OF wf_less wf_less]])
  case 1
  note IH = 1(1) [rule_format]
  note pre = 1(2-)
  show ?case
  proof (cases "length ms < MAX_MATCHES \<and> s + match_pos < length inp")
    case False
    then have "occurrences inp pat s = [] \<or> length ms = MAX_MATCHES"
      using pre(1,4) by (auto simp: occurrences.simps [of inp pat s])
    with False show ?thesis by (subst search_loop.simps) auto
  next
    case True
    have s: "s < length inp" using True by simp
    show ?thesis
    proof (cases "pat ! match_pos = inp ! (s + match_pos)")
      case eq: True
      have ext: "take (Suc match_pos) (drop s inp) = take (Suc match_pos) pat"
        using extend_prefix [OF pre(2,1)] True eq by simp
      show ?thesis
      proof (cases "match_pos + 1 = length pat")
        case True2: True
        have occ: "occurrences inp pat s = s # occurrences inp pat (s + length pat)"
          using ext True2 True assms(1) by (subst occurrences.simps) auto
        have "search_loop inp pat (s + length pat + 0) 0 s (ms @ [s]) =
            Some ((ms @ [s]) @ take (MAX_MATCHES - length (ms @ [s])) (occurrences inp pat (s + length pat)))"
          using True assms(1) s length_greater_0_conv [of pat]
          by (intro IH) (auto simp: MAX_MATCHES_def simp del: length_greater_0_conv intro: diff_less_mono2)
        moreover have "search_loop inp pat (s + match_pos) match_pos cur ms =
            search_loop inp pat (s + match_pos + 1) 0 s (ms @ [s])"
          using True eq True2 pre(3) by (subst search_loop.simps) (auto simp: Let_def)
        moreover have "s + match_pos + 1 = s + length pat + 0" using True2 by simp
        moreover have "MAX_MATCHES - length ms = Suc (MAX_MATCHES - length (ms @ [s]))"
          using True by (simp add: Suc_diff_Suc)
        ultimately show ?thesis using occ by (simp only: take_Suc_Cons append_assoc append_Cons append_Nil)
      next
        case False
        have "search_loop inp pat (s + Suc match_pos) (Suc match_pos) s ms =
            Some (ms @ take (MAX_MATCHES - length ms) (occurrences inp pat s))"
          using pre False ext by (intro IH) auto
        then show ?thesis
          using True eq False pre(1,3) by (subst search_loop.simps) (auto simp: Let_def)
      qed
    next
      case neq: False
      have occ: "occurrences inp pat s = occurrences inp pat (s + 1)"
        using no_match [OF pre(2,1)] True neq
        by (subst occurrences.simps) (auto simp: assms(1) occurrences_end)
      have "search_loop inp pat (s + 1 + 0) 0 cur ms =
          Some (ms @ take (MAX_MATCHES - length ms) (occurrences inp pat (s + 1)))"
        using pre(4) assms(1) s by (intro IH) auto
      then show ?thesis
        using True neq pre(1,3) occ by (subst search_loop.simps) (auto simp: Let_def)
    qed
  qed
qed

lemma occurrences_sound:
  "s \<in> set (occurrences inp pat off) \<Longrightarrow>
     off \<le> s \<and> s + length pat \<le> length inp \<and> take (length pat) (drop s inp) = pat"
proof (induction inp pat off rule: occurrences.induct)
  case (1 inp pat off)
  then show ?case by (subst (asm) (3) occurrences.simps) (fastforce split: if_splits)
qed

lemma occurrences_apart: "sorted_wrt (\<lambda>a b. a + length pat \<le> b) (occurrences inp pat off)"
proof (induction inp pat off rule: occurrences.induct)
  case (1 inp pat off)
  then show ?case
    by (subst occurrences.simps) (auto dest: occurrences_sound)
qed

lemma occurrences_first:
  assumes "pat \<noteq> []" "off \<le> i" "i + length pat \<le> length inp" "take (length pat) (drop i inp) = pat"
  shows "\<exists>s \<in> set (occurrences inp pat off). s \<le> i \<and> i < s + length pat"
  using assms
proof (induction inp pat off rule: occurrences.induct)
  case (1 inp pat off)
  show ?case
  proof (cases "take (length pat) (drop off inp) = pat")
    case True
    have o: "occurrences inp pat off = off # occurrences inp pat (off + length pat)"
      using True 1 by (subst occurrences.simps) auto
    show ?thesis
    proof (cases "i < off + length pat")
      case False
      then show ?thesis using 1 True o by auto
    qed (use 1 o in auto)
  next
    case False
    then have "off + 1 \<le> i" using "1.prems"(2,4) by (metis Suc_eq_plus1 Suc_leI le_neq_implies_less)
    then show ?thesis using 1 False by (subst occurrences.simps) auto
  qed
qed

subsection \<open>The copy\<close>

function patch_loop :: "u8 list \<Rightarrow> u8 list \<Rightarrow> nat list \<Rightarrow> nat \<Rightarrow> nat \<Rightarrow> u8 list \<Rightarrow> u8 list" where
  "patch_loop inp patch ms pos m out = (
     if pos < length inp then
       if m < length ms \<and> pos = ms ! m
       then patch_loop inp patch ms (pos + length patch) (m + 1) (out @ patch)
       else patch_loop inp patch ms (pos + 1) m (out @ [inp ! pos])
     else out)"
  by pat_completeness auto
termination
  by (relation "measure (\<lambda>(inp, patch, ms, pos, m, out). (length inp - pos) + (length ms - m))") auto

declare patch_loop.simps [simp del]

definition patched_byte :: "u8 list \<Rightarrow> u8 list \<Rightarrow> nat list \<Rightarrow> nat \<Rightarrow> u8" where
  "patched_byte inp patch ms i = (case find (\<lambda>s. s \<le> i \<and> i < s + length patch) ms of
      None \<Rightarrow> inp ! i | Some s \<Rightarrow> patch ! (i - s))"

lemma patched_byte_out:
  "\<forall>s \<in> set ms. \<not> (s \<le> i \<and> i < s + length patch) \<Longrightarrow> patched_byte inp patch ms i = inp ! i"
  by (simp add: patched_byte_def find_None_iff split: option.split) (metis find_Some_iff nth_mem option.discI)

lemma patched_byte_in:
  assumes "sorted_wrt (\<lambda>a b. a + length patch \<le> b) ms" "m < length ms" "ms ! m \<le> i" "i < ms ! m + length patch"
  shows "patched_byte inp patch ms i = patch ! (i - ms ! m)"
proof -
  obtain s where s: "find (\<lambda>s. s \<le> i \<and> i < s + length patch) ms = Some s"
    using assms(2-4) by (metis (mono_tags, lifting) find_None_iff not_Some_eq nth_mem)
  then obtain k where k: "k < length ms" "ms ! k \<le> i" "i < ms ! k + length patch" "s = ms ! k"
    by (auto simp: find_Some_iff)
  have "k = m"
    using sorted_wrt_nth_less [OF assms(1), of k m] sorted_wrt_nth_less [OF assms(1), of m k] k assms(2-4)
    by (cases k m rule: linorder_cases) auto
  then show ?thesis using s k by (simp add: patched_byte_def)
qed

lemma patch_loop_ok:
  assumes "sorted_wrt (\<lambda>a b. a + length patch \<le> b) ms" "\<forall>s \<in> set ms. s + length patch \<le> length inp" "patch \<noteq> []"
    and "pos \<le> length inp" "\<forall>k < m. ms ! k + length patch \<le> pos" "\<forall>k < length ms. m \<le> k \<longrightarrow> pos \<le> ms ! k"
    and "m \<le> length ms"
  shows "patch_loop inp patch ms pos m out = out @ map (patched_byte inp patch ms) [pos..<length inp]"
  using assms
proof (induction inp patch ms pos m out rule: patch_loop.induct)
  case (1 inp patch ms pos m out)
  note sep = "1.prems"(1) and inside = "1.prems"(2) and pre = "1.prems"(3-)
  show ?case
  proof (cases "pos < length inp")
    case False
    then show ?thesis by (subst patch_loop.simps) simp
  next
    case True
    show ?thesis
    proof (cases "m < length ms \<and> pos = ms ! m")
      case hit: True
      have le: "pos + length patch \<le> length inp" using inside hit by auto
      have before: "\<forall>k < m + 1. ms ! k + length patch \<le> pos + length patch"
        using pre(3) hit by (auto simp: less_Suc_eq)
      have after: "\<forall>k < length ms. m + 1 \<le> k \<longrightarrow> pos + length patch \<le> ms ! k"
        using sorted_wrt_nth_less [OF sep, of m] hit by auto
      have "map (patched_byte inp patch ms) [pos..<pos + length patch] = patch"
        using patched_byte_in [OF sep, of m] hit by (intro nth_equalityI) auto
      moreover have "[pos..<length inp] = [pos..<pos + length patch] @ [pos + length patch..<length inp]"
        using le upt_add_eq_append [of pos "pos + length patch" "length inp - (pos + length patch)"] by simp
      ultimately show ?thesis
        using "1.IH"(1) [OF True hit sep inside pre(1) le before after] hit True
        by (subst patch_loop.simps) simp
    next
      case miss: False
      have other: "\<forall>k < length ms. m \<le> k \<longrightarrow> pos + 1 \<le> ms ! k"
      proof (intro allI impI)
        fix k assume k: "k < length ms" "m \<le> k"
        have "ms ! k \<noteq> pos"
        proof
          assume e: "ms ! k = pos"
          then have "m < k" using miss k by (metis le_neq_implies_less)
          then have "ms ! m + length patch \<le> pos" using sorted_wrt_nth_less [OF sep, of m k] k e by simp
          moreover have "pos \<le> ms ! m" using pre(4) k by simp
          ultimately show False using pre(1) by (simp flip: length_greater_0_conv)
        qed
        then show "pos + 1 \<le> ms ! k" using pre(4) k by (metis Suc_eq_plus1 Suc_leI le_neq_implies_less)
      qed
      have none: "\<forall>s \<in> set ms. \<not> (s \<le> pos \<and> pos < s + length patch)"
      proof
        fix s assume "s \<in> set ms"
        then obtain k where k: "k < length ms" "s = ms ! k" by (auto simp: in_set_conv_nth)
        then show "\<not> (s \<le> pos \<and> pos < s + length patch)"
          using pre(3) other by (cases "k < m") (auto simp: not_less)
      qed
      have before: "\<forall>k < m. ms ! k + length patch \<le> pos + 1" using pre(3) by fastforce
      show ?thesis
        using "1.IH"(2) [OF True miss sep inside pre(1) _ before other pre(5)] True miss patched_byte_out [OF none]
        by (subst patch_loop.simps) (auto simp: upt_conv_Cons)
    qed
  qed
qed

subsection \<open>The program\<close>

text \<open>The search and the copy, as \<^verbatim>\<open>main\<close> runs them on the bytes of the input.\<close>

definition binpatch_run :: "u8 list \<Rightarrow> u8 list \<Rightarrow> u8 list \<Rightarrow> (nat list \<times> u8 list) option" where
  "binpatch_run inp pat patch = do {
     ms \<leftarrow> search inp pat;
     Some (ms, patch_loop inp patch ms 0 0 []) }"

record bp_opts =
  in_file_path :: "cstr option"
  out_file_path :: "cstr option"
  dry_run :: bool

fun bp_options :: "cstr list \<Rightarrow> bp_opts \<Rightarrow> bp_opts \<times> cstr list" where
  "bp_options [] opt = (opt, [])"
| "bp_options (a # as) opt = (
     if a = bytes ''-i'' then
       (case as of [] \<Rightarrow> (opt, []) | v # as \<Rightarrow> bp_options as (opt\<lparr>in_file_path := Some v\<rparr>))
     else if a = bytes ''-o'' then
       (case as of [] \<Rightarrow> (opt, []) | v # as \<Rightarrow> bp_options as (opt\<lparr>out_file_path := Some v\<rparr>))
     else if a = bytes ''-d'' then bp_options as (opt\<lparr>dry_run := True\<rparr>)
     else (opt, a # as))"

text \<open>The bytes of the match up to \<open>--\<close>, of which the buffer takes 4096, and what follows.\<close>

fun match_args :: "nat \<Rightarrow> cstr list \<Rightarrow> u8 list \<times> cstr list" where
  "match_args room [] = ([], [])"
| "match_args room (a # as) = (if a \<noteq> bytes ''--'' \<and> 0 < room
     then (let (bs, rest) = match_args (room - 1) as in (of_int (strtol 0 a) # bs, rest))
     else ([], a # as))"

definition patch_args :: "cstr list \<Rightarrow> u8 list" where
  "patch_args as = map (\<lambda>a. of_int (strtol 0 a)) (take 4096 as)"

text \<open>\<open>rd\<close> gives the bytes of a file that can be opened, \<open>wr\<close> says whether a file can be opened for
  writing (it is another one than the input), \<open>key\<close> is the answer read from the terminal. The result
  is the exit status and the bytes of the output, if one is written.\<close>

definition binpatch_main ::
  "(cstr \<Rightarrow> u8 list option) \<Rightarrow> (cstr \<Rightarrow> bool) \<Rightarrow> int \<Rightarrow> cstr list \<Rightarrow> (int \<times> u8 list option) option" where
  "binpatch_main rd wr key args = (
     let (opt, rest) = bp_options args \<lparr>in_file_path = None, out_file_path = None, dry_run = False\<rparr>;
         (pat, rest) = match_args 4096 rest;
         patch = patch_args (drop 1 rest) in
     case in_file_path opt of None \<Rightarrow> Some (1, None)
     | Some path \<Rightarrow>
       if length pat \<noteq> length patch then Some (2, None)
       else case rd path of None \<Rightarrow> Some (3, None)
       | Some inp \<Rightarrow> do {
           (ms, out) \<leftarrow> binpatch_run inp pat patch;
           if dry_run opt then Some (0, None)
           else if key \<noteq> 121 then Some (5, None)
           else if (case out_file_path opt of None \<Rightarrow> False | Some f \<Rightarrow> \<not> wr f) then Some (4, None)
           else Some (0, Some out) })"

lemma search_ok: "pat \<noteq> [] \<Longrightarrow> search inp pat = Some (take MAX_MATCHES (occurrences inp pat 0))"
  using search_loop_ok [of pat 0 0 inp 0 "[]"] by (simp add: search_def)

lemma sorted_wrt_take: "sorted_wrt P xs \<Longrightarrow> sorted_wrt P (take n xs)"
  using sorted_wrt_append [of P "take n xs" "drop n xs"] by simp

lemma binpatch_run_ok:
  assumes "pat \<noteq> []" "length patch = length pat" and ms_def: "ms = take MAX_MATCHES (occurrences inp pat 0)"
  shows "binpatch_run inp pat patch = Some (ms, map (patched_byte inp patch ms) [0..<length inp])"
proof -
  have "sorted_wrt (\<lambda>a b. a + length patch \<le> b) ms"
    unfolding ms_def assms(2) by (intro sorted_wrt_take occurrences_apart)
  moreover have "\<forall>s \<in> set ms. s + length patch \<le> length inp"
    using occurrences_sound assms(2) by (auto simp: ms_def dest!: in_set_takeD)
  ultimately have "patch_loop inp patch ms 0 0 [] = map (patched_byte inp patch ms) [0..<length inp]"
    using patch_loop_ok [of patch ms inp 0 0 "[]"] assms(1,2) by fastforce
  then show ?thesis using search_ok [OF assms(1)] by (simp add: binpatch_run_def ms_def)
qed

subsection \<open>Properties\<close>

text \<open>C10. For a match that is not empty, the search and the copy end without reading outside the
  match buffer. The search reports only true occurrences, at most 32, apart from each other, and
  when it reports fewer than 32 every occurrence in the file overlaps a reported one. The output has the
  size of the input, the patch at each reported place and the input's bytes everywhere else.\<close>

theorem binpatch_correct:
  assumes "pat \<noteq> []" "length patch = length pat"
  shows "\<exists>ms out. binpatch_run inp pat patch = Some (ms, out)
    \<and> length ms \<le> 32 \<and> sorted_wrt (\<lambda>a b. a + length pat \<le> b) ms
    \<and> (\<forall>s \<in> set ms. s + length pat \<le> length inp \<and> take (length pat) (drop s inp) = pat)
    \<and> (length ms < 32 \<longrightarrow> (\<forall>i. i + length pat \<le> length inp \<and> take (length pat) (drop i inp) = pat
          \<longrightarrow> (\<exists>s \<in> set ms. s \<le> i \<and> i < s + length pat)))
    \<and> length out = length inp
    \<and> (\<forall>s \<in> set ms. take (length pat) (drop s out) = patch)
    \<and> (\<forall>i < length inp. (\<forall>s \<in> set ms. \<not> (s \<le> i \<and> i < s + length pat)) \<longrightarrow> out ! i = inp ! i)"
proof -
  define ms where "ms = take MAX_MATCHES (occurrences inp pat 0)"
  let ?out = "map (patched_byte inp patch ms) [0..<length inp]"
  have run: "binpatch_run inp pat patch = Some (ms, ?out)"
    by (rule binpatch_run_ok [OF assms ms_def])
  have sound: "\<forall>s \<in> set ms. s + length pat \<le> length inp \<and> take (length pat) (drop s inp) = pat"
    using occurrences_sound [of _ inp pat 0] by (auto simp: ms_def dest!: in_set_takeD)
  have sep: "sorted_wrt (\<lambda>a b. a + length pat \<le> b) ms"
    unfolding ms_def by (intro sorted_wrt_take occurrences_apart)
  have all: "length ms < 32 \<longrightarrow> (\<forall>i. i + length pat \<le> length inp \<and> take (length pat) (drop i inp) = pat
          \<longrightarrow> (\<exists>s \<in> set ms. s \<le> i \<and> i < s + length pat))"
    using occurrences_first [OF assms(1), of 0] by (auto simp: ms_def MAX_MATCHES_def)
  have "take (length pat) (drop s ?out) = patch" if "s \<in> set ms" for s
  proof (rule nth_equalityI)
    obtain m where "m < length ms" "s = ms ! m" using \<open>s \<in> set ms\<close> by (metis in_set_conv_nth)
    then show "take (length pat) (drop s ?out) ! i = patch ! i" if "i < length (take (length pat) (drop s ?out))" for i
      using that patched_byte_in [of patch ms m "s + i" inp] sep assms(2) by (auto simp: nth_drop)
  qed (use sound that assms(2) in auto)
  moreover have "length ms \<le> 32" by (simp add: ms_def MAX_MATCHES_def)
  ultimately show ?thesis
    using run sound sep all patched_byte_out [of ms _ patch inp] assms(2) by fastforce
qed

theorem binpatch_correct_witness:
  "\<exists>ms out. binpatch_run [1, 1, 2, 3, 1, 2, 9] [1, 2] [7, 8] = Some (ms, out) \<and> length out = 7"
  using binpatch_correct [of "[1, 2]" "[7, 8]" "[1, 1, 2, 3, 1, 2, 9]"] by auto

end
