(* ===== verification/SplitMb.thy ===== *)
theory SplitMb
  imports CStr
begin

text \<open>
  \<^verbatim>\<open>splitmb.c\<close>: splits a mailbox file at its \<^verbatim>\<open>From\<close> lines. A pair of pointers \<open>str\<close>, \<open>top\<close> is the list
  of the bytes between them.
\<close>

subsection \<open>Addresses\<close>

text \<open>\<^verbatim>\<open>strchr\<close> finds the terminating NUL of the literal too.\<close>

definition is_rfc822_atext :: "u8 \<Rightarrow> bool" where
  "is_rfc822_atext c \<longleftrightarrow> isalpha8 c \<or> isdigit8 c
     \<or> c \<in> set ([0x21, 0x23, 0x24, 0x25, 0x26, 0x27, 0x2a, 0x2b, 0x2d, 0x2f, 0x3d, 0x3f, 0x5e, 0x5f, 0x60, 0x7b, 0x7c, 0x7d, 0x7e] @ [0])"

function is_dot_atom :: "cstr \<Rightarrow> cstr option" where
  "is_dot_atom str = (
     let rest = dropWhile is_rfc822_atext str in
     if rest = str then None
     else if rest = [] \<or> hd rest \<noteq> 46 then Some rest
     else is_dot_atom (tl rest))"
  by pat_completeness auto
termination
proof (relation "measure length")
  fix str rest :: cstr
  assume r: "rest = dropWhile is_rfc822_atext str" "rest \<noteq> str" "\<not> (rest = [] \<or> hd rest \<noteq> 46)"
  have "length rest \<le> length str" using r(1) by (simp add: length_dropWhile_le)
  moreover have "length (tl rest) < length rest" using r(3) by simp
  ultimately show "(tl rest, str) \<in> measure length" by simp
qed simp

declare is_dot_atom.simps [simp del]

definition parse_hostname :: "cstr \<Rightarrow> cstr option" where
  "parse_hostname hname = is_dot_atom hname"

definition is_valid_host :: "cstr \<Rightarrow> bool" where
  "is_valid_host hname = (case parse_hostname hname of None \<Rightarrow> False | Some eoh \<Rightarrow> eoh = [])"

definition is_valid_addr_spec :: "cstr \<Rightarrow> bool" where
  "is_valid_addr_spec addr = (case is_dot_atom addr of None \<Rightarrow> False
     | Some [] \<Rightarrow> True
     | Some (c # caddr) \<Rightarrow> if c \<noteq> 64 then False else is_valid_host caddr)"

text \<open>The grammar: atoms joined by dots.\<close>

definition atom_str :: "cstr \<Rightarrow> bool" where
  "atom_str a \<longleftrightarrow> a \<noteq> [] \<and> (\<forall>c \<in> set a. is_rfc822_atext c)"

fun join_dots :: "cstr list \<Rightarrow> cstr" where
  "join_dots [] = []"
| "join_dots [a] = a"
| "join_dots (a # b # as) = a @ 46 # join_dots (b # as)"

definition dot_atom :: "cstr \<Rightarrow> bool" where
  "dot_atom s \<longleftrightarrow> (\<exists>as. as \<noteq> [] \<and> (\<forall>a \<in> set as. atom_str a) \<and> s = join_dots as)"

lemma dot_not_atext [simp]: "\<not> is_rfc822_atext 46" "\<not> is_rfc822_atext 64"
  by (simp_all add: is_rfc822_atext_def isalpha8_def islower8_def isupper8_def isdigit8_def)

lemma dot_atom_atom: "atom_str a \<Longrightarrow> dot_atom a"
  unfolding dot_atom_def by (intro exI [of _ "[a]"]) simp

lemma dot_atom_Cons: "atom_str a \<Longrightarrow> dot_atom s \<Longrightarrow> dot_atom (a @ 46 # s)"
proof -
  assume a: "atom_str a" and "dot_atom s"
  then obtain as where as: "as \<noteq> []" "\<forall>a \<in> set as. atom_str a" "s = join_dots as" by (auto simp: dot_atom_def)
  then have "a @ 46 # s = join_dots (a # as)" by (cases as) simp_all
  then show ?thesis using a as unfolding dot_atom_def by (metis list.distinct(1) set_ConsD)
qed

text \<open>What may follow a dot-atom that \<^verbatim>\<open>is_dot_atom\<close> finds: it takes all it can.\<close>

definition ends_atom :: "cstr \<Rightarrow> bool" where
  "ends_atom r \<longleftrightarrow> r = [] \<or> hd r \<noteq> 46 \<and> \<not> is_rfc822_atext (hd r)"

lemma ends_atom_stop: "ends_atom r \<Longrightarrow> dropWhile is_rfc822_atext r = r"
  by (cases r) (auto simp: ends_atom_def)

lemma is_dot_atom_sound: "is_dot_atom s = Some r \<Longrightarrow> ends_atom r \<and> (\<exists>p. s = p @ r \<and> dot_atom p)"
proof (induction s rule: is_dot_atom.induct)
  case (1 s)
  let ?a = "takeWhile is_rfc822_atext s" and ?r = "dropWhile is_rfc822_atext s"
  have s: "s = ?a @ ?r" by simp
  have a: "atom_str ?a" if "?r \<noteq> s"
    using that s unfolding atom_str_def by (metis append_Nil set_takeWhileD)
  show ?case
  proof (cases "?r = s \<or> ?r = [] \<or> hd ?r \<noteq> 46")
    case True
    then have "r = ?r" "?r \<noteq> s" using "1.prems" by (subst (asm) is_dot_atom.simps, auto simp: Let_def split: if_splits)+
    moreover have "ends_atom ?r"
      using True \<open>?r \<noteq> s\<close> hd_dropWhile [of is_rfc822_atext s] by (auto simp: ends_atom_def)
    ultimately show ?thesis using s a dot_atom_atom by metis
  next
    case False
    then have "is_dot_atom (tl ?r) = Some r" using "1.prems" by (subst (asm) is_dot_atom.simps) (auto simp: Let_def split: if_splits)
    then have "ends_atom r" "\<exists>p. tl ?r = p @ r \<and> dot_atom p" using "1.IH" [OF refl] False by auto
    moreover have "?r = 46 # tl ?r" using False by (cases ?r) auto
    ultimately show ?thesis using s a dot_atom_Cons False by (metis append.assoc append_Cons)
  qed
qed

lemma is_dot_atom_complete: "as \<noteq> [] \<Longrightarrow> \<forall>a \<in> set as. atom_str a \<Longrightarrow> ends_atom r \<Longrightarrow> is_dot_atom (join_dots as @ r) = Some r"
proof (induction as rule: join_dots.induct)
  case (2 a)
  then have "dropWhile is_rfc822_atext (a @ r) = r" "r \<noteq> a @ r"
    using ends_atom_stop by (auto simp: atom_str_def dropWhile_append)
  then show ?case using 2 by (subst is_dot_atom.simps) (auto simp: ends_atom_def Let_def)
next
  case (3 a b as)
  let ?s = "join_dots (b # as) @ r"
  have "dropWhile is_rfc822_atext (a @ 46 # ?s) = 46 # ?s"
    using 3 by (auto simp: atom_str_def dropWhile_append)
  moreover have "46 # ?s \<noteq> a @ 46 # ?s" using 3 by (auto simp: atom_str_def)
  ultimately show ?case using 3 by (subst is_dot_atom.simps) (simp add: Let_def)
qed simp

lemma is_dot_atom_iff: "is_dot_atom s = Some r \<longleftrightarrow> ends_atom r \<and> (\<exists>p. s = p @ r \<and> dot_atom p)"
  using is_dot_atom_sound is_dot_atom_complete unfolding dot_atom_def by metis

text \<open>C23. \<^verbatim>\<open>is_valid_addr_spec\<close> accepts exactly the strings that are a dot-atom or two dot-atoms with an
  at sign between them, where a dot-atom is a sequence of non-empty atoms joined by dots.\<close>

theorem splitmb_addr_spec:
  "is_valid_addr_spec s \<longleftrightarrow> dot_atom s \<or> (\<exists>l h. s = l @ 64 # h \<and> dot_atom l \<and> dot_atom h)"
proof
  assume v: "is_valid_addr_spec s"
  then obtain r where r: "is_dot_atom s = Some r" by (auto simp: is_valid_addr_spec_def split: option.splits)
  then obtain p where p: "s = p @ r" "dot_atom p" using is_dot_atom_iff by auto
  show "dot_atom s \<or> (\<exists>l h. s = l @ 64 # h \<and> dot_atom l \<and> dot_atom h)"
  proof (cases r)
    case (Cons c h)
    then have "c = 64" "is_dot_atom h = Some []"
      using v r by (auto simp: is_valid_addr_spec_def is_valid_host_def parse_hostname_def split: option.splits if_splits)
    then show ?thesis using p Cons is_dot_atom_iff by auto
  qed (use p in simp)
next
  assume "dot_atom s \<or> (\<exists>l h. s = l @ 64 # h \<and> dot_atom l \<and> dot_atom h)"
  then consider "is_dot_atom s = Some []" | l h where "is_dot_atom s = Some (64 # h)" "is_dot_atom h = Some []"
    using is_dot_atom_iff by (auto simp: ends_atom_def)
  then show "is_valid_addr_spec s"
    by cases (simp_all add: is_valid_addr_spec_def is_valid_host_def parse_hostname_def)
qed

subsection \<open>From lines\<close>

text \<open>The directives of the \<^verbatim>\<open>sscanf\<close> format; every conversion but the literals stores what it read.\<close>

datatype directive = Lit u8 | Ws | Str nat | UInt

fun skip_sign :: "cstr \<Rightarrow> cstr" where
  "skip_sign (c # cs) = (if c = 43 \<or> c = 45 then cs else c # cs)"
| "skip_sign [] = []"

fun scan :: "directive list \<Rightarrow> cstr \<Rightarrow> cstr list option" where
  "scan [] s = Some []"
| "scan (Lit c # ds) s = (if s \<noteq> [] \<and> hd s = c then scan ds (tl s) else None)"
| "scan (Ws # ds) s = scan ds (dropWhile isspace8 s)"
| "scan (Str n # ds) s = (
     let s = dropWhile isspace8 s; tok = take n (takeWhile (\<lambda>c. \<not> isspace8 c) s) in
     if tok = [] then None else map_option ((#) tok) (scan ds (drop (length tok) s)))"
| "scan (UInt # ds) s = (
     let s = skip_sign (dropWhile isspace8 s); num = takeWhile isdigit8 s in
     if num = [] then None else map_option ((#) num) (scan ds (drop (length num) s)))"

definition from_format :: "directive list" where
  "from_format = map Lit (bytes ''From'') @ [Ws, Str 255, Ws, Str 3, Ws, Str 3, Ws, UInt, Ws, UInt, Lit 58, UInt, Lit 58, UInt, Ws, UInt]"

definition is_split_msg :: "cstr \<Rightarrow> bool" where
  "is_split_msg ln = (case scan from_format ln of None \<Rightarrow> False | Some args \<Rightarrow> is_valid_addr_spec (hd args))"

subsection \<open>The program\<close>

record sm_opts =
  outdir :: cstr
  ipath :: "cstr option"
  add_xfile :: bool

text \<open>\<open>None\<close> is the exit of \<^verbatim>\<open>usage\<close>.\<close>

fun sm_options :: "cstr list \<Rightarrow> sm_opts \<Rightarrow> sm_opts option" where
  "sm_options [] opt = Some opt"
| "sm_options (a # as) opt = (
     if a = bytes ''-d'' then (case as of [] \<Rightarrow> Some opt | v # as \<Rightarrow> sm_options as (opt\<lparr>outdir := v\<rparr>))
     else if a = bytes ''-i'' then (case as of [] \<Rightarrow> Some opt | v # as \<Rightarrow> sm_options as (opt\<lparr>ipath := Some v\<rparr>))
     else if a = bytes ''-X'' then sm_options as (opt\<lparr>add_xfile := True\<rparr>)
     else None)"

text \<open>What the surroundings give: the time in milliseconds when line \<open>lnum\<close> opens a file, the process, the host
  name, and which paths can be opened.\<close>

record sm_env =
  mstime :: "nat \<Rightarrow> nat"
  pid :: nat
  hname :: cstr
  can_open :: "cstr \<Rightarrow> bool"

definition msg_name :: "sm_env \<Rightarrow> nat \<Rightarrow> cstr" where
  "msg_name env lnum = dec_digits (mstime env lnum) @ [46] @ dec_digits lnum @ [46] @ dec_digits (pid env) @ [46] @ hname env"

text \<open>\<^verbatim>\<open>fputs\<close> writes the line up to its first NUL to the last file opened.\<close>

fun append_last :: "cstr \<Rightarrow> (cstr \<times> u8 list) list \<Rightarrow> (cstr \<times> u8 list) list" where
  "append_last ln [] = []"
| "append_last ln [(path, body)] = [(path, body @ ln)]"
| "append_last ln (f # fs) = f # append_last ln fs"

definition splits :: "u8 list \<Rightarrow> bool" where
  "splits chunk = (let ln = takeWhile (\<lambda>c. c \<noteq> 0) chunk in take 5 ln = bytes ''From '' \<and> is_split_msg ln)"

text \<open>The files written so far, in the order they were opened; \<open>Inl\<close> is an exit status.\<close>

fun split_loop :: "sm_env \<Rightarrow> sm_opts \<Rightarrow> nat \<Rightarrow> u8 list list \<Rightarrow> (cstr \<times> u8 list) list \<Rightarrow> int + (cstr \<times> u8 list) list" where
  "split_loop env opt lnum [] files = Inr files"
| "split_loop env opt lnum (c # cs) files = (
     if splits c then
       let path = take 4095 (outdir opt @ [47] @ msg_name env lnum) in
       if can_open env path then
         split_loop env opt (lnum + 1) cs (files @ [(path,
           if add_xfile opt then bytes ''X-SplitMB-File: '' @ msg_name env lnum @ [10] else [])])
       else Inl 2
     else split_loop env opt (lnum + 1) cs (append_last (takeWhile (\<lambda>c. c \<noteq> 0) c) files))"

text \<open>\<open>rd\<close> gives the bytes of the input, \<open>None\<close> for a file that cannot be opened.\<close>

definition splitmb_main ::
  "sm_env \<Rightarrow> (cstr option \<Rightarrow> u8 list option) \<Rightarrow> cstr list \<Rightarrow> int + (cstr \<times> u8 list) list" where
  "splitmb_main env rd args = (case sm_options args \<lparr>outdir = [46], ipath = None, add_xfile = False\<rparr> of
      None \<Rightarrow> Inl 1
    | Some opt \<Rightarrow> (case rd (ipath opt) of None \<Rightarrow> Inl 2
        | Some inp \<Rightarrow> split_loop env opt 1 (fgets_all 4095 inp) []))"

lemma append_last_snoc: "append_last ln (fs @ [(path, body)]) = fs @ [(path, body @ ln)]"
proof (induction fs)
  case (Cons f fs)
  then show ?case by (cases fs) auto
qed simp

lemma append_last_append: "append_last b (append_last a fs) = append_last (a @ b) fs"
proof (cases fs rule: rev_cases)
  case (snoc gs f)
  then show ?thesis by (cases f) (simp add: append_last_snoc)
qed simp

lemma append_last_nil [simp]: "append_last [] fs = fs"
proof (cases fs rule: rev_cases)
  case (snoc gs f)
  then show ?thesis by (cases f) (simp add: append_last_snoc)
qed simp

lemma split_loop_parts:
  assumes "\<forall>p. can_open env p" "\<not> add_xfile opt" "\<forall>c \<in> set cs. 0 \<notin> set c"
  shows "\<exists>b parts new. cs = b @ concat (map (\<lambda>(sep, body). sep # body) parts)
    \<and> (\<forall>c \<in> set b. \<not> splits c) \<and> (\<forall>(sep, body) \<in> set parts. splits sep \<and> (\<forall>c \<in> set body. \<not> splits c))
    \<and> split_loop env opt lnum cs files = Inr (append_last (concat b) files @ new)
    \<and> map snd new = map (concat \<circ> snd) parts"
  using assms(3)
proof (induction cs arbitrary: lnum files)
  case Nil
  show ?case by (intro exI [of _ "[]"]) simp
next
  case (Cons c cs)
  then have nul: "takeWhile (\<lambda>x. x \<noteq> 0) c = c" by (auto simp: takeWhile_eq_all_conv)
  let ?p = "take 4095 (outdir opt @ [47] @ msg_name env lnum)"
  let ?files = "if splits c then files @ [(?p, [])] else append_last c files"
  obtain b parts new where IH: "cs = b @ concat (map (\<lambda>(sep, body). sep # body) parts)"
    "\<forall>c \<in> set b. \<not> splits c" "\<forall>(sep, body) \<in> set parts. splits sep \<and> (\<forall>c \<in> set body. \<not> splits c)"
    "split_loop env opt (lnum + 1) cs ?files = Inr (append_last (concat b) ?files @ new)"
    "map snd new = map (concat \<circ> snd) parts"
    using Cons.IH [of "lnum + 1" ?files] Cons.prems by auto
  show ?case
  proof (cases "splits c")
    case True
    have "split_loop env opt lnum (c # cs) files = Inr (append_last (concat []) files @ ((?p, concat b) # new))"
      using IH(4) True assms(1,2) by (simp add: Let_def append_last_snoc)
    then show ?thesis
      using IH(1-3,5) True by (intro exI [of _ "[]"] exI [of _ "(c, b) # parts"] exI [of _ "(?p, concat b) # new"]) simp
  next
    case False
    have "split_loop env opt lnum (c # cs) files = Inr (append_last (concat (c # b)) files @ new)"
      using IH(4) False by (simp add: nul append_last_append)
    then show ?thesis
      using IH(1-3,5) False by (intro exI [of _ "c # b"] exI [of _ parts] exI [of _ new]) simp
  qed
qed


definition demo_mbox :: cstr where
  "demo_mbox = bytes ''From me@x.org Mon Jan 1 10:00:00 2007'' @ [10] @ bytes ''Subject: x'' @ [10]"


end
