(* ===== verification/EConv.thy ===== *)
theory EConv
  imports CStr
begin

text \<open>
  \<^verbatim>\<open>econv.c\<close>: takes the message out of a mail server's queue file, optionally with a \<^verbatim>\<open>From\<close> line in front and
  with Unix line ends.
\<close>

definition is_delim :: "u8 \<Rightarrow> bool" where
  "is_delim c \<longleftrightarrow> c \<in> set [58, 44, 59, 60, 62, 32, 9, 13, 10, 34, 39]"

text \<open>\<open>str\<close> is the bytes up to the terminating NUL, \<open>addr\<close> the buffer, of which the result is the new contents; a
  write outside the buffer is a fault, the outer \<open>None\<close>.\<close>

definition extract_address :: "cstr \<Rightarrow> u8 list \<Rightarrow> nat \<Rightarrow> u8 list option option" where
  "extract_address str addr asize = (
     if 64 \<notin> set str then Some None
     else let pre = takeWhile (\<lambda>c. c \<noteq> 64) str;
              post = tl (dropWhile (\<lambda>c. c \<noteq> 64) str);
              found = rev (takeWhile (\<lambda>c. \<not> is_delim c) (rev pre)) @ 64 # takeWhile (\<lambda>c. \<not> is_delim c) post;
              alen = (if length found > asize then asize - 1 else length found) in
          if alen < length addr then Some (Some (take alen found @ 0 # drop (Suc alen) addr)) else None)"

text \<open>What is left to read and the end-of-file flag, which a read sets that ran into the end.\<close>

definition fgets_eof :: "nat \<Rightarrow> u8 list \<Rightarrow> bool" where
  "fgets_eof m inp \<longleftrightarrow> 10 \<notin> set inp \<and> length inp < m - 1"

definition TAG :: cstr where "TAG = bytes ''<<MAIL-DATA>>''"

definition MAIL_FROM :: cstr where "MAIL_FROM = bytes ''MAIL FROM:''"

text \<open>The first loop: reads lines until the tag; the result is the rest of the input, the flag, and the buffer
  \<open>from\<close>.\<close>

function find_data :: "bool \<Rightarrow> u8 list \<Rightarrow> u8 list \<Rightarrow> (u8 list \<times> bool \<times> u8 list) option" where
  "find_data mbox inp fr = (
     if inp = [] then Some ([], True, fr)
     else
       let ln = takeWhile (\<lambda>c. c \<noteq> 0) (take (fgets_size 2047 inp) inp);
           rest = drop (fgets_size 2047 inp) inp in
       if take (length TAG) ln = TAG then Some (rest, fgets_eof 2047 inp, fr)
       else if mbox \<and> ci_prefix MAIL_FROM ln then do {
         r \<leftarrow> extract_address ln fr 255;
         find_data mbox rest (case r of None \<Rightarrow> fr | Some fr \<Rightarrow> fr) }
       else find_data mbox rest fr)"
  by pat_completeness auto
termination
  by (relation "measure (\<lambda>(mbox, inp, fr). length inp)") (auto simp: fgets_size_def)

declare find_data.simps [simp del]

text \<open>One line of the Unix mode: what is written of a buffer.\<close>

definition unix_line :: "u8 list \<Rightarrow> u8 list" where
  "unix_line chunk = (let ln = takeWhile (\<lambda>c. c \<noteq> 0) chunk; i = length ln in
     if 2 \<le> i \<and> ln ! (i - 1) = 10 \<and> ln ! (i - 2) = 13 then take (i - 2) ln @ [10] else ln)"

record ec_opts =
  fnin :: "cstr option"
  fnout :: "cstr option"
  uxmode :: bool
  mbox :: bool

fun ec_options :: "cstr list \<Rightarrow> ec_opts \<Rightarrow> ec_opts" where
  "ec_options [] opt = opt"
| "ec_options (a # as) opt = (
     if a = bytes ''--input'' then (case as of [] \<Rightarrow> opt | v # as \<Rightarrow> ec_options as (opt\<lparr>fnin := Some v\<rparr>))
     else if a = bytes ''--output'' then (case as of [] \<Rightarrow> opt | v # as \<Rightarrow> ec_options as (opt\<lparr>fnout := Some v\<rparr>))
     else if a = bytes ''--unix'' then ec_options as (opt\<lparr>uxmode := True\<rparr>)
     else if a = bytes ''--mbox'' then ec_options as (opt\<lparr>mbox := True\<rparr>)
     else ec_options as opt)"

text \<open>The conversion: \<open>inp\<close> the bytes of the input, \<open>now\<close> what \<^verbatim>\<open>ctime\<close> gives without its newline. The result is the exit
  status and what is written, writes taken to succeed.\<close>

definition econv :: "ec_opts \<Rightarrow> cstr \<Rightarrow> u8 list \<Rightarrow> (int \<times> u8 list) option" where
  "econv opt now inp = do {
     (rest, eof, fr) \<leftarrow> find_data (mbox opt) inp (replicate 256 0);
     let fr = takeWhile (\<lambda>c. c \<noteq> 0) fr;
     if eof then Some (1, [])
     else if mbox opt \<and> fr = [] then Some (2, [])
     else do {
       let hdr = (if mbox opt then bytes ''From '' @ fr @ [32] @ now @ (if uxmode opt then [10] else [13, 10]) else []);
       Some (0, hdr @ (if uxmode opt then concat (map unix_line (fgets_all 2047 rest)) else rest)) } }"

text \<open>\<open>rd\<close> gives the bytes of a file that can be opened; otherwise the standard input is read.\<close>

definition econv_main :: "(cstr \<Rightarrow> u8 list option) \<Rightarrow> u8 list \<Rightarrow> cstr \<Rightarrow> cstr list \<Rightarrow> (int \<times> u8 list) option" where
  "econv_main rd stdin now args = (
     let opt = ec_options args \<lparr>fnin = None, fnout = None, uxmode = False, mbox = False\<rparr> in
     econv opt now (case fnin opt of None \<Rightarrow> stdin | Some f \<Rightarrow> (case rd f of None \<Rightarrow> stdin | Some bs \<Rightarrow> bs)))"

subsection \<open>Addresses\<close>

lemma extract_address_length:
  assumes "extract_address str addr asize = Some (Some addr')" "asize < length addr"
  shows "length addr' = length addr"
  using assms by (auto simp: extract_address_def Let_def split: if_splits)

lemma extract_address_safe: "asize < length addr \<Longrightarrow> extract_address str addr asize \<noteq> None"
  by (auto simp: extract_address_def Let_def)

lemma find_data_safe: "length fr = 256 \<Longrightarrow> \<exists>rest eof fr'. find_data mb inp fr = Some (rest, eof, fr') \<and> length fr' = 256"
proof (induction mb inp fr rule: find_data.induct)
  case (1 mb inp fr)
  let ?ln = "takeWhile (\<lambda>c. c \<noteq> 0) (take (fgets_size 2047 inp) inp)"
  obtain r where r: "extract_address ?ln fr 255 = Some r" using extract_address_safe [of 255 fr] 1(3) by fastforce
  then have "length (case r of None \<Rightarrow> fr | Some fr \<Rightarrow> fr) = 256"
    using extract_address_length [of ?ln fr 255] 1(3) by (auto split: option.splits)
  then show ?case
    using 1 r by (subst find_data.simps) (auto simp: Let_def)
qed

subsection \<open>Line ends\<close>

fun crlf_to_lf :: "u8 list \<Rightarrow> u8 list" where
  "crlf_to_lf (a # b # xs) = (if a = 13 \<and> b = 10 then 10 # crlf_to_lf xs else a # crlf_to_lf (b # xs))"
| "crlf_to_lf xs = xs"

lemma crlf_to_lf_Cons: "xs = [] \<or> \<not> (a = 13 \<and> hd xs = 10) \<Longrightarrow> crlf_to_lf (a # xs) = a # crlf_to_lf xs"
  by (cases xs) auto

text \<open>Up to a newline the text can be converted line by line.\<close>

lemma crlf_to_lf_line:
  "10 \<notin> set l \<Longrightarrow> crlf_to_lf (l @ 10 # xs) = (if l \<noteq> [] \<and> last l = 13 then butlast l @ [10] else l @ [10]) @ crlf_to_lf xs"
proof (induction l)
  case Nil
  show ?case by (simp add: crlf_to_lf_Cons)
next
  case (Cons a l)
  then show ?case by (cases l) (auto simp: crlf_to_lf_Cons)
qed

lemma crlf_to_lf_id: "10 \<notin> set l \<Longrightarrow> crlf_to_lf l = l"
  by (induction l rule: crlf_to_lf.induct) auto

lemma unix_line_lf:
  assumes "0 \<notin> set l"
  shows "unix_line (l @ [10]) = (if l \<noteq> [] \<and> last l = 13 then butlast l @ [10] else l @ [10])"
proof -
  have t: "takeWhile (\<lambda>c. c \<noteq> 0) (l @ [10]) = l @ [10]" using assms by (auto simp: takeWhile_eq_all_conv)
  show ?thesis
  proof (cases l rule: rev_cases)
    case (snoc l' c)
    then show ?thesis using t by (simp add: unix_line_def Let_def nth_append)
  qed (use t in \<open>simp add: unix_line_def Let_def\<close>)
qed

lemma unix_line_end: "0 \<notin> set l \<Longrightarrow> 10 \<notin> set l \<Longrightarrow> unix_line l = l"
proof -
  assume a: "0 \<notin> set l" "10 \<notin> set l"
  then have "l \<noteq> [] \<Longrightarrow> l ! (length l - 1) \<noteq> 10" by (metis last_conv_nth last_in_set)
  then show ?thesis unfolding unix_line_def Let_def takeWhile_neq [OF a(1)] by (cases "l = []") auto
qed

text \<open>Every line fits the buffer.\<close>

definition short_lines :: "u8 list \<Rightarrow> bool" where
  "short_lines inp \<longleftrightarrow> (\<forall>pre l post. inp = pre @ l @ post \<and> 10 \<notin> set l \<longrightarrow> length l < 2046)"

lemma fgets_line: "10 \<notin> set l \<Longrightarrow> length l < 2046 \<Longrightarrow> fgets_size 2047 (l @ 10 # xs) = Suc (length l)"
  by (simp add: fgets_size_def takeWhile_stop takeWhile_neq)

lemma short_lines_tl: "short_lines (l @ xs) \<Longrightarrow> short_lines xs"
  unfolding short_lines_def by (metis append.assoc)

lemma unix_lines:
  assumes "0 \<notin> set inp" "short_lines inp"
  shows "concat (map unix_line (fgets_all 2047 inp)) = crlf_to_lf inp"
  using assms
proof (induction inp rule: length_induct)
  case (1 inp)
  show ?case
  proof (cases "10 \<in> set inp")
    case True
    define l where "l = takeWhile (\<lambda>c. c \<noteq> 10) inp"
    obtain xs where inp: "inp = l @ 10 # xs" using takeWhile_split [OF True] unfolding l_def by blast
    have l: "10 \<notin> set l" using set_takeWhileD unfolding l_def by fastforce
    have "length l < 2046" using 1(3) inp l unfolding short_lines_def by (metis append_Nil)
    then have "fgets_all 2047 inp = (l @ [10]) # fgets_all 2047 xs"
      using fgets_line [OF l, of xs] inp by (subst fgets_all.simps) simp
    moreover have "concat (map unix_line (fgets_all 2047 xs)) = crlf_to_lf xs"
      using 1(1) [rule_format, of xs] 1(2,3) inp short_lines_tl [of "l @ [10]" xs] by simp
    ultimately show ?thesis
      using unix_line_lf [of l] crlf_to_lf_line [OF l, of xs] 1(2) inp by simp
  next
    case False
    then have "length inp < 2046" using 1(3) unfolding short_lines_def by (metis append_Nil append_Nil2)
    then have "fgets_size 2047 inp = Suc (length inp) \<or> fgets_size 2047 inp = 2046 \<and> length inp \<le> 2046"
      unfolding fgets_size_def takeWhile_neq [OF False] by auto
    then have "fgets_all 2047 inp = (if inp = [] then [] else [inp])"
      by (subst fgets_all.simps) (auto simp: fgets_all.simps [of _ "[]"])
    then show ?thesis using unix_line_end [OF 1(2) False] crlf_to_lf_id [OF False] by simp
  qed
qed

text \<open>The bytes of a line that does not fit keep their carriage return when it is the last byte of a full buffer.\<close>

lemma long_line_keeps_cr:
  "concat (map unix_line (fgets_all 2047 (replicate 2045 97 @ [13, 10]))) = replicate 2045 97 @ [13, 10]"
proof -
  have s: "fgets_size 2047 (replicate 2045 97 @ [13, 10 :: u8]) = 2046"
    using takeWhile_stop [of "\<lambda>c. c \<noteq> 10" 10 "replicate 2045 97 @ [13 :: u8]" "[]"]
      takeWhile_neq [of 10 "replicate 2045 97 @ [13 :: u8]"] by (simp add: fgets_size_def)
  have t: "take 2046 (replicate 2045 97 @ [13, 10 :: u8]) = replicate 2045 97 @ [13]" by simp
  have d: "drop 2046 (replicate 2045 97 @ [13, 10 :: u8]) = [10]" by simp
  have "fgets_all 2047 [10] = [[10 :: u8]]" by (simp add: fgets_all.simps fgets_size_def)
  then have "fgets_all 2047 (replicate 2045 97 @ [13, 10 :: u8]) = [replicate 2045 97 @ [13], [10]]"
    using s t d by (subst fgets_all.simps) simp
  moreover have "unix_line [10] = [10]" using unix_line_lf [of "[]"] by simp
  ultimately show ?thesis using unix_line_end [of "replicate 2045 97 @ [13]"] by simp
qed

subsection \<open>The whole conversion\<close>

lemma find_data_lines:
  assumes "\<forall>l \<in> set ls. 10 \<notin> set l \<and> length l < 2046 \<and> 0 \<notin> set l \<and> take 13 (l @ [10]) \<noteq> TAG"
    and "10 \<notin> set t" "0 \<notin> set t" "length t < 2033"
  shows "find_data False (concat (map (\<lambda>l. l @ [10]) ls) @ TAG @ t @ 10 # rest) fr = Some (rest, False, fr)"
  using assms(1)
proof (induction ls)
  case Nil
  have tag: "10 \<notin> set (TAG @ t)" "0 \<notin> set (TAG @ t)" "length (TAG @ t) < 2046" "length TAG = 13"
    using assms(2-4) by (auto simp: TAG_def bytes_def)
  have nul: "takeWhile (\<lambda>c. c \<noteq> 0) (TAG @ t @ [10]) = TAG @ t @ [10]" using tag(2) by (auto simp: takeWhile_eq_all_conv)
  have "fgets_size 2047 (TAG @ t @ 10 # rest) = Suc (length (TAG @ t))" using fgets_line [OF tag(1,3), of rest] by simp
  then show ?case
    using nul tag(4) by (subst find_data.simps) (auto simp: Let_def fgets_eof_def TAG_def bytes_def)
next
  case (Cons l ls)
  let ?rest = "concat (map (\<lambda>l. l @ [10]) ls) @ TAG @ t @ 10 # rest"
  have l: "10 \<notin> set l" "length l < 2046" "0 \<notin> set l" "take 13 (l @ [10]) \<noteq> TAG" using Cons.prems by auto
  have nul: "takeWhile (\<lambda>c. c \<noteq> 0) (l @ [10]) = l @ [10]" using l(3) by (auto simp: takeWhile_eq_all_conv)
  have "fgets_size 2047 (l @ 10 # ?rest) = Suc (length l)" by (rule fgets_line [OF l(1,2)])
  moreover have "length TAG = 13" by (simp add: TAG_def bytes_def)
  ultimately have "find_data False (l @ 10 # ?rest) fr = find_data False ?rest fr"
    using nul l(4) by (subst find_data.simps) (simp add: Let_def)
  then show ?case using Cons by simp
qed



end
