(* ===== verification/SLoad.thy ===== *)
theory SLoad
  imports CStr
begin

text \<open>
  \<^verbatim>\<open>sload.c\<close>: a scheduler load generator. Modelled are the random numbers and the jitter, the options, the
  task table, the reports and the passes of a child; the clock and what \<^verbatim>\<open>getopt\<close> yields are parameters.
  The calibration in floating point is left out.
\<close>

unbundle bit_operations_syntax

subsection \<open>Jitter\<close>

text \<open>The static \<open>next\<close> is the state.\<close>

definition myrand :: "u64 option \<Rightarrow> u64 \<Rightarrow> u64" where
  "myrand sval nxt = (case sval of Some s \<Rightarrow> s | None \<Rightarrow> nxt * 1103515245 + 12345)"

lemma unat_drop1: "unat (drop_bit 1 (v::u64)) = unat v div 2"
  by (simp add: drop_bit_eq_div unat_div)

function ilog2 :: "u64 \<Rightarrow> nat" where
  "ilog2 v = (if v \<noteq> 0 then Suc (ilog2 (drop_bit 1 v)) else 0)"
  by pat_completeness auto
termination
proof (relation "measure unat")
  fix v :: u64 assume "v \<noteq> 0"
  then have "0 < unat v" by (simp add: unat_gt_0)
  then show "(drop_bit 1 v, v) \<in> measure unat" using unat_drop1 [of v] by simp
qed simp

declare ilog2.simps [simp del]

lemma ilog2_0 [simp]: "ilog2 0 = 0"
  by (simp add: ilog2.simps)

text \<open>A shift by 64 or more and a division by zero fault. The shift count is computed in \<^verbatim>\<open>unsigned long\<close>.\<close>

definition jval :: "u64 \<Rightarrow> u64 \<Rightarrow> u64 \<Rightarrow> (u64 \<times> u64) option" where
  "jval v jitter nxt = (
     if jitter > 0 then
       let b = (if v > jitter then v - jitter else 0);
           nxt = myrand None nxt;
           sh = (8 * 8 - of_nat (ilog2 (2 * jitter)) - 1 :: u64) in
       if 64 \<le> sh \<or> 2 * jitter = 0 then None
       else Some (b + drop_bit (unat sh) nxt mod (2 * jitter), nxt)
     else Some (v, nxt))"

lemma ilog2_bounds: "unat v < 2 ^ ilog2 v \<and> (v \<noteq> 0 \<longrightarrow> 2 ^ (ilog2 v - 1) \<le> unat v)"
proof (induction v rule: ilog2.induct)
  case (1 v)
  show ?case
  proof (cases "v = 0")
    case False
    let ?h = "drop_bit 1 v"
    have IH: "unat v div 2 < 2 ^ ilog2 ?h" "?h \<noteq> 0 \<longrightarrow> 2 ^ (ilog2 ?h - 1) \<le> unat v div 2"
      using 1 [OF False, unfolded unat_drop1] by blast+
    have e: "ilog2 v = Suc (ilog2 ?h)" using False by (subst ilog2.simps) simp
    have "2 ^ ilog2 ?h \<le> unat v"
    proof (cases "?h = 0")
      case True
      then show ?thesis using False by (simp add: ilog2.simps Suc_le_eq unat_gt_0)
    next
      case F: False
      then have "ilog2 ?h \<noteq> 0" by (simp add: ilog2.simps)
      then have "2 ^ ilog2 ?h = 2 * 2 ^ (ilog2 ?h - 1)" by (metis Suc_diff_1 not_gr_zero power_Suc)
      also have "\<dots> \<le> 2 * (unat v div 2)" using IH(2) F by simp
      finally show ?thesis by linarith
    qed
    then show ?thesis using IH(1) by (simp add: e)
  qed (simp add: ilog2.simps)
qed

lemma ilog2_le:
  assumes "unat v < 2 ^ m" shows "ilog2 v \<le> m"
proof (rule ccontr)
  assume "\<not> ilog2 v \<le> m"
  then have "m \<le> ilog2 v - 1" "v \<noteq> 0" by (auto intro: ccontr)
  then have "2 ^ m \<le> (2 ^ (ilog2 v - 1) :: nat)" by (intro power_increasing) simp_all
  also have "\<dots> \<le> unat v" using ilog2_bounds [of v] \<open>v \<noteq> 0\<close> by simp
  finally show False using assms by simp
qed

lemma jval_ok:
  assumes "0 < jitter" "unat jitter < 2 ^ 62"
  shows "\<exists>r nxt'. jval v jitter nxt = Some ((if v > jitter then v - jitter else 0) + r, nxt') \<and> unat r < 2 * unat jitter"
proof -
  have dbl: "unat (2 * jitter) = 2 * unat jitter" using assms(2) by (simp add: unat_word_ariths(2))
  have pos: "2 * jitter \<noteq> 0" using dbl assms(1) by (metis mult_eq_0_iff unat_0 unat_gt_0 zero_neq_numeral less_irrefl)
  have l: "ilog2 (2 * jitter) \<le> 63" using ilog2_le [of "2 * jitter" 63] dbl assms(2) by simp
  define sh where "sh = (8 * 8 - of_nat (ilog2 (2 * jitter)) - 1 :: u64)"
  have "sh = of_nat (63 - ilog2 (2 * jitter))" using l by (simp add: sh_def of_nat_diff)
  then have "unat sh = 63 - ilog2 (2 * jitter)" by (simp only: unat_of_nat) simp
  then have "\<not> 64 \<le> sh" by (simp add: word_le_nat_alt)
  moreover have "unat (x mod (2 * jitter)) < 2 * unat jitter" for x
    using assms(1) by (simp add: unat_mod dbl word_less_nat_alt)
  ultimately show ?thesis using assms(1) pos unfolding jval_def sh_def Let_def by auto
qed



subsection \<open>The task table\<close>

record sltask =
  name :: cstr
  nice :: int
  bus :: u64
  sus :: u64
  wus :: u64
  jbus :: u64
  jsus :: u64
  jwus :: u64
  count :: int

text \<open>The options as \<^verbatim>\<open>getopt\<close> yields them.\<close>

datatype slopt = OptT cstr | Optb cstr | Opts cstr | Optw cstr | Optn cstr | OptN cstr | OptR cstr | OptB cstr | OptD | Opth

record slmain =
  tasks :: "sltask list"
  n :: int
  runfor :: int
  cpu_bind :: int
  debug :: bool

definition no_task :: sltask where
  "no_task = \<lparr>name = [], nice = 0, bus = 0, sus = 0, wus = 0, jbus = 0, jsus = 0, jwus = 0, count = 0\<rparr>"

text \<open>\<^verbatim>\<open>tasks[n].f = v\<close>; an index outside the table is a fault. \<open>Inl\<close> is an exit status.\<close>

definition upd_task :: "(sltask \<Rightarrow> sltask) \<Rightarrow> slmain \<Rightarrow> (int + slmain) option" where
  "upd_task f s = (if 0 \<le> n s \<and> nat (n s) < length (tasks s)
     then Some (Inr (s\<lparr>tasks := (tasks s)[nat (n s) := f (tasks s ! nat (n s))]\<rparr>)) else None)"

text \<open>\<^verbatim>\<open>next_task\<close> allocates the arrays of the finished task; \<open>alloc\<close> says whether this succeeds.\<close>

definition next_task :: "(int \<Rightarrow> bool) \<Rightarrow> slmain \<Rightarrow> (int + slmain) option" where
  "next_task alloc s = (
     if 0 \<le> n s then
       if nat (n s) < length (tasks s) then
         if alloc (count (tasks s ! nat (n s))) then Some (Inr (s\<lparr>n := n s + 1\<rparr>)) else Some (Inl 1)
       else None
     else Some (Inr (s\<lparr>n := n s + 1\<rparr>)))"

text \<open>The number behind the first colon, if there is one.\<close>

definition after_colon :: "cstr \<Rightarrow> int option" where
  "after_colon s = (if 58 \<in> set s then Some (atol (tl (dropWhile (\<lambda>c. c \<noteq> 58) s))) else None)"

definition num_jit :: "((u64 \<Rightarrow> u64) \<Rightarrow> sltask \<Rightarrow> sltask) \<Rightarrow> ((u64 \<Rightarrow> u64) \<Rightarrow> sltask \<Rightarrow> sltask) \<Rightarrow> cstr \<Rightarrow> sltask \<Rightarrow> sltask" where
  "num_jit f jf arg t = (case after_colon arg of
      None \<Rightarrow> f (\<lambda>_. of_int (atol arg)) t
    | Some j \<Rightarrow> jf (\<lambda>_. of_int j) (f (\<lambda>_. of_int (atol arg)) t))"

fun sl_option :: "(int \<Rightarrow> bool) \<Rightarrow> slopt \<Rightarrow> slmain \<Rightarrow> (int + slmain) option" where
  "sl_option alloc (OptT arg) s = (case next_task alloc s of
      Some (Inr s) \<Rightarrow> upd_task (\<lambda>t. t\<lparr>name := arg, count := 1\<rparr>) s | r \<Rightarrow> r)"
| "sl_option alloc (Optb arg) s = upd_task (num_jit bus_update jbus_update arg) s"
| "sl_option alloc (Opts arg) s = upd_task (num_jit sus_update jsus_update arg) s"
| "sl_option alloc (Optw arg) s = upd_task (num_jit wus_update jwus_update arg) s"
| "sl_option alloc (Optn arg) s = upd_task (\<lambda>t. t\<lparr>nice := atoi arg\<rparr>) s"
| "sl_option alloc (OptN arg) s = upd_task (\<lambda>t. t\<lparr>count := atoi arg\<rparr>) s"
| "sl_option alloc (OptR arg) s = Some (Inr (s\<lparr>runfor := atoi arg\<rparr>))"
| "sl_option alloc (OptB arg) s = Some (Inr (s\<lparr>cpu_bind := sint (of_int (atol arg) :: u32)\<rparr>))"
| "sl_option alloc OptD s = Some (Inr (s\<lparr>debug := True\<rparr>))"
| "sl_option alloc Opth s = Some (Inl 1)"

fun sl_options :: "(int \<Rightarrow> bool) \<Rightarrow> slopt list \<Rightarrow> slmain \<Rightarrow> (int + slmain) option" where
  "sl_options alloc [] s = (if n s < 0 then Some (Inl 1) else next_task alloc s)"
| "sl_options alloc (opt # opts) s = (case sl_option alloc opt s of
      Some (Inr s) \<Rightarrow> sl_options alloc opts s | r \<Rightarrow> r)"

text \<open>The table has \<open>ac\<close> cleared entries.\<close>

definition sl_parse :: "(int \<Rightarrow> bool) \<Rightarrow> nat \<Rightarrow> slopt list \<Rightarrow> (int + slmain) option" where
  "sl_parse alloc ac opts = sl_options alloc opts
     \<lparr>tasks = replicate ac no_task, n = -1, runfor = 0, cpu_bind = -1, debug = False\<rparr>"

subsection \<open>The child\<close>

record slreport =
  missd :: u64
  time :: u64

text \<open>One pass of a child, with \<open>ts\<close> and \<open>tn\<close> what the clock gives at its two readings: the report, the random
  state, and the sleeps it asks for (\<^verbatim>\<open>usleep\<close> takes 32 bits).\<close>

definition child_pass :: "sltask \<Rightarrow> u64 \<Rightarrow> u64 \<Rightarrow> slreport \<times> u64 \<Rightarrow> (slreport \<times> u64 \<times> u32 list) option" where
  "child_pass t ts tn = (\<lambda>(rep, nxt). do {
     (rep, nxt) \<leftarrow> (if bus t \<noteq> 0 then do {
          (b, nxt) \<leftarrow> jval (bus t) (jbus t) nxt; Some (rep\<lparr>time := time rep + b\<rparr>, nxt) }
        else Some (rep, nxt));
     (sl, nxt) \<leftarrow> (if sus t \<noteq> 0 then do {
          (u, nxt) \<leftarrow> jval (sus t) (jsus t) nxt; Some ([ucast u], nxt) }
        else Some ([], nxt));
     if wus t \<noteq> 0 then do {
       (w, nxt) \<leftarrow> jval (wus t) (jwus t) nxt;
       if ts + w > tn then Some (rep, nxt, sl @ [ucast (ts + w - tn)])
       else Some (rep\<lparr>missd := missd rep + 1\<rparr>, nxt, sl) }
     else Some (rep, nxt, sl) })"

text \<open>The passes until \<open>stop_test\<close> is set, one for each pair of clock readings.\<close>

fun child_passes :: "sltask \<Rightarrow> (u64 \<times> u64) list \<Rightarrow> slreport \<times> u64 \<Rightarrow> (slreport \<times> u64) option" where
  "child_passes t [] s = Some s"
| "child_passes t ((ts, tn) # clk) s = do {
     (rep, nxt, sl) \<leftarrow> child_pass t ts tn s;
     child_passes t clk (rep, nxt) }"

text \<open>The parent adds up the burnt times.\<close>

definition sl_total :: "slreport list \<Rightarrow> u64" where
  "sl_total reps = foldl (\<lambda>tot rep. tot + time rep) 0 reps"

subsection \<open>Options out of order\<close>

fun needs_task :: "slopt \<Rightarrow> bool" where
  "needs_task (Optb a) = True"
| "needs_task (Opts a) = True"
| "needs_task (Optw a) = True"
| "needs_task (Optn a) = True"
| "needs_task (OptN a) = True"
| "needs_task _ = False"

fun is_T :: "slopt \<Rightarrow> bool" where
  "is_T (OptT a) = True"
| "is_T _ = False"

lemma sl_option_ok:
  assumes "length (tasks s) = ac" "-1 \<le> n s" "n s + (if is_T opt then 1 else 0) < int ac" "needs_task opt \<longrightarrow> 0 \<le> n s"
  shows "\<exists>r. sl_option alloc opt s = Some r \<and> (\<forall>s'. r = Inr s' \<longrightarrow>
    length (tasks s') = ac \<and> n s' = n s + (if is_T opt then 1 else 0))"
  using assms by (cases opt) (auto simp: upd_task_def next_task_def)

lemma sl_options_ok:
  assumes "length (tasks s) = ac" "-1 \<le> n s" "n s + int (length (filter is_T opts)) < int ac"
    and "0 \<le> n s \<or> (\<forall>pre opt post. opts = pre @ opt # post \<and> needs_task opt \<longrightarrow> (\<exists>x \<in> set pre. is_T x))"
  shows "sl_options alloc opts s \<noteq> None"
  using assms
proof (induction opts arbitrary: s)
  case Nil
  then show ?case by (auto simp: next_task_def)
next
  case (Cons opt opts)
  have need: "needs_task opt \<longrightarrow> 0 \<le> n s" using Cons.prems(4) by fastforce
  have "n s + (if is_T opt then 1 else 0) < int ac" using Cons.prems(3) by (auto split: if_splits)
  then obtain r where r: "sl_option alloc opt s = Some r" "\<forall>s'. r = Inr s' \<longrightarrow>
      length (tasks s') = ac \<and> n s' = n s + (if is_T opt then 1 else 0)"
    using sl_option_ok [OF Cons.prems(1,2) _ need] by blast
  show ?case
  proof (cases r)
    case (Inr s')
    have "0 \<le> n s' \<or> (\<forall>pre opt' post. opts = pre @ opt' # post \<and> needs_task opt' \<longrightarrow> (\<exists>x \<in> set pre. is_T x))"
    proof (cases "is_T opt \<or> 0 \<le> n s")
      case True
      then show ?thesis using r(2) Inr Cons.prems(2) by auto
    next
      case False
      then have "\<exists>x \<in> set pre. is_T x" if "opts = pre @ opt' # post" "needs_task opt'" for pre opt' post
        using Cons.prems(4) that by (metis append_Cons set_ConsD)
      then show ?thesis by blast
    qed
    moreover have "n s' + int (length (filter is_T opts)) < int ac" "length (tasks s') = ac" "-1 \<le> n s'"
      using r(2) Inr Cons.prems(2,3) by auto
    ultimately show ?thesis using Cons.IH [of s'] r(1) Inr by simp
  qed (use r(1) in simp)
qed

text \<open>The option loop stays inside the task table of \<open>ac\<close> entries, provided that there are fewer
  \<^verbatim>\<open>-T\<close> options than arguments and that every option that sets a field of a task comes after the first \<^verbatim>\<open>-T\<close>; an
  option list that begins with such a field writes \<^verbatim>\<open>tasks[-1]\<close>.\<close>

theorem sload_options_safe:
  assumes "length (filter is_T opts) \<le> ac"
  shows "((\<forall>pre opt post. opts = pre @ opt # post \<and> needs_task opt \<longrightarrow> (\<exists>x \<in> set pre. is_T x))
      \<longrightarrow> sl_parse alloc ac opts \<noteq> None)
    \<and> (opts \<noteq> [] \<and> needs_task (hd opts) \<longrightarrow> sl_parse alloc ac opts = None)"
proof (intro conjI impI)
  assume "\<forall>pre opt post. opts = pre @ opt # post \<and> needs_task opt \<longrightarrow> (\<exists>x \<in> set pre. is_T x)"
  then show "sl_parse alloc ac opts \<noteq> None"
    unfolding sl_parse_def using assms by (intro sl_options_ok [of _ ac]) simp_all
next
  assume "opts \<noteq> [] \<and> needs_task (hd opts)"
  then obtain opt rest where "opts = opt # rest" "needs_task opt" by (cases opts) auto
  then show "sl_parse alloc ac opts = None" by (cases opt) (simp_all add: sl_parse_def upd_task_def)
qed

end
