(* ===== verification/SymAddr.thy ===== *)
theory SymAddr
  imports CStr
begin

text \<open>
  The symbol look-ups \<^verbatim>\<open>ka2n.c\<close> (in the kernel's symbol table) and \<^verbatim>\<open>nma2n.c\<close> (in the output of \<^verbatim>\<open>nm\<close>). Both scan all lines
  and keep the entry with the greatest address that is not above the one asked for. A file is the list of its bytes.
\<close>

subsection \<open>ka2n\<close>

text \<open>The state of the scan is \<open>saddr\<close> and \<open>csym\<close>.\<close>

definition ka_line :: "u64 \<Rightarrow> u8 list \<Rightarrow> u64 \<times> cstr \<Rightarrow> u64 \<times> cstr" where
  "ka_line addr ln = (\<lambda>(saddr, csym).
     let caddr = strtoull 16 (c_string ln) in
     if caddr \<le> addr \<and> caddr > saddr then (caddr, c_string ln) else (saddr, csym))"

text \<open>The result and what is printed.\<close>

definition ka_find_symbol :: "u8 list option \<Rightarrow> u64 \<Rightarrow> int \<times> cstr" where
  "ka_find_symbol ksyms addr = (case ksyms of None \<Rightarrow> (-1, [])
     | Some inp \<Rightarrow> let (saddr, csym) = fold (ka_line addr) (fgets_all 1024 inp) (0, []) in
         (0, if saddr \<noteq> 0 then csym else []))"

definition ka2n_main :: "u8 list option \<Rightarrow> cstr list \<Rightarrow> cstr" where
  "ka2n_main ksyms args = concat (map (\<lambda>a. snd (ka_find_symbol ksyms (strtoull 16 a))) args)"

subsection \<open>nma2n\<close>

definition nm_tokens :: "cstr \<Rightarrow> (cstr \<times> cstr \<times> cstr) option" where
  "nm_tokens ln = (
     if take 1 ln = [] \<or> hex_val (hd ln) = None then None
     else do {
       (taddr, aux) \<leftarrow> strtok_r [32, 9, 13, 10] ln;
       (ttype, aux) \<leftarrow> strtok_r [32, 9, 13, 10] aux;
       (tsym, aux) \<leftarrow> strtok_r [9, 13, 10] aux;
       Some (taddr, ttype, tsym) })"

text \<open>\<open>snprintf\<close> into \<open>n\<close> bytes keeps \<open>n - 1\<close> of them; \<open>no_offset\<close> is \<^verbatim>\<open>SYMOUT_NO_OFFSET\<close>.\<close>

definition nm_text :: "nat \<Rightarrow> bool \<Rightarrow> cstr \<Rightarrow> u64 \<Rightarrow> u64 \<Rightarrow> cstr" where
  "nm_text n no_offset tsym caddr addr = take (n - 1) (
     if no_offset then tsym else tsym @ bytes '' (+ '' @ dec_digits (unat (addr - caddr)) @ bytes '')'')"

definition nm_line :: "nat \<Rightarrow> bool \<Rightarrow> u64 \<Rightarrow> u8 list \<Rightarrow> u64 \<times> cstr \<Rightarrow> u64 \<times> cstr" where
  "nm_line n no_offset addr ln = (\<lambda>(saddr, csym). case nm_tokens (c_string ln) of None \<Rightarrow> (saddr, csym)
     | Some (taddr, ttype, tsym) \<Rightarrow> let caddr = strtoull 16 taddr in
         if caddr \<le> addr \<and> caddr > saddr then (caddr, nm_text n no_offset tsym caddr addr) else (saddr, csym))"

definition nm_find_symbol :: "u8 list \<Rightarrow> u64 \<Rightarrow> cstr \<Rightarrow> nat \<Rightarrow> bool \<Rightarrow> bool \<times> cstr" where
  "nm_find_symbol nm addr csym n no_offset = (
     let (saddr, csym) = fold (nm_line n no_offset addr) (fgets_all 1024 nm) (0, csym) in (saddr \<noteq> 0, csym))"

text \<open>The options as \<^verbatim>\<open>getopt\<close> yields them.\<close>

datatype nm_opt = Optf cstr | Optd cstr | OptO | Opth

record nm_opts =
  nmfile :: "cstr option"
  diff :: int
  no_offset :: bool

fun nm_options :: "nm_opt list \<Rightarrow> nm_opts \<Rightarrow> nm_opts option" where
  "nm_options [] opt = Some opt"
| "nm_options (Optf arg # as) opt = nm_options as (opt\<lparr>nmfile := Some arg\<rparr>)"
| "nm_options (Optd arg # as) opt = nm_options as (opt\<lparr>diff := strtol 16 arg\<rparr>)"
| "nm_options (OptO # as) opt = nm_options as (opt\<lparr>no_offset := True\<rparr>)"
| "nm_options (Opth # as) opt = None"

fun nm_addrs :: "u8 list \<Rightarrow> nm_opts \<Rightarrow> cstr \<Rightarrow> cstr list \<Rightarrow> cstr" where
  "nm_addrs nm opt csym [] = []"
| "nm_addrs nm opt csym (a # as) = (
     let addr = strtoull 16 a + of_int (diff opt); (found, csym) = nm_find_symbol nm addr csym 512 (no_offset opt) in
     bytes ''0x'' @ hex_digits (unat addr) @ [9] @ (if found then csym else bytes ''????'') @ [10] @ nm_addrs nm opt csym as)"

text \<open>\<open>rd\<close> gives the contents of a file that can be opened, \<open>csym\<close> what the stack holds; the result is the exit status and what is
  printed.\<close>

definition nma2n_main :: "(cstr \<Rightarrow> u8 list option) \<Rightarrow> cstr \<Rightarrow> nm_opt list \<Rightarrow> cstr list \<Rightarrow> int \<times> cstr" where
  "nma2n_main rd csym opts args = (case nm_options opts \<lparr>nmfile = None, diff = 0, no_offset = False\<rparr> of
       None \<Rightarrow> (1, [])
     | Some opt \<Rightarrow> (case nmfile opt of None \<Rightarrow> (1, [])
         | Some path \<Rightarrow> if args = [] then (1, [])
             else (case rd path of None \<Rightarrow> (2, []) | Some nm \<Rightarrow> (0, nm_addrs nm opt csym args))))"

subsection \<open>The scan\<close>

text \<open>What a scan has to find among the lines \<open>ls\<close>, where \<open>entry l\<close> is the address of a line and its text for the address asked
  for: nothing when no address from 1 to \<open>addr\<close> is there, otherwise the first line with the greatest of them.\<close>

definition nearest :: "('l \<Rightarrow> (u64 \<times> (u64 \<Rightarrow> 'r)) option) \<Rightarrow> u64 \<Rightarrow> 'l list \<Rightarrow> (u64 \<times> 'r) option \<Rightarrow> bool" where
  "nearest entry addr ls res \<longleftrightarrow> (case res of
      None \<Rightarrow> (\<forall>l c f. l \<in> set ls \<and> entry l = Some (c, f) \<and> c \<le> addr \<longrightarrow> c = 0)
    | Some (s, r) \<Rightarrow> 0 < s \<and> s \<le> addr
        \<and> (\<forall>l c f. l \<in> set ls \<and> entry l = Some (c, f) \<and> c \<le> addr \<longrightarrow> c \<le> s)
        \<and> (\<exists>pre l post f. ls = pre @ l # post \<and> entry l = Some (s, f) \<and> r = f addr
            \<and> (\<forall>l' c f'. l' \<in> set pre \<and> entry l' = Some (c, f') \<and> c \<le> addr \<longrightarrow> c < s)))"

locale nearest_scan =
  fixes step :: "u64 \<Rightarrow> 'l \<Rightarrow> u64 \<times> 'r \<Rightarrow> u64 \<times> 'r"
    and entry :: "'l \<Rightarrow> (u64 \<times> (u64 \<Rightarrow> 'r)) option"
  assumes step_entry: "step addr l (s, r) = (case entry l of None \<Rightarrow> (s, r)
      | Some (c, f) \<Rightarrow> if c \<le> addr \<and> s < c then (c, f addr) else (s, r))"
begin

lemma nearest_snoc:
  assumes "nearest entry addr ls (if s = 0 then None else Some (s, r))" "step addr l (s, r) = (s', r')"
  shows "nearest entry addr (ls @ [l]) (if s' = 0 then None else Some (s', r'))"
proof (cases "\<exists>c f. entry l = Some (c, f) \<and> c \<le> addr \<and> s < c")
  case True
  then obtain c f where c: "entry l = Some (c, f)" "c \<le> addr" "s < c" by auto
  then have s': "s' = c" "r' = f addr" using assms(2) by (simp_all add: step_entry)
  have old: "c' \<le> s" if "l' \<in> set ls" "entry l' = Some (c', f')" "c' \<le> addr" for l' c' f'
    using assms(1) that by (auto simp: nearest_def split: if_splits)
  then have "\<exists>pre l1 post f1. ls @ [l] = pre @ l1 # post \<and> entry l1 = Some (c, f1) \<and> f addr = f1 addr
      \<and> (\<forall>l' c' f'. l' \<in> set pre \<and> entry l' = Some (c', f') \<and> c' \<le> addr \<longrightarrow> c' < c)"
    using c by (intro exI [of _ ls] exI [of _ l] exI [of _ "[]"] exI [of _ f]) (auto intro: le_less_trans)
  moreover have "c' \<le> c" if "l' \<in> set (ls @ [l])" "entry l' = Some (c', f')" "c' \<le> addr" for l' c' f'
    using that old [of l' c' f'] c by (auto intro: le_less_trans less_imp_le)
  then have "\<forall>l' c' f'. l' \<in> set (ls @ [l]) \<and> entry l' = Some (c', f') \<and> c' \<le> addr \<longrightarrow> c' \<le> c" by blast
  moreover have nz: "c \<noteq> 0" using c(3) by auto
  ultimately show ?thesis using c(2) unfolding nearest_def s' if_not_P [OF nz] by (simp add: word_neq_0_conv)
next
  case False
  then have s': "s' = s" "r' = r" using assms(2) by (auto simp: step_entry split: option.splits if_splits)
  have new: "c \<le> s" if "entry l = Some (c, f)" "c \<le> addr" for c f using False that by (auto simp: not_less)
  show ?thesis
  proof (cases "s = 0")
    case True
    then show ?thesis using assms(1) new s' by (auto simp: nearest_def)
  next
    case s: False
    then obtain pre l1 post f where "ls = pre @ l1 # post" "entry l1 = Some (s, f)" "r = f addr"
      "\<forall>l' c f'. l' \<in> set pre \<and> entry l' = Some (c, f') \<and> c \<le> addr \<longrightarrow> c < s"
      using assms(1) by (auto simp: nearest_def)
    then have "\<exists>pre l1 post f. ls @ [l] = pre @ l1 # post \<and> entry l1 = Some (s, f) \<and> r = f addr
        \<and> (\<forall>l' c f'. l' \<in> set pre \<and> entry l' = Some (c, f') \<and> c \<le> addr \<longrightarrow> c < s)"
      by (intro exI [of _ pre] exI [of _ l1] exI [of _ "post @ [l]"] exI [of _ f]) simp
    moreover have "\<forall>l' c f. l' \<in> set ls \<and> entry l' = Some (c, f) \<and> c \<le> addr \<longrightarrow> c \<le> s"
      using assms(1) [unfolded if_not_P [OF s] nearest_def option.case prod.case] by blast
    then have "\<forall>l' c f. l' \<in> set (ls @ [l]) \<and> entry l' = Some (c, f) \<and> c \<le> addr \<longrightarrow> c \<le> s" using new by auto
    moreover have "0 < s" "s \<le> addr" using assms(1) [unfolded if_not_P [OF s]] by (simp_all add: nearest_def)
    ultimately show ?thesis unfolding s' nearest_def if_not_P [OF s] by simp
  qed
qed

lemma scan_nearest:
  "fold (step addr) ls (0, r0) = (s, r) \<Longrightarrow> nearest entry addr ls (if s = 0 then None else Some (s, r))"
proof (induction ls arbitrary: s r rule: rev_induct)
  case Nil
  then show ?case by (simp add: nearest_def)
next
  case (snoc l ls)
  then show ?case using nearest_snoc by (cases "fold (step addr) ls (0, r0)") auto
qed

end

definition ka_entry :: "u8 list \<Rightarrow> (u64 \<times> (u64 \<Rightarrow> cstr)) option" where
  "ka_entry ln = Some (strtoull 16 (c_string ln), \<lambda>_. c_string ln)"

definition nm_entry :: "nat \<Rightarrow> bool \<Rightarrow> u8 list \<Rightarrow> (u64 \<times> (u64 \<Rightarrow> cstr)) option" where
  "nm_entry n no_off ln = (case nm_tokens (c_string ln) of None \<Rightarrow> None
     | Some (taddr, ttype, tsym) \<Rightarrow> Some (strtoull 16 taddr, nm_text n no_off tsym (strtoull 16 taddr)))"

interpretation ka: nearest_scan ka_line ka_entry
  by unfold_locales (simp add: ka_line_def ka_entry_def Let_def)

interpretation nm: nearest_scan "nm_line n no_off" "nm_entry n no_off" for n no_off
  by unfold_locales (simp add: nm_line_def nm_entry_def Let_def split: option.split prod.split)

subsection \<open>Properties\<close>

text \<open>C31. Both programs find the nearest symbol: among all lines of the table the first one with the greatest address
  that is positive and not above the one asked for, and nothing exactly if there is none; \<^verbatim>\<open>nma2n\<close> skips the lines that are
  not an address, a type and a name.\<close>

theorem symbols_nearest:
  "nearest ka_entry addr (fgets_all 1024 inp)
      (if snd (ka_find_symbol (Some inp) addr) = [] then None
       else Some (strtoull 16 (snd (ka_find_symbol (Some inp) addr)), snd (ka_find_symbol (Some inp) addr)))
    \<and> (\<exists>s. nearest (nm_entry n no_off) addr (fgets_all 1024 inp)
      (if fst (nm_find_symbol inp addr csym n no_off) then Some (s, snd (nm_find_symbol inp addr csym n no_off)) else None))"
proof
  obtain s r where f: "fold (ka_line addr) (fgets_all 1024 inp) (0, []) = (s, r)" by (cases "fold (ka_line addr) (fgets_all 1024 inp) (0, [])")
  note N = ka.scan_nearest [OF f]
  have "s = strtoull 16 r \<and> r \<noteq> []" if nz: "s \<noteq> 0"
  proof -
    obtain l where "ka_entry l = Some (s, \<lambda>_. c_string l)" "r = c_string l"
      using N [unfolded if_not_P [OF nz]] by (auto simp: nearest_def ka_entry_def)
    moreover have "strtoull 16 [] = 0" by (simp add: strtoull_def strtol_digits_def)
    ultimately show ?thesis using nz by (auto simp: ka_entry_def)
  qed
  then show "nearest ka_entry addr (fgets_all 1024 inp)
      (if snd (ka_find_symbol (Some inp) addr) = [] then None
       else Some (strtoull 16 (snd (ka_find_symbol (Some inp) addr)), snd (ka_find_symbol (Some inp) addr)))"
    using N f by (auto simp: ka_find_symbol_def split: if_splits)
next
  obtain s r where f: "fold (nm_line n no_off addr) (fgets_all 1024 inp) (0, csym) = (s, r)"
    by (cases "fold (nm_line n no_off addr) (fgets_all 1024 inp) (0, csym)")
  show "\<exists>s. nearest (nm_entry n no_off) addr (fgets_all 1024 inp)
      (if fst (nm_find_symbol inp addr csym n no_off) then Some (s, snd (nm_find_symbol inp addr csym n no_off)) else None)"
    using nm.scan_nearest [OF f] f by (intro exI [of _ s]) (simp add: nm_find_symbol_def split: if_splits)
qed

end
