(* ===== verification/EthCat.thy ===== *)
theory EthCat
  imports BStream
begin

text \<open>
  \<^verbatim>\<open>ethcat.c\<close>: a frame is read from the standard input, its addresses and its type are replaced, and it is written to an
  interface. \<open>rd n d\<close> is \<^verbatim>\<open>read\<close> on the standard input, \<open>None\<close> for -1; the answers of the kernel about the interface are
  the record \<open>eth_env\<close>. A signed overflow and a store outside the packet are faults.
\<close>

definition ETH_PKT_SIZE :: nat where "ETH_PKT_SIZE = 2000"

definition ETH_PKT_READ :: nat where "ETH_PKT_READ = 500"

text \<open>The loop of \<^verbatim>\<open>read_in_pkt\<close>: \<open>pkt\<close> is the allocated memory, of \<open>sz\<close> bytes. The inner \<open>None\<close> is NULL.\<close>

definition pkt_room :: "(nat \<Rightarrow> bool) \<Rightarrow> nat \<Rightarrow> u8 list \<Rightarrow> u8 list option option" where
  "pkt_room al cnt pkt = (
     if length pkt - cnt < ETH_PKT_READ then
       let sz = length pkt + ETH_PKT_SIZE in
       if sz \<ge> 2 ^ 31 then None else if al sz then Some (Some (pkt @ replicate ETH_PKT_SIZE 0)) else Some None
     else Some (Some pkt))"

partial_function (option) read_in_pkt_loop ::
  "(nat \<Rightarrow> bool) \<Rightarrow> (nat \<Rightarrow> 'd \<Rightarrow> u8 list option \<times> 'd) \<Rightarrow> nat \<Rightarrow> u8 list \<Rightarrow> 'd \<Rightarrow> (u8 list \<times> nat) option option" where
  "read_in_pkt_loop al rd cnt pkt d = pkt_room al cnt pkt \<bind> (\<lambda>room. case room of None \<Rightarrow> Some None
     | Some pkt \<Rightarrow> (case rd ETH_PKT_READ d of
           (None, d) \<Rightarrow> Some None
         | (Some bs, d) \<Rightarrow> store_at cnt bs pkt \<bind> (\<lambda>pkt.
             if bs = [] then Some (Some (pkt, cnt)) else read_in_pkt_loop al rd (cnt + length bs) pkt d)))"

definition read_in_pkt ::
  "(nat \<Rightarrow> bool) \<Rightarrow> (nat \<Rightarrow> 'd \<Rightarrow> u8 list option \<times> 'd) \<Rightarrow> 'd \<Rightarrow> (u8 list \<times> nat) option option" where
  "read_in_pkt al rd d = read_in_pkt_loop al rd 0 [] d"

record eth_env =
  sock_ok :: bool
  hwaddr :: "u8 list option"
  ifindex :: "int option"
  bind_ok :: bool
  written :: "u8 list \<Rightarrow> int"

text \<open>The result and the frame that is given to \<^verbatim>\<open>write\<close>, if any.\<close>

definition raw_pkt_write :: "eth_env \<Rightarrow> u8 list \<Rightarrow> nat \<Rightarrow> (int \<times> u8 list option) option" where
  "raw_pkt_write env packet len = (
     if \<not> sock_ok env then Some (-1, None)
     else case hwaddr env of None \<Rightarrow> Some (-2, None)
     | Some enet_src \<Rightarrow> do {
         packet \<leftarrow> store_at 6 (take 6 enet_src) packet;
         if ifindex env = None then Some (-3, None)
         else if \<not> bind_ok env then Some (-4, None)
         else if length packet < len then None
         else Some (if written env (take len packet) \<noteq> int len then -5 else 0, Some (take len packet)) })"

subsection \<open>Options\<close>

text \<open>\<^verbatim>\<open>%hhx\<close>: white space, a sign, an optional \<^verbatim>\<open>0x\<close>, the digits; the low byte of the number.\<close>

fun drop_0x :: "cstr \<Rightarrow> (bool \<times> cstr)" where
  "drop_0x (z # x # s) = (if z = 48 \<and> (x = 120 \<or> x = 88) then (True, s) else (False, z # x # s))"
| "drop_0x s = (False, s)"

definition scan_hhx :: "cstr \<Rightarrow> (u8 \<times> cstr) option" where
  "scan_hhx s = (
     let (sg, s) = strtol_sign (dropWhile isspace8 s); (pref, s) = drop_0x s;
         ds = takeWhile (\<lambda>c. hex_val c \<noteq> None) s; v = digits_val 16 0 ds in
     if ds = [] \<and> \<not> pref then None
     else Some (if v < 2 ^ 64 then of_int (sg * int v) else -1, dropWhile (\<lambda>c. hex_val c \<noteq> None) s))"

text \<open>\<open>n + 1\<close> of them with colons in between.\<close>

fun scan_mac :: "nat \<Rightarrow> cstr \<Rightarrow> u8 list option" where
  "scan_mac 0 s = (case scan_hhx s of None \<Rightarrow> None | Some (b, s) \<Rightarrow> Some [b])"
| "scan_mac (Suc n) s = (case scan_hhx s of Some (b, c # s) \<Rightarrow>
      if c = 58 then map_option (\<lambda>bs. b # bs) (scan_mac n s) else None | _ \<Rightarrow> None)"

datatype eth_opt = Opts cstr | Optd cstr | Optt cstr | Opth

record eth_opts =
  if_src :: "cstr option"
  if_dst :: "cstr option"
  etype :: int

fun eth_options :: "eth_opt list \<Rightarrow> eth_opts \<Rightarrow> eth_opts option" where
  "eth_options [] opt = Some opt"
| "eth_options (Opts arg # as) opt = eth_options as (opt\<lparr>if_src := Some arg\<rparr>)"
| "eth_options (Optd arg # as) opt = eth_options as (opt\<lparr>if_dst := Some arg\<rparr>)"
| "eth_options (Optt arg # as) opt = eth_options as (opt\<lparr>etype := atoi arg\<rparr>)"
| "eth_options (Opth # as) opt = None"

text \<open>\<^verbatim>\<open>htons\<close>: the bytes of a 16-bit number, the high one first.\<close>

definition htons :: "int \<Rightarrow> u8 list" where
  "htons v = [of_int (v div 256), of_int v]"

definition set_type :: "eth_opts \<Rightarrow> u8 list \<Rightarrow> u8 list option" where
  "set_type opt packet = (if etype opt \<ge> 0 then store_at 12 (htons (etype opt)) packet else Some packet)"

text \<open>\<open>env\<close> gives the answers for an interface; the result is the exit status and the frame written.\<close>

definition ethcat_main ::
  "(nat \<Rightarrow> bool) \<Rightarrow> (nat \<Rightarrow> 'd \<Rightarrow> u8 list option \<times> 'd) \<Rightarrow> (cstr \<Rightarrow> eth_env) \<Rightarrow> eth_opt list \<Rightarrow> 'd \<Rightarrow> (int \<times> u8 list option) option" where
  "ethcat_main al rd env opts d = (case eth_options opts \<lparr>if_src = None, if_dst = None, etype = -1\<rparr> of
      None \<Rightarrow> Some (1, None)
    | Some opt \<Rightarrow> (case if_src opt of None \<Rightarrow> Some (1, None)
      | Some dev \<Rightarrow> do {
          r \<leftarrow> read_in_pkt al rd d;
          (case r of None \<Rightarrow> Some (2, None)
           | Some (packet, packet_size) \<Rightarrow>
               if packet_size < 14 then Some (2, None)
               else do {
                 packet \<leftarrow> set_type opt packet;
                 (case if_dst opt of
                    None \<Rightarrow> map_option (\<lambda>(r, f). (if r < 0 then 2 else 0, f)) (raw_pkt_write (env dev) packet packet_size)
                  | Some mac \<Rightarrow> (case scan_mac 5 mac of None \<Rightarrow> Some (2, None)
                      | Some enet_dst \<Rightarrow> do {
                          packet \<leftarrow> store_at 0 enet_dst packet;
                          map_option (\<lambda>(r, f). (if r < 0 then 2 else 0, f)) (raw_pkt_write (env dev) packet packet_size) })) }) }))"

subsection \<open>Reading\<close>

text \<open>The standard input gives the pieces \<open>cs\<close> and then ends.\<close>

fun reads :: "(nat \<Rightarrow> 'd \<Rightarrow> u8 list option \<times> 'd) \<Rightarrow> 'd \<Rightarrow> u8 list list \<Rightarrow> bool" where
  "reads rd d [] \<longleftrightarrow> (\<exists>d'. rd ETH_PKT_READ d = (Some [], d'))"
| "reads rd d (c # cs) \<longleftrightarrow> (\<exists>d'. rd ETH_PKT_READ d = (Some c, d') \<and> c \<noteq> [] \<and> length c \<le> ETH_PKT_READ \<and> reads rd d' cs)"

lemma pkt_room_ok:
  assumes "cnt \<le> length pkt" "length pkt \<le> cnt + 2500" "cnt + 4500 < 2 ^ 31" "\<forall>n. al n"
  shows "\<exists>pkt'. pkt_room al cnt pkt = Some (Some pkt') \<and> cnt + 500 \<le> length pkt' \<and> length pkt' \<le> cnt + 2500
    \<and> take cnt pkt' = take cnt pkt"
  using assms by (auto simp: pkt_room_def Let_def ETH_PKT_READ_def ETH_PKT_SIZE_def)

lemma read_in_pkt_loop_ok:
  assumes "reads rd d cs" "cnt \<le> length pkt" "length pkt \<le> cnt + 2500" "cnt + length (concat cs) + 4500 < 2 ^ 31" "\<forall>n. al n"
  shows "\<exists>pkt'. read_in_pkt_loop al rd cnt pkt d = Some (Some (pkt', cnt + length (concat cs)))
    \<and> cnt + length (concat cs) \<le> length pkt' \<and> take (cnt + length (concat cs)) pkt' = take cnt pkt @ concat cs"
  using assms(1-4)
proof (induction cs arbitrary: d cnt pkt)
  case Nil
  then obtain pkt' d' where "pkt_room al cnt pkt = Some (Some pkt')" "cnt + 500 \<le> length pkt'" "take cnt pkt' = take cnt pkt"
    "rd ETH_PKT_READ d = (Some [], d')"
    using pkt_room_ok [of cnt pkt al] assms(5) by auto
  then show ?case using Nil.prems(2) by (subst read_in_pkt_loop.simps) (simp add: store_at_ok)
next
  case (Cons c cs)
  obtain pkt' where p: "pkt_room al cnt pkt = Some (Some pkt')" "cnt + 500 \<le> length pkt'" "length pkt' \<le> cnt + 2500"
    "take cnt pkt' = take cnt pkt"
    using pkt_room_ok [of cnt pkt al] Cons.prems assms(5) by auto
  obtain d' where d': "rd ETH_PKT_READ d = (Some c, d')" "c \<noteq> []" "length c \<le> 500" "reads rd d' cs"
    using Cons.prems(1) by (auto simp: ETH_PKT_READ_def)
  define q where "q = take cnt pkt' @ c @ drop (cnt + length c) pkt'"
  have loop: "read_in_pkt_loop al rd cnt pkt d = read_in_pkt_loop al rd (cnt + length c) q d'"
    using p d' by (subst read_in_pkt_loop.simps) (simp add: store_at_ok q_def)
  have q: "cnt + length c \<le> length q" "length q \<le> cnt + length c + 2500" using p(2,3) d'(3) by (auto simp: q_def)
  have t: "take (cnt + length c) q = take cnt pkt @ c" using p(2,4) d'(3) Cons.prems(2) by (simp add: q_def)
  show ?case using Cons.IH [OF d'(4) q] Cons.prems(4) unfolding loop t by (simp add: add.assoc)
qed

lemma read_in_pkt_ok:
  assumes "reads rd d cs" "length (concat cs) + 4500 < 2 ^ 31" "\<forall>n. al n"
  shows "\<exists>rest. read_in_pkt al rd d = Some (Some (concat cs @ rest, length (concat cs)))"
proof -
  obtain pkt' where "read_in_pkt_loop al rd 0 [] d = Some (Some (pkt', length (concat cs)))" "take (length (concat cs)) pkt' = concat cs"
    using read_in_pkt_loop_ok [OF assms(1), of 0 "[]" al] assms(2,3) by auto
  then show ?thesis
    by (intro exI [of _ "drop (length (concat cs)) pkt'"]) (metis append_take_drop_id read_in_pkt_def)
qed

subsection \<open>Properties\<close>

text \<open>The frame that is to be written.\<close>

definition frame :: "u8 list \<Rightarrow> u8 list option \<Rightarrow> u8 list \<Rightarrow> int \<Rightarrow> u8 list" where
  "frame inp dst src ty = (case dst of None \<Rightarrow> take 6 inp | Some mac \<Rightarrow> mac) @ src
     @ (if ty \<ge> 0 then htons ty else take 2 (drop 12 inp)) @ drop 14 inp"

lemma length_scan_mac: "scan_mac n s = Some bs \<Longrightarrow> length bs = Suc n"
  by (induction n s arbitrary: bs rule: scan_mac.induct) (auto split: option.splits list.splits if_splits)

lemma frame_patches:
  assumes "14 \<le> length inp" "length src = 6" "\<forall>mac. dst = Some mac \<longrightarrow> length mac = 6"
    and "p1 = (if ty \<ge> 0 then take 12 inp @ htons ty @ drop 14 (inp @ rest) else inp @ rest)"
    and "p2 = (case dst of None \<Rightarrow> p1 | Some mac \<Rightarrow> mac @ drop 6 p1)"
  shows "take (length inp) (take 6 p2 @ src @ drop 12 p2) = frame inp dst src ty"
proof -
  obtain a b c w where inp: "inp = a @ b @ c @ w" "length a = 6" "length b = 6" "length c = 2"
  proof
    show "inp = take 6 inp @ take 6 (drop 6 inp) @ take 2 (drop 12 inp) @ drop 14 inp"
      using append_take_drop_id [of 6 inp] append_take_drop_id [of 6 "drop 6 inp"] append_take_drop_id [of 2 "drop 12 inp"]
      by (simp add: drop_drop)
  qed (use assms(1) in auto)
  have h: "length (htons ty) = 2" by (simp add: htons_def)
  have p1: "p1 = a @ b @ (if ty \<ge> 0 then htons ty else c) @ w @ rest" using inp assms(4) by auto
  show ?thesis
    using assms(2,3,5) inp h unfolding p1 frame_def by (cases dst) auto
qed

text \<open>C27. However the input is cut into reads, of any size up to the 2 GB an \<^verbatim>\<open>int\<close> can count, the packet buffer is
  never overrun, and the frame that goes to the interface is the input with the interface's address as its source and with
  the destination and the type of the options, if given; everything behind the header is unchanged. An input that is shorter
  than a header is refused.\<close>

theorem ethcat_frame:
  assumes "reads rd d cs" "length (concat cs) + 4500 < 2 ^ 31" "\<forall>n. al n"
    and "eth_options opts \<lparr>if_src = None, if_dst = None, etype = -1\<rparr> = Some opt" "if_src opt = Some dev"
    and "sock_ok (env dev)" "hwaddr (env dev) = Some src" "length src = 6" "ifindex (env dev) \<noteq> None" "bind_ok (env dev)"
    and "dst = (case if_dst opt of None \<Rightarrow> None | Some m \<Rightarrow> scan_mac 5 m)" "dst = None \<longrightarrow> if_dst opt = None"
  shows "ethcat_main al rd env opts d = Some (if length (concat cs) < 14 then (2, None)
     else let f = frame (concat cs) dst src (etype opt) in
       (if written (env dev) f = int (length (concat cs)) then 0 else 2, Some f))"
proof -
  let ?inp = "concat cs"
  obtain rest where r: "read_in_pkt al rd d = Some (Some (?inp @ rest, length ?inp))"
    using read_in_pkt_ok [OF assms(1-3)] by auto
  show ?thesis
  proof (cases "length ?inp < 14")
    case True
    then show ?thesis using r assms(4,5) by (simp add: ethcat_main_def)
  next
    case False
    define p1 where "p1 = (if etype opt \<ge> 0 then take 12 ?inp @ htons (etype opt) @ drop 14 (?inp @ rest) else ?inp @ rest)"
    define p2 where "p2 = (case dst of None \<Rightarrow> p1 | Some mac \<Rightarrow> mac @ drop 6 p1)"
    have mac: "length mac = 6" if "dst = Some mac" for mac
      using that assms(11) length_scan_mac [of 5 _ mac] by (auto split: option.splits)
    have t: "set_type opt (?inp @ rest) = Some p1"
      using False by (simp add: set_type_def store_at_ok htons_def p1_def)
    have len: "length p1 = length ?inp + length rest" "length p2 = length p1"
      using False mac by (auto simp: p1_def p2_def htons_def split: option.splits)
    have w: "raw_pkt_write (env dev) p2 (length ?inp)
        = Some (if written (env dev) (frame ?inp dst src (etype opt)) \<noteq> int (length ?inp) then -5 else 0,
            Some (frame ?inp dst src (etype opt)))"
      using frame_patches [OF _ assms(8) _ p1_def p2_def] mac False assms(6-10) len
      by (auto simp: raw_pkt_write_def store_at_ok)
    show ?thesis
    proof (cases "if_dst opt")
      case None
      then have "p2 = p1" using assms(11) by (simp add: p2_def)
      then show ?thesis using None r assms(4,5) False t w by (simp add: ethcat_main_def Let_def)
    next
      case (Some m)
      then obtain enet where e: "scan_mac 5 m = Some enet" "dst = Some enet" using assms(11,12) by (cases "scan_mac 5 m") auto
      then have "store_at 0 enet p1 = Some p2" using mac [of enet] len False by (simp add: store_at_ok p2_def)
      then show ?thesis using Some e r assms(4,5) False t w by (simp add: ethcat_main_def Let_def)
    qed
  qed
qed

text \<open>An input of two pieces and an interface that takes every frame.\<close>

fun next_piece :: "nat \<Rightarrow> u8 list list \<Rightarrow> u8 list option \<times> u8 list list" where
  "next_piece n [] = (Some [], [])"
| "next_piece n (c # cs) = (Some c, cs)"

definition demo_if :: "cstr \<Rightarrow> eth_env" where
  "demo_if dev = \<lparr>sock_ok = True, hwaddr = Some [1, 2, 3, 4, 5, 6], ifindex = Some 2, bind_ok = True, written = (\<lambda>f. int (length f))\<rparr>"

theorem ethcat_frame_witness:
  "ethcat_main (\<lambda>n. True) next_piece demo_if [Opts (bytes ''eth0''), Optt (bytes ''2048''), Optd (bytes ''a:B:0x0c:d:e:f'')]
      [[0, 0, 0, 0, 0, 0, 0, 0, 0, 0], [7, 7, 7, 7, 7, 7]]
    = Some (0, Some ([10, 11, 12, 13, 14, 15, 1, 2, 3, 4, 5, 6, 8, 0, 7, 7]))"
proof -
  let ?cs = "[[0, 0, 0, 0, 0, 0, 0, 0, 0, 0], [7, 7, 7, 7, 7, 7]] :: u8 list list"
  let ?opt = "\<lparr>if_src = Some (bytes ''eth0''), if_dst = Some (bytes ''a:B:0x0c:d:e:f''), etype = 2048\<rparr>"
  have ty: "atoi (bytes ''2048'') = 2048"
    by (simp add: atoi_def strtol_def strtol_digits_def bytes_def isspace8_def digit_in_def hex_val_def isdigit8_def)
  have mac: "scan_mac 5 (bytes ''a:B:0x0c:d:e:f'') = Some [10, 11, 12, 13, 14, 15]"
  proof -
    have "(5 :: nat) = Suc (Suc (Suc (Suc (Suc 0))))" by simp
    then show ?thesis
      by (simp only: scan_mac.simps) (simp add: scan_hhx_def bytes_def isspace8_def hex_val_def isdigit8_def digit_in_def)
  qed
  have rd: "reads next_piece ?cs ?cs" by (simp add: ETH_PKT_READ_def)
  have "ethcat_main (\<lambda>n. True) next_piece demo_if [Opts (bytes ''eth0''), Optt (bytes ''2048''), Optd (bytes ''a:B:0x0c:d:e:f'')] ?cs
    = Some (if length (concat ?cs) < 14 then (2, None)
     else let f = frame (concat ?cs) (Some [10, 11, 12, 13, 14, 15]) [1, 2, 3, 4, 5, 6] (etype ?opt) in
       (if written (demo_if (bytes ''eth0'')) f = int (length (concat ?cs)) then 0 else 2, Some f))"
    by (rule ethcat_frame [OF rd, where opt = ?opt and dev = "bytes ''eth0''"]) (simp_all add: demo_if_def ty mac)
  then show ?thesis by (simp add: demo_if_def frame_def htons_def)
qed

end
