(* ===== verification/EventSem.thy ===== *)
theory EventSem
  imports Prelude
begin

text \<open>
  \<^verbatim>\<open>eventfd-sem.c\<close>: two processes hand tokens to each other over two event descriptors in semaphore mode. A post adds to the
  counter of a descriptor, a wait takes one and blocks at zero; the kernel keeps a counter below \<^verbatim>\<open>2^64 - 1\<close>. Every
  interleaving of the two processes is a run of the step relation.
\<close>

datatype sem_op = Post nat | Wait

text \<open>What an operation does to the counters of its two descriptors, \<open>None\<close> when it blocks.\<close>

definition xsem_post :: "nat \<Rightarrow> nat \<Rightarrow> nat option" where
  "xsem_post n c = (if c + n \<le> 2 ^ 64 - 2 then Some (c + n) else None)"

definition xsem_wait :: "nat \<Rightarrow> nat option" where
  "xsem_wait c = (if c = 0 then None else Some (c - 1))"

text \<open>The calls of \<^verbatim>\<open>sem_player(fd1, fd2)\<close>: posts on \<open>fd1\<close>, waits on \<open>fd2\<close>.\<close>

definition sem_player :: "sem_op list" where
  "sem_player = [Post 1, Wait, Post 1, Wait, Post 5, Wait, Wait, Wait, Wait, Wait]"

fun player_op :: "sem_op \<Rightarrow> nat \<Rightarrow> nat \<Rightarrow> (nat \<times> nat) option" where
  "player_op (Post n) c1 c2 = map_option (\<lambda>c. (c, c2)) (xsem_post n c1)"
| "player_op Wait c1 c2 = map_option (\<lambda>c. (c1, c)) (xsem_wait c2)"

record sem_state =
  efd1 :: nat
  efd2 :: nat
  poster :: "sem_op list"
  waiter :: "sem_op list"

definition sem_init :: sem_state where
  "sem_init = \<lparr>efd1 = 0, efd2 = 0, poster = sem_player, waiter = sem_player\<rparr>"

inductive sem_step :: "sem_state \<Rightarrow> sem_state \<Rightarrow> bool" where
  poster_op: "poster s = x # xs \<Longrightarrow> player_op x (efd1 s) (efd2 s) = Some (c1, c2) \<Longrightarrow>
    sem_step s (s\<lparr>efd1 := c1, efd2 := c2, poster := xs\<rparr>)"
| waiter_op: "waiter s = x # xs \<Longrightarrow> player_op x (efd2 s) (efd1 s) = Some (c2, c1) \<Longrightarrow>
    sem_step s (s\<lparr>efd1 := c1, efd2 := c2, waiter := xs\<rparr>)"

inductive sem_run :: "nat \<Rightarrow> sem_state \<Rightarrow> bool" where
  run_start: "sem_run 0 sem_init"
| run_next: "sem_run k s \<Longrightarrow> sem_step s s' \<Longrightarrow> sem_run (Suc k) s'"

subsection \<open>Counting tokens\<close>

fun posts :: "sem_op list \<Rightarrow> nat" where
  "posts [] = 0"
| "posts (Post n # xs) = n + posts xs"
| "posts (Wait # xs) = posts xs"

fun waits :: "sem_op list \<Rightarrow> nat" where
  "waits [] = 0"
| "waits (Post n # xs) = waits xs"
| "waits (Wait # xs) = Suc (waits xs)"

lemma posts_append [simp]: "posts (xs @ ys) = posts xs + posts ys"
  by (induction xs rule: posts.induct) auto

lemma waits_append [simp]: "waits (xs @ ys) = waits xs + waits ys"
  by (induction xs rule: waits.induct) auto

text \<open>Before it waits, a player has posted more than it has waited for.\<close>

lemma player_ahead: "sem_player = xs @ Wait # ys \<Longrightarrow> waits xs < posts xs"
proof -
  assume a: "sem_player = xs @ Wait # ys"
  have "length xs < length sem_player" "take (length xs) sem_player = xs" "sem_player ! length xs = Wait"
    unfolding a by simp_all
  moreover have "sem_player ! n = Wait \<longrightarrow> waits (take n sem_player) < posts (take n sem_player)" if "n < 10" for n
  proof -
    have "n = 0 \<or> n = 1 \<or> n = 2 \<or> n = 3 \<or> n = 4 \<or> n = 5 \<or> n = 6 \<or> n = 7 \<or> n = 8 \<or> n = 9" using that by auto
    then show ?thesis by (elim disjE) (simp_all add: sem_player_def)
  qed
  moreover have "length sem_player = 10" by (simp add: sem_player_def)
  ultimately show ?thesis by metis
qed

lemma player_total: "posts sem_player = 7" "waits sem_player = 7"
  by (simp_all add: sem_player_def)

definition sem_inv :: "sem_op list \<Rightarrow> sem_op list \<Rightarrow> sem_state \<Rightarrow> bool" where
  "sem_inv ps ws s \<longleftrightarrow> sem_player = ps @ poster s \<and> sem_player = ws @ waiter s
     \<and> efd1 s + waits ws = posts ps \<and> efd2 s + waits ps = posts ws"

lemma player_op_count:
  assumes "player_op x c1 c2 = Some (c1', c2')" "c1 + w2 = posts ps" "c2 + waits ps = p2"
  shows "c1' + w2 = posts (ps @ [x]) \<and> c2' + waits (ps @ [x]) = p2"
  using assms by (cases x) (auto simp: xsem_post_def xsem_wait_def split: if_splits)

lemma sem_run_inv:
  "sem_run k s \<Longrightarrow> \<exists>ps ws. sem_inv ps ws s \<and> k = length ps + length ws"
proof (induction rule: sem_run.induct)
  case run_start
  then show ?case by (intro exI [of _ "[]"]) (simp add: sem_inv_def sem_init_def)
next
  case (run_next k s s')
  then obtain ps ws where i: "sem_inv ps ws s" "k = length ps + length ws" by auto
  from run_next.hyps(2) show ?case
  proof cases
    case (poster_op x xs c1 c2)
    then have "sem_inv (ps @ [x]) ws s'"
      using i(1) player_op_count [of x "efd1 s" "efd2 s" c1 c2 "waits ws" ps "posts ws"] by (simp add: sem_inv_def)
    then show ?thesis using i(2) by (intro exI [of _ "ps @ [x]"] exI [of _ ws]) simp
  next
    case (waiter_op x xs c2 c1)
    then have "sem_inv ps (ws @ [x]) s'"
      using i(1) player_op_count [of x "efd2 s" "efd1 s" c2 c1 "waits ps" ws "posts ps"] by (simp add: sem_inv_def)
    then show ?thesis using i(2) by (intro exI [of _ ps] exI [of _ "ws @ [x]"]) simp
  qed
qed

text \<open>A player whose next operation blocks waits for tokens that the other has not posted.\<close>

lemma blocked_wait:
  assumes "player_op x c1 c2 = None" "c1 + posts (x # xs) \<le> 7"
  shows "x = Wait \<and> c2 = 0"
  using assms by (cases x) (auto simp: xsem_post_def xsem_wait_def split: if_splits)

lemma sem_inv_stuck:
  assumes "sem_inv ps ws s" "\<nexists>s'. sem_step s s'"
  shows "poster s = [] \<and> waiter s = [] \<and> efd1 s = 0 \<and> efd2 s = 0"
proof -
  have i: "sem_player = ps @ poster s" "sem_player = ws @ waiter s" "efd1 s + waits ws = posts ps" "efd2 s + waits ps = posts ws"
    using assms(1) by (auto simp: sem_inv_def)
  have tot: "posts ps + posts (poster s) = 7" "waits ps + waits (poster s) = 7" "posts ws + posts (waiter s) = 7"
    "waits ws + waits (waiter s) = 7"
    using player_total i(1,2) by (metis posts_append waits_append)+
  have p: "efd2 s = 0 \<and> waits ps < posts ps" if "poster s = x # xs" for x xs
  proof -
    have "player_op x (efd1 s) (efd2 s) = None"
      using assms(2) sem_step.poster_op [OF that] by (cases "player_op x (efd1 s) (efd2 s)") auto
    then have "x = Wait" "efd2 s = 0" using blocked_wait [of x "efd1 s" "efd2 s" xs] i(3) tot(1) that by auto
    then show ?thesis using player_ahead [of ps xs] i(1) that by simp
  qed
  have w: "efd1 s = 0 \<and> waits ws < posts ws" if "waiter s = x # xs" for x xs
  proof -
    have "player_op x (efd2 s) (efd1 s) = None"
      using assms(2) sem_step.waiter_op [OF that] by (cases "player_op x (efd2 s) (efd1 s)") auto
    then have "x = Wait" "efd1 s = 0" using blocked_wait [of x "efd2 s" "efd1 s" xs] i(4) tot(3) that by auto
    then show ?thesis using player_ahead [of ws xs] i(2) that by simp
  qed
  have "poster s = []"
  proof (rule ccontr)
    assume "poster s \<noteq> []"
    then have ps: "efd2 s = 0" "waits ps < posts ps" using p by (metis list.exhaust)+
    then show False
    proof (cases "waiter s")
      case Nil
      then show False using ps i(4) tot by simp
    next
      case (Cons x xs)
      then show False using w [OF Cons] ps i(3,4) by simp
    qed
  qed
  moreover from this have "waiter s = []" using w i(3) tot by (cases "waiter s") fastforce+
  ultimately show ?thesis using i(3,4) tot by simp
qed

subsection \<open>Properties\<close>

text \<open>C29. The two processes never deadlock and always end: a run has at most twenty steps, and a state in which no
  step is possible is one in which both have finished all their calls and every token has been taken.\<close>

theorem sem_players_end:
  assumes "sem_run k s"
  shows "k + length (poster s) + length (waiter s) = 20
    \<and> ((\<nexists>s'. sem_step s s') \<longrightarrow> k = 20 \<and> poster s = [] \<and> waiter s = [] \<and> efd1 s = 0 \<and> efd2 s = 0)"
proof -
  obtain ps ws where i: "sem_inv ps ws s" "k = length ps + length ws" using sem_run_inv [OF assms] by auto
  have "length sem_player = 10" by (simp add: sem_player_def)
  then have "length ps + length (poster s) = 10" "length ws + length (waiter s) = 10"
    using i(1) unfolding sem_inv_def by (metis length_append)+
  then show ?thesis using i(2) sem_inv_stuck [OF i(1)] by auto
qed

theorem sem_players_end_witness:
  "\<exists>s. sem_run 1 s \<and> 1 + length (poster s) + length (waiter s) = 20"
proof -
  have "sem_run 1 (sem_init\<lparr>efd1 := 1, efd2 := 0, poster := tl sem_player\<rparr>)"
    using sem_run.run_next [OF sem_run.run_start sem_step.poster_op [of sem_init "Post 1" "tl sem_player" 1 0]]
    by (simp add: sem_init_def sem_player_def xsem_post_def)
  then show ?thesis using sem_players_end by blast
qed

end
