(* ===== verification/TokenRing.thy ===== *)
theory TokenRing
  imports CStr
begin

text \<open>
  The benchmarks \<^verbatim>\<open>pipetest-4.c\<close> and \<^verbatim>\<open>eventfd-bench.c\<close>: tokens travel over a ring of pipes, or of event descriptors, that an edge-triggered
  \<^verbatim>\<open>epoll\<close> watches. Each event is answered by one read, and by one write further on in the ring as long as writes are left; a round
  ends when as many events have been counted as writes fired. What \<^verbatim>\<open>epoll\<close> does is what its documentation says: a descriptor
  is reported once after it has been written to, if it can be read; \<open>ord\<close>, the order of the report, is a parameter.
\<close>

record tokens =
  level :: "int \<Rightarrow> nat"
  ready :: "int list"
  cnt :: int
  wr :: int
  fired :: int

text \<open>A read of a channel that holds \<open>l\<close>: what is left, and whether the read counts. A pipe gives one byte, and the -1 of an empty
  one counts as well; an event descriptor gives its whole counter.\<close>

definition pipe_read :: "nat \<Rightarrow> nat \<times> bool" where
  "pipe_read l = (l - 1, True)"

definition efd_read :: "nat \<Rightarrow> nat \<times> bool" where
  "efd_read l = (0, l \<noteq> 0)"

text \<open>A write of one byte, or of 1, to channel \<open>i\<close> of \<open>n\<close>; an index outside the array is a fault.\<close>

definition put :: "int \<Rightarrow> int \<Rightarrow> tokens \<Rightarrow> tokens option" where
  "put n i s = (if 0 \<le> i \<and> i < n then
     Some (s\<lparr>level := (level s)(i := level s i + 1), ready := (if i \<in> set (ready s) then ready s else ready s @ [i])\<rparr>) else None)"

definition read_cb :: "(nat \<Rightarrow> nat \<times> bool) \<Rightarrow> int \<Rightarrow> int \<Rightarrow> int \<Rightarrow> tokens \<Rightarrow> tokens option" where
  "read_cb rd n a idx s = (
     let widx = idx + a + 1; (l, ok) = rd (level s idx);
         s = s\<lparr>level := (level s)(idx := l), cnt := (if ok then cnt s + 1 else cnt s)\<rparr> in
     if wr s \<noteq> 0 then put n (if widx \<ge> n then widx - n else widx) (s\<lparr>wr := wr s - 1, fired := fired s + 1\<rparr>)
     else Some s)"

definition epoll_wait :: "(tokens \<Rightarrow> int list \<Rightarrow> int list) \<Rightarrow> tokens \<Rightarrow> int list \<times> tokens" where
  "epoll_wait ord s = (filter (\<lambda>i. level s i > 0) (ord s (ready s)), s\<lparr>ready := []\<rparr>)"

partial_function (option) events_loop ::
  "(nat \<Rightarrow> nat \<times> bool) \<Rightarrow> (tokens \<Rightarrow> int list \<Rightarrow> int list) \<Rightarrow> int \<Rightarrow> int \<Rightarrow> tokens \<Rightarrow> tokens option" where
  "events_loop rd ord n a s = foldM (read_cb rd n a) (fst (epoll_wait ord s)) (snd (epoll_wait ord s)) \<bind> (\<lambda>s.
     if cnt s \<noteq> fired s then events_loop rd ord n a s else Some s)"

text \<open>\<^verbatim>\<open>run_once\<close> with \<open>n\<close> channels, \<open>a\<close> active ones and \<open>w\<close> writes; \<^verbatim>\<open>*work\<close> is \<open>cnt\<close> of the result.\<close>

definition run_once ::
  "(nat \<Rightarrow> nat \<times> bool) \<Rightarrow> (tokens \<Rightarrow> int list \<Rightarrow> int list) \<Rightarrow> int \<Rightarrow> int \<Rightarrow> int \<Rightarrow> tokens \<Rightarrow> tokens option" where
  "run_once rd ord n a w s = do {
     s \<leftarrow> foldM (put n) [0..a - 1] s;
     events_loop rd ord n a (s\<lparr>cnt := 0, wr := w, fired := max 0 a\<rparr>) }"

text \<open>The options as \<^verbatim>\<open>getopt\<close> yields them, and the rounds of \<^verbatim>\<open>main\<close>: the exit status, where 7 says that a round did nothing.\<close>

datatype pt_opt = Optn cstr | Opta cstr | Optw cstr | Optq | Opth

record pt_opts =
  num :: int
  num_active :: int
  num_writes :: int
  quiet :: bool

fun pt_options :: "pt_opt list \<Rightarrow> pt_opts \<Rightarrow> pt_opts option" where
  "pt_options [] opt = Some (if num_active opt \<ge> num opt then opt\<lparr>num_active := num opt - 1\<rparr> else opt)"
| "pt_options (Optn arg # as) opt = pt_options as (opt\<lparr>num := atoi arg\<rparr>)"
| "pt_options (Opta arg # as) opt = pt_options as (opt\<lparr>num_active := atoi arg\<rparr>)"
| "pt_options (Optw arg # as) opt = pt_options as (opt\<lparr>num_writes := atoi arg\<rparr>)"
| "pt_options (Optq # as) opt = pt_options as (opt\<lparr>quiet := True\<rparr>)"
| "pt_options (Opth # as) opt = None"

definition RUNTIMES :: nat where "RUNTIMES = 16"

fun pt_rounds :: "nat \<Rightarrow> (nat \<Rightarrow> nat \<times> bool) \<Rightarrow> (tokens \<Rightarrow> int list \<Rightarrow> int list) \<Rightarrow> pt_opts \<Rightarrow> tokens \<Rightarrow> int option" where
  "pt_rounds 0 rd ord opt s = Some 0"
| "pt_rounds (Suc k) rd ord opt s = do {
     s \<leftarrow> run_once rd ord (num opt) (num_active opt) (num_writes opt) s;
     if cnt s = 0 then Some 7 else pt_rounds k rd ord opt s }"

text \<open>\<open>setup n\<close> is the status of the first call that fails while the descriptors for \<open>n\<close> channels are made, if one does.\<close>

definition pt_main ::
  "(nat \<Rightarrow> nat \<times> bool) \<Rightarrow> (int \<Rightarrow> int option) \<Rightarrow> (tokens \<Rightarrow> int list \<Rightarrow> int list) \<Rightarrow> pt_opt list \<Rightarrow> int option" where
  "pt_main rd setup ord opts = (case pt_options opts \<lparr>num = 200, num_active = 1, num_writes = 50000, quiet = False\<rparr> of
      None \<Rightarrow> Some 1
    | Some opt \<Rightarrow> (case setup (num opt) of Some st \<Rightarrow> Some st
      | None \<Rightarrow> pt_rounds RUNTIMES rd ord opt \<lparr>level = (\<lambda>i. 0), ready = [], cnt = 0, wr = 0, fired = 0\<rparr>))"

text \<open>The two programs: their callbacks, rounds and \<^verbatim>\<open>main\<close> differ only in the read.\<close>

definition pipe_run_once :: "(tokens \<Rightarrow> int list \<Rightarrow> int list) \<Rightarrow> int \<Rightarrow> int \<Rightarrow> int \<Rightarrow> tokens \<Rightarrow> tokens option" where
  "pipe_run_once = run_once pipe_read"

definition pipetest_main :: "(int \<Rightarrow> int option) \<Rightarrow> (tokens \<Rightarrow> int list \<Rightarrow> int list) \<Rightarrow> pt_opt list \<Rightarrow> int option" where
  "pipetest_main = pt_main pipe_read"

definition efd_read_cb :: "int \<Rightarrow> int \<Rightarrow> int \<Rightarrow> tokens \<Rightarrow> tokens option" where
  "efd_read_cb = read_cb efd_read"

definition efd_run_once :: "(tokens \<Rightarrow> int list \<Rightarrow> int list) \<Rightarrow> int \<Rightarrow> int \<Rightarrow> int \<Rightarrow> tokens \<Rightarrow> tokens option" where
  "efd_run_once = run_once efd_read"

definition eventfd_bench_main :: "(int \<Rightarrow> int option) \<Rightarrow> (tokens \<Rightarrow> int list \<Rightarrow> int list) \<Rightarrow> pt_opt list \<Rightarrow> int option" where
  "eventfd_bench_main = pt_main efd_read"

subsection \<open>The ring\<close>

definition hop :: "int \<Rightarrow> int \<Rightarrow> int \<Rightarrow> int" where
  "hop n a i = (if i + a + 1 \<ge> n then i + a + 1 - n else i + a + 1)"

lemma hop_range: "0 \<le> i \<Longrightarrow> i < n \<Longrightarrow> 0 \<le> a \<Longrightarrow> a < n \<Longrightarrow> 0 \<le> hop n a i \<and> hop n a i < n"
  by (auto simp: hop_def)

lemma hop_inj: "0 \<le> i \<Longrightarrow> i < n \<Longrightarrow> 0 \<le> j \<Longrightarrow> j < n \<Longrightarrow> 0 \<le> a \<Longrightarrow> a < n \<Longrightarrow> hop n a i = hop n a j \<Longrightarrow> i = j"
  by (auto simp: hop_def split: if_splits)

text \<open>The tokens keep within \<open>a\<close> neighbouring places, from \<open>b\<close> on.\<close>

definition window :: "int \<Rightarrow> int \<Rightarrow> int \<Rightarrow> int set" where
  "window n a b = {i. 0 \<le> i \<and> i < n \<and> (i - b) mod n < a}"

lemma hop_window: "0 \<le> a \<Longrightarrow> a < n \<Longrightarrow> i \<in> window n a b \<Longrightarrow> hop n a i \<in> window n a (b + a + 1)"
proof -
  assume a: "0 \<le> a" "a < n" and i: "i \<in> window n a b"
  have "hop n a i - (b + a + 1) = i - b \<or> hop n a i - (b + a + 1) = i - b - n" by (auto simp: hop_def)
  then have "(hop n a i - (b + a + 1)) mod n = (i - b) mod n" by (metis minus_mod_self2)
  then show ?thesis using hop_range [of i n a] a i by (simp add: window_def)
qed

lemma window_apart:
  assumes "0 \<le> a" "2 * a < n" "i \<in> window n a b"
  shows "i \<notin> window n a (b + a + 1)"
proof
  assume "i \<in> window n a (b + a + 1)"
  then have "(i - b - (a + 1)) mod n < a" by (simp add: window_def algebra_simps)
  moreover have "(i - b - (a + 1)) mod n = ((i - b) mod n - (a + 1)) mod n" by (simp add: mod_diff_left_eq)
  moreover have m: "(i - b) mod n < a" "0 \<le> (i - b) mod n" using assms by (auto simp: window_def)
  moreover have "((i - b) mod n - (a + 1)) mod n = (i - b) mod n - (a + 1) + n"
  proof -
    have "((i - b) mod n - (a + 1)) mod n = ((i - b) mod n - (a + 1) + n) mod n" by simp
    also have "\<dots> = (i - b) mod n - (a + 1) + n" using m assms(1,2) by (intro mod_pos_pos_trivial; linarith)
    finally show ?thesis .
  qed
  ultimately show False using assms(2) by simp
qed

subsection \<open>A batch of events\<close>

text \<open>While the events \<open>rest\<close> of a report are still to be answered: a channel holds a token for its event and one for a write of
  this batch; \<open>m\<close> is the size of the report, \<open>w0\<close> the number of writes left at its start.\<close>

definition batch :: "int \<Rightarrow> int \<Rightarrow> int \<Rightarrow> int \<Rightarrow> nat \<Rightarrow> int \<Rightarrow> int list \<Rightarrow> tokens \<Rightarrow> bool" where
  "batch n a b tot m w0 rest s \<longleftrightarrow> distinct rest \<and> distinct (ready s) \<and> set rest \<subseteq> window n a b
     \<and> set (ready s) \<subseteq> hop n a ` (window n a b - set rest)
     \<and> (\<forall>i. level s i = of_bool (i \<in> set rest) + of_bool (i \<in> set (ready s)))
     \<and> cnt s + int (length rest) + int (length (ready s)) = fired s \<and> fired s + wr s = tot
     \<and> 0 \<le> wr s \<and> int (length (ready s)) + wr s = w0 \<and> (0 < wr s \<longrightarrow> length rest + length (ready s) = m)"

text \<open>Between two reports.\<close>

definition round :: "int \<Rightarrow> int \<Rightarrow> int \<Rightarrow> int \<Rightarrow> tokens \<Rightarrow> bool" where
  "round n a b tot s \<longleftrightarrow> distinct (ready s) \<and> set (ready s) \<subseteq> window n a b \<and> (\<forall>i. level s i = of_bool (i \<in> set (ready s)))
     \<and> cnt s + int (length (ready s)) = fired s \<and> fired s + wr s = tot \<and> 0 \<le> wr s"

text \<open>What the ring relies on in a channel: a read of a safe level takes one token and counts.\<close>

locale token_channel =
  fixes rd :: "nat \<Rightarrow> nat \<times> bool"
    and safe :: "nat \<Rightarrow> bool"
  assumes rd_safe: "safe l \<Longrightarrow> rd l = (l - 1, True)"
    and safe_1: "safe 1"
begin

lemma read_cb_batch:
  assumes B: "batch n a b tot m w0 (idx # rest) s" and a: "0 \<le> a" "a < n" and room: "safe 2 \<or> 2 * a < n"
  shows "\<exists>s'. read_cb rd n a idx s = Some s' \<and> batch n a b tot m w0 rest s'"
proof -
  have idx: "idx \<in> window n a b" "idx \<notin> set rest" "0 \<le> idx" "idx < n" using B by (auto simp: batch_def window_def)
  have "idx \<notin> set (ready s)" if "2 * a < n"
    using B hop_window [OF a] window_apart [OF a(1) that idx(1)] by (auto simp: batch_def)
  then have "safe (level s idx)"
    using B room safe_1 by (cases "idx \<in> set (ready s)") (auto simp: batch_def numeral_2_eq_2)
  then have rd: "rd (level s idx) = (of_bool (idx \<in> set (ready s)), True)" using B by (simp add: rd_safe batch_def)
  have ready: "set (ready s) \<subseteq> hop n a ` (window n a b - set (idx # rest))" using B by (simp add: batch_def)
  have new: "hop n a idx \<notin> set (ready s)"
  proof
    assume "hop n a idx \<in> set (ready s)"
    then obtain j where j: "j \<in> window n a b" "j \<notin> set (idx # rest)" "hop n a idx = hop n a j" using ready by blast
    then have "idx = j" using hop_inj [OF idx(3,4) _ _ a j(3)] by (simp add: window_def)
    then show False using j(2) by simp
  qed
  have h: "0 \<le> hop n a idx" "hop n a idx < n" using hop_range idx(3,4) a by auto
  have sub: "set (ready s) \<subseteq> hop n a ` (window n a b - set rest)" "hop n a idx \<in> hop n a ` (window n a b - set rest)"
    using B idx by (auto simp: batch_def)
  let ?s = "s\<lparr>level := (level s)(idx := of_bool (idx \<in> set (ready s))), cnt := cnt s + 1\<rparr>"
  show ?thesis
  proof (cases "wr s = 0")
    case True
    then have "read_cb rd n a idx s = Some ?s" by (simp add: read_cb_def rd Let_def)
    then show ?thesis using B True sub(1) idx(2) by (auto simp: batch_def)
  next
    case False
    let ?t = "?s\<lparr>wr := wr s - 1, fired := fired s + 1, level := (level ?s)(hop n a idx := level ?s (hop n a idx) + 1),
      ready := ready s @ [hop n a idx]\<rparr>"
    have "read_cb rd n a idx s = Some ?t"
      using False h new by (simp add: read_cb_def rd Let_def put_def hop_def)
    moreover have "batch n a b tot m w0 rest ?t"
      using B False sub idx(2) new by (auto simp: batch_def)
    ultimately show ?thesis by blast
  qed
qed

lemma events_pass:
  assumes R: "round n a b tot s" and a: "0 \<le> a" "a < n" and room: "safe 2 \<or> 2 * a < n"
    and ord: "\<forall>s xs. distinct xs \<longrightarrow> distinct (ord s xs) \<and> set (ord s xs) = set xs"
  shows "\<exists>s'. foldM (read_cb rd n a) (fst (epoll_wait ord s)) (snd (epoll_wait ord s)) = Some s' \<and> round n a (b + a + 1) tot s'
    \<and> (ready s = [] \<longrightarrow> s' = s) \<and> (ready s \<noteq> [] \<longrightarrow> (if ready s' = [] then wr s' = 0 else wr s' < wr s))"
proof -
  let ?evs = "ord s (ready s)"
  have evs: "distinct ?evs" "set ?evs = set (ready s)" using R ord by (auto simp: round_def)
  then have len: "length ?evs = length (ready s)" using R by (metis distinct_card round_def)
  have "batch n a b tot (length ?evs) (wr s) ?evs (s\<lparr>ready := []\<rparr>)"
    using R evs len by (simp add: round_def batch_def)
  then obtain s' where s': "foldM (read_cb rd n a) ?evs (s\<lparr>ready := []\<rparr>) = Some s'" "batch n a b tot (length ?evs) (wr s) [] s'"
    using foldM_inv [of "batch n a b tot (length ?evs) (wr s)" ?evs "s\<lparr>ready := []\<rparr>" "read_cb rd n a"]
      read_cb_batch [OF _ a room] by blast
  have w: "epoll_wait ord s = (?evs, s\<lparr>ready := []\<rparr>)"
    using R evs by (auto simp: epoll_wait_def round_def filter_id_conv)
  have "set (ready s') \<subseteq> window n a (b + a + 1)" using s'(2) hop_window [OF a] by (auto simp: batch_def)
  then have "round n a (b + a + 1) tot s'" using s'(2) by (auto simp: batch_def round_def)
  moreover have "s' = s" if "ready s = []" using that s'(1) evs(2) by (cases s) simp
  moreover have "wr s' < wr s" if "ready s' \<noteq> []"
  proof -
    have "int (length (ready s')) + wr s' = wr s" using s'(2) by (simp add: batch_def)
    moreover have "0 < length (ready s')" using that by simp
    ultimately show ?thesis by linarith
  qed
  moreover have "wr s' = 0" if "ready s \<noteq> []" "ready s' = []"
    using s'(2) that len by (auto simp: batch_def)
  ultimately show ?thesis using s'(1) w by auto
qed

lemma events_loop_ends:
  assumes "round n a b tot s" and a: "0 \<le> a" "a < n" and room: "safe 2 \<or> 2 * a < n"
    and ord: "\<forall>s xs. distinct xs \<longrightarrow> distinct (ord s xs) \<and> set (ord s xs) = set xs"
  shows "\<exists>s'. events_loop rd ord n a s = Some s' \<and> cnt s' = (if ready s = [] then fired s else tot)
    \<and> ready s' = [] \<and> level s' = (\<lambda>i. 0)"
  using assms(1)
proof (induction "nat (wr s)" arbitrary: s b rule: less_induct)
  case less
  obtain s1 where s1: "foldM (read_cb rd n a) (fst (epoll_wait ord s)) (snd (epoll_wait ord s)) = Some s1" "round n a (b + a + 1) tot s1"
    "ready s = [] \<longrightarrow> s1 = s" "ready s \<noteq> [] \<longrightarrow> (if ready s1 = [] then wr s1 = 0 else wr s1 < wr s)"
    using events_pass [OF less.prems a room ord] by blast
  show ?case
  proof (cases "ready s1 = []")
    case True
    then show ?thesis
      using s1 by (subst events_loop.simps) (auto simp: round_def fun_eq_iff)
  next
    case False
    then have "ready s \<noteq> []" "nat (wr s1) < nat (wr s)" using s1(3,4) s1(2) less.prems by (auto simp: round_def)
    moreover have "cnt s1 \<noteq> fired s1" using s1(2) False by (auto simp: round_def)
    ultimately show ?thesis
      using less.hyps [OF _ s1(2)] s1(1) False by (subst events_loop.simps) auto
  qed
qed

lemma run_once_ends:
  assumes a: "0 \<le> a" "a < n" and room: "safe 2 \<or> 2 * a < n" and "0 \<le> w" "ready s = []" "level s = (\<lambda>i. 0)"
    and ord: "\<forall>s xs. distinct xs \<longrightarrow> distinct (ord s xs) \<and> set (ord s xs) = set xs"
  shows "\<exists>s'. run_once rd ord n a w s = Some s' \<and> cnt s' = (if a = 0 then 0 else a + w) \<and> ready s' = [] \<and> level s' = (\<lambda>i. 0)"
proof -
  define I where "I xs s \<longleftrightarrow> distinct (ready s @ xs) \<and> set (ready s @ xs) = {0..a - 1}
      \<and> (\<forall>i. level s i = of_bool (i \<in> set (ready s)))" for xs and s :: tokens
  have "I [0..a - 1] s" using assms(5,6) by (simp add: I_def)
  moreover have "\<exists>s'. put n x s = Some s' \<and> I ys s'" if "I (x # ys) s" for x ys s
  proof -
    have "0 \<le> x" "x \<le> a - 1" "x \<notin> set (ready s)" using that by (auto simp: I_def)
    then show ?thesis using that a by (auto simp: I_def put_def)
  qed
  ultimately obtain s1 where s1: "foldM (put n) [0..a - 1] s = Some s1" "I [] s1" using foldM_inv [of I "[0..a - 1]" s "put n"] by blast
  have r: "distinct (ready s1)" "set (ready s1) = {0..a - 1}" "level s1 = (\<lambda>i. of_bool (i \<in> set (ready s1)))" using s1(2) by (auto simp: I_def)
  then have len: "int (length (ready s1)) = a" using a distinct_card [OF r(1)] by simp
  have "round n a 0 (a + w) (s1\<lparr>cnt := 0, wr := w, fired := max 0 a\<rparr>)"
    using r len a assms(4) by (auto simp: round_def window_def)
  from events_loop_ends [OF this a room ord] show ?thesis
    using s1(1) len by (auto simp: run_once_def split: if_splits)
qed

lemma pt_rounds_end:
  assumes "0 < num_active opt" "num_active opt < num opt" "safe 2 \<or> 2 * num_active opt < num opt" "0 \<le> num_writes opt"
    and "ready s = []" "level s = (\<lambda>i. 0)" and ord: "\<forall>s xs. distinct xs \<longrightarrow> distinct (ord s xs) \<and> set (ord s xs) = set xs"
  shows "pt_rounds k rd ord opt s = Some 0"
  using assms(5,6)
proof (induction k arbitrary: s)
  case (Suc k)
  then show ?case using run_once_ends [OF _ assms(2-4) Suc.prems ord] assms(1,4) by fastforce
qed simp

end

interpretation pipe: token_channel pipe_read "\<lambda>l. 0 < l"
  by unfold_locales (simp_all add: pipe_read_def)

interpretation efd: token_channel efd_read "\<lambda>l. l = 1"
  by unfold_locales (simp_all add: efd_read_def)

subsection \<open>Properties\<close>



end
