(* ===== verification/PrivExec.thy ===== *)
theory PrivExec
  imports CStr
begin

text \<open>
  The programs that give up privileges and run a command: \<^verbatim>\<open>swrap.c\<close>, \<^verbatim>\<open>sexecp.c\<close> (for every connection to a port) and \<^verbatim>\<open>sxncat.c\<close>
  (over a connection it makes). A run is the trace of the calls that change the identity, the descriptors or the program, as
  seen by one process, and its fate. What the kernel and the name services answer are parameters.
\<close>

datatype call = Setgid u32 bool | Setuid u32 bool | Dup2 int int | Close int | Exec "cstr list"

datatype fate = Exited int | Runs "cstr list" | Waits

record kernel =
  can_setgid :: "u32 \<Rightarrow> bool"
  can_setuid :: "u32 \<Rightarrow> bool"
  can_exec :: "cstr list \<Rightarrow> bool"

text \<open>\<^verbatim>\<open>execvp\<close>: it returns only when it fails, and the status that follows is given.\<close>

definition do_exec :: "kernel \<Rightarrow> int \<Rightarrow> cstr list \<Rightarrow> call list \<times> fate" where
  "do_exec k st cmd = ([Exec cmd], if can_exec k cmd then Runs cmd else Exited st)"

subsection \<open>swrap\<close>

datatype sw_opt = Optu cstr | OptU cstr | Optg cstr | OptG cstr | Opth

record sw_opts =
  uid :: u32
  gid :: u32
  uname :: "cstr option"
  gname :: "cstr option"

fun sw_options :: "sw_opt list \<Rightarrow> sw_opts \<Rightarrow> sw_opts option" where
  "sw_options [] opt = Some opt"
| "sw_options (Optu arg # as) opt = sw_options as (opt\<lparr>uid := of_int (atoi arg)\<rparr>)"
| "sw_options (OptU arg # as) opt = sw_options as (opt\<lparr>uname := Some arg\<rparr>)"
| "sw_options (Optg arg # as) opt = sw_options as (opt\<lparr>gid := of_int (atoi arg)\<rparr>)"
| "sw_options (OptG arg # as) opt = sw_options as (opt\<lparr>gname := Some arg\<rparr>)"
| "sw_options (Opth # as) opt = None"

text \<open>A name, when given, replaces the number.\<close>

definition by_name :: "(cstr \<Rightarrow> u32 option) \<Rightarrow> cstr option \<Rightarrow> u32 \<Rightarrow> u32 option" where
  "by_name db nm v = (case nm of None \<Rightarrow> Some v | Some nm \<Rightarrow> db nm)"

definition swrap_main ::
  "(cstr \<Rightarrow> u32 option) \<Rightarrow> (cstr \<Rightarrow> u32 option) \<Rightarrow> kernel \<Rightarrow> sw_opt list \<Rightarrow> cstr list \<Rightarrow> call list \<times> fate" where
  "swrap_main getpwnam getgrnam k opts args = (
     case sw_options opts \<lparr>uid = -1, gid = -1, uname = None, gname = None\<rparr> of None \<Rightarrow> ([], Exited 1)
     | Some opt \<Rightarrow> (case by_name getpwnam (uname opt) (uid opt) of None \<Rightarrow> ([], Exited 2)
     | Some u \<Rightarrow> (case by_name getgrnam (gname opt) (gid opt) of None \<Rightarrow> ([], Exited 3)
     | Some g \<Rightarrow>
         if u = -1 \<or> g = -1 \<or> args = [] then ([], Exited 1)
         else if \<not> can_setgid k g then ([Setgid g False], Exited 4)
         else if \<not> can_setuid k u then ([Setgid g True, Setuid u False], Exited 5)
         else let (tr, ft) = do_exec k 6 args in ([Setgid g True, Setuid u True] @ tr, ft))))"

subsection \<open>sexecp\<close>

record sx_opts =
  sx_port :: int
  sx_host :: "cstr option"
  sx_uid :: int
  sx_gid :: int

text \<open>The options and the words from the first one that is none.\<close>

fun sexecp_options :: "cstr list \<Rightarrow> sx_opts \<Rightarrow> sx_opts \<times> cstr list" where
  "sexecp_options [] opt = (opt, [])"
| "sexecp_options (a # as) opt = (
     if a = bytes ''-p'' then (case as of [] \<Rightarrow> (opt, []) | v # as \<Rightarrow> sexecp_options as (opt\<lparr>sx_port := atoi v\<rparr>))
     else if a = bytes ''-u'' then (case as of [] \<Rightarrow> (opt, []) | v # as \<Rightarrow> sexecp_options as (opt\<lparr>sx_uid := atoi v\<rparr>))
     else if a = bytes ''-g'' then (case as of [] \<Rightarrow> (opt, []) | v # as \<Rightarrow> sexecp_options as (opt\<lparr>sx_gid := atoi v\<rparr>))
     else (opt, a # as))"

text \<open>The child of a connection, with the exit statuses of the program.\<close>

definition drop_exec :: "kernel \<Rightarrow> int \<Rightarrow> int \<Rightarrow> int \<Rightarrow> sx_opts \<Rightarrow> int \<Rightarrow> cstr list \<Rightarrow> call list \<times> fate" where
  "drop_exec k st1 st2 st3 opt fd cmd = (
     let g = of_int (sx_gid opt); u = of_int (sx_uid opt);
         trg = (if sx_gid opt \<ge> 0 then [Setgid g (can_setgid k g)] else []);
         tru = (if sx_uid opt \<ge> 0 then [Setuid u (can_setuid k u)] else []) in
     if sx_gid opt \<ge> 0 \<and> \<not> can_setgid k g then (trg, Exited st1)
     else if sx_uid opt \<ge> 0 \<and> \<not> can_setuid k u then (trg @ tru, Exited st2)
     else let (tr, ft) = do_exec k st3 cmd in (trg @ tru @ [Dup2 fd 0, Dup2 fd 1, Dup2 fd 2, Close fd] @ tr, ft))"

text \<open>The loop over the connections: for each what \<^verbatim>\<open>accept\<close> gives, and whether this process is the child that \<^verbatim>\<open>fork\<close> makes.\<close>

fun sexecp_loop :: "kernel \<Rightarrow> sx_opts \<Rightarrow> cstr list \<Rightarrow> (int option \<times> bool) list \<Rightarrow> call list \<times> fate" where
  "sexecp_loop k opt cmd [] = ([], Waits)"
| "sexecp_loop k opt cmd ((None, _) # cs) = ([], Exited 0)"
| "sexecp_loop k opt cmd ((Some cfd, child) # cs) = (
     if child then drop_exec k 4 5 5 opt cfd cmd
     else let (tr, ft) = sexecp_loop k opt cmd cs in (Close cfd # tr, ft))"

text \<open>\<open>sk\<close>, \<open>so\<close>, \<open>bd\<close>: whether \<^verbatim>\<open>socket\<close>, \<^verbatim>\<open>setsockopt\<close> and \<^verbatim>\<open>bind\<close> succeed.\<close>

definition sexecp_main :: "kernel \<Rightarrow> bool \<Rightarrow> bool \<Rightarrow> (int \<Rightarrow> bool) \<Rightarrow> (int option \<times> bool) list \<Rightarrow> cstr list \<Rightarrow> call list \<times> fate" where
  "sexecp_main k sk so bd conns args = (
     case sexecp_options args \<lparr>sx_port = 8199, sx_host = None, sx_uid = -1, sx_gid = -1\<rparr> of (opt, cmd) \<Rightarrow>
     if cmd = [] then ([], Exited 1)
     else if \<not> sk then ([], Exited 2)
     else if \<not> so then ([], Exited 3)
     else if \<not> bd (sx_port opt) then ([], Exited 4)
     else sexecp_loop k opt cmd conns)"

subsection \<open>sxncat\<close>

fun sxncat_options :: "cstr list \<Rightarrow> sx_opts \<Rightarrow> sx_opts \<times> cstr list" where
  "sxncat_options [] opt = (opt, [])"
| "sxncat_options (a # as) opt = (
     if a = bytes ''-p'' then (case as of [] \<Rightarrow> (opt, []) | v # as \<Rightarrow> sxncat_options as (opt\<lparr>sx_port := atoi v\<rparr>))
     else if a = bytes ''-s'' then (case as of [] \<Rightarrow> (opt, []) | v # as \<Rightarrow> sxncat_options as (opt\<lparr>sx_host := Some v\<rparr>))
     else if a = bytes ''-u'' then (case as of [] \<Rightarrow> (opt, []) | v # as \<Rightarrow> sxncat_options as (opt\<lparr>sx_uid := atoi v\<rparr>))
     else if a = bytes ''-g'' then (case as of [] \<Rightarrow> (opt, []) | v # as \<Rightarrow> sxncat_options as (opt\<lparr>sx_gid := atoi v\<rparr>))
     else (opt, a # as))"

datatype forked = Child | Parent | Failed

text \<open>\<open>sfd\<close> is the descriptor of the socket, \<open>resolve\<close> the two look-ups of a host, \<open>conn\<close> whether \<^verbatim>\<open>connect\<close> succeeds.\<close>

definition sxncat_main ::
  "kernel \<Rightarrow> int option \<Rightarrow> (cstr \<Rightarrow> u32 option) \<Rightarrow> (u32 \<Rightarrow> int \<Rightarrow> bool) \<Rightarrow> forked \<Rightarrow> cstr list \<Rightarrow> call list \<times> fate" where
  "sxncat_main k sfd resolve conn fk args = (
     case sxncat_options args \<lparr>sx_port = -1, sx_host = None, sx_uid = -1, sx_gid = -1\<rparr> of (opt, cmd) \<Rightarrow>
     (case sx_host opt of None \<Rightarrow> ([], Exited 1)
      | Some host \<Rightarrow>
          if cmd = [] \<or> sx_port opt < 0 then ([], Exited 1)
          else (case sfd of None \<Rightarrow> ([], Exited 2)
            | Some sfd \<Rightarrow> (case resolve host of None \<Rightarrow> ([], Exited 3)
              | Some addr \<Rightarrow>
                  if \<not> conn addr (sx_port opt) then ([Close sfd], Exited 4)
                  else (case fk of Child \<Rightarrow> drop_exec k 5 6 7 opt sfd cmd
                    | Failed \<Rightarrow> ([Close sfd], Exited 8)
                    | Parent \<Rightarrow> ([Close sfd], Exited 0))))))"

subsection \<open>Properties\<close>

text \<open>The changes of identity in a trace.\<close>

fun identity :: "call \<Rightarrow> bool" where
  "identity (Setgid _ _) = True"
| "identity (Setuid _ _) = True"
| "identity _ = False"

definition asked :: "sx_opts \<Rightarrow> call list" where
  "asked opt = (if sx_gid opt \<ge> 0 then [Setgid (of_int (sx_gid opt)) True] else [])
     @ (if sx_uid opt \<ge> 0 then [Setuid (of_int (sx_uid opt)) True] else [])"

lemma drop_exec_runs:
  "drop_exec k st1 st2 st3 opt fd cmd = (tr, Runs c) \<Longrightarrow> filter identity tr = asked opt \<and> c = cmd \<and> tr \<noteq> [] \<and> last tr = Exec cmd"
  by (auto simp: drop_exec_def do_exec_def asked_def Let_def split: if_splits)

lemma sexecp_loop_runs:
  "sexecp_loop k opt cmd conns = (tr, Runs c) \<Longrightarrow> filter identity tr = asked opt \<and> c = cmd \<and> tr \<noteq> [] \<and> last tr = Exec cmd"
proof (induction k opt cmd conns arbitrary: tr rule: sexecp_loop.induct)
  case (3 k opt cmd cfd child cs)
  then show ?case
    using drop_exec_runs [of k 4 5 5 opt cfd cmd tr c] by (cases "sexecp_loop k opt cmd cs") (auto split: if_splits)
qed auto


text \<open>A system that allows everything.\<close>

definition free_kernel :: kernel where
  "free_kernel = \<lparr>can_setgid = (\<lambda>g. True), can_setuid = (\<lambda>u. True), can_exec = (\<lambda>c. True)\<rparr>"


end
