(* ===== verification/Systems.thy ===== *)
theory Systems
  imports Prelude
begin

text \<open>
  The interface between the programs that are step relations and what is said about all of their interleavings: a relation, an
  invariant its steps keep, a measure they decrease and the states they are meant to end in. Every run is then bounded by the
  measure of its first state, a run that cannot go on is one that has ended, and every run can be completed.
\<close>

locale step_system =
  fixes step :: "'s \<Rightarrow> 's \<Rightarrow> bool" and inv :: "'s \<Rightarrow> bool"
  assumes keeps: "inv s \<Longrightarrow> step s s' \<Longrightarrow> inv s'"
begin

lemma run_inv: "(step ^^ k) s s' \<Longrightarrow> inv s \<Longrightarrow> inv s'"
  by (induction k arbitrary: s') (auto dest: keeps)

lemma reach_inv: "step\<^sup>*\<^sup>* s s' \<Longrightarrow> inv s \<Longrightarrow> inv s'"
  using run_inv by (metis rtranclp_power)

end

locale ending_system = step_system +
  fixes weight :: "'s \<Rightarrow> nat" and ended :: "'s \<Rightarrow> bool"
  assumes sinks: "inv s \<Longrightarrow> step s s' \<Longrightarrow> weight s' < weight s"
    and moves: "inv s \<Longrightarrow> \<not> ended s \<Longrightarrow> \<exists>s'. step s s'"
begin

lemma run_bound: "(step ^^ k) s s' \<Longrightarrow> inv s \<Longrightarrow> k + weight s' \<le> weight s"
proof (induction k arbitrary: s')
  case (Suc k)
  then obtain t where t: "(step ^^ k) s t" "step t s'" by auto
  then show ?case using Suc.IH [OF t(1)] sinks [OF run_inv [OF t(1) Suc.prems(2)] t(2)] Suc.prems(2) by linarith
qed simp

lemma stuck_ended: "step\<^sup>*\<^sup>* s s' \<Longrightarrow> inv s \<Longrightarrow> \<nexists>t. step s' t \<Longrightarrow> ended s'"
  using moves reach_inv by blast

lemma completes: "inv s \<Longrightarrow> \<exists>s'. step\<^sup>*\<^sup>* s s' \<and> ended s'"
proof (induction "weight s" arbitrary: s rule: less_induct)
  case less
  show ?case
  proof (cases "ended s")
    case False
    then obtain t where t: "step s t" using moves less.prems by blast
    then obtain s' where "step\<^sup>*\<^sup>* t s'" "ended s'" using less.hyps [OF sinks [OF less.prems t]] keeps [OF less.prems t] by blast
    then show ?thesis using t by (meson converse_rtranclp_into_rtranclp)
  qed auto
qed

end

subsection \<open>Systems with few states\<close>

text \<open>Where the states that can be reached are few enough to be listed, evaluation decides whether the list is closed under the steps, every
  step lowers the weight, and the states without a step are the ones meant to be last.\<close>

fun explore :: "('s \<Rightarrow> 's list) \<Rightarrow> nat \<Rightarrow> 's list \<Rightarrow> 's list \<Rightarrow> 's list" where
  "explore succs 0 seen todo = seen"
| "explore succs (Suc n) seen [] = seen"
| "explore succs (Suc n) seen (s # todo) =
     (if s \<in> set seen then explore succs n seen todo else explore succs n (s # seen) (succs s @ todo))"

definition sound_list :: "('s \<Rightarrow> 's list) \<Rightarrow> ('s \<Rightarrow> nat) \<Rightarrow> ('s \<Rightarrow> bool) \<Rightarrow> 's list \<Rightarrow> bool" where
  "sound_list succs weight ended S \<longleftrightarrow> list_all (\<lambda>s. list_all (\<lambda>t. t \<in> set S \<and> weight t < weight s) (succs s)
     \<and> (succs s = [] \<longrightarrow> ended s)) S"

lemma sound_list_ends:
  assumes "sound_list succs weight ended S"
  shows "ending_system (\<lambda>s t. t \<in> set (succs s)) (\<lambda>s. s \<in> set S) weight ended"
proof (unfold_locales, goal_cases)
  case (3 s)
  then show ?case using assms by (cases "succs s") (auto simp: sound_list_def list_all_iff)
qed (use assms in \<open>auto simp: sound_list_def list_all_iff\<close>)

end
