(* ===== verification/AioTest.thy ===== *)
theory AioTest
  imports Systems "HOL-Library.Multiset"
begin

text \<open>
  \<^verbatim>\<open>eventfd-aio-test.c\<close>: a file is written and read back by asynchronous requests whose completions are announced on an event
  descriptor. The kernel is what its manual pages say: a submitted request completes at any later time, in any order, with an
  error or with any number of the bytes asked for; a completion puts an event into the ring of the context and then adds one to
  the descriptor; \<^verbatim>\<open>poll\<close> without a timeout returns when the descriptor is readable or with an error, a read takes the counter,
  \<^verbatim>\<open>io_getevents\<close> hands out some of the events in the ring and no more than asked for. Completions interleave with the steps of the
  program in any way.
\<close>

definition TESTFILE_SIZE :: nat where "TESTFILE_SIZE = 4096 * 5200"
definition IORTX_SIZE :: nat where "IORTX_SIZE = 1024 * 4"
definition NUM_EVENTS :: nat where "NUM_EVENTS = 128"

definition IOCB_CMD_PREAD :: u16 where "IOCB_CMD_PREAD = 0"
definition IOCB_CMD_PWRITE :: u16 where "IOCB_CMD_PWRITE = 1"
definition IOCB_CMD_PREADV :: u16 where "IOCB_CMD_PREADV = 7"
definition IOCB_CMD_PWRITEV :: u16 where "IOCB_CMD_PWRITEV = 8"
definition IOCB_FLAG_RESFD :: u32 where "IOCB_FLAG_RESFD = 1"

record iocb =
  aio_data :: u64
  aio_key :: u32
  aio_reserved1 :: u32
  aio_lio_opcode :: u16
  aio_reqprio :: u16
  aio_fildes :: u32
  aio_buf :: u64
  aio_nbytes :: u64
  aio_offset :: u64
  aio_reserved2 :: u64
  aio_flags :: u32
  aio_resfd :: u32

record io_event =
  ev_data :: u64
  ev_obj :: u64
  ev_res :: int
  ev_res2 :: int

definition iocb_zero :: iocb where
  "iocb_zero = \<lparr>aio_data = 0, aio_key = 0, aio_reserved1 = 0, aio_lio_opcode = 0, aio_reqprio = 0, aio_fildes = 0, aio_buf = 0,
     aio_nbytes = 0, aio_offset = 0, aio_reserved2 = 0, aio_flags = 0, aio_resfd = 0\<rparr>"

definition asyio_prep_preadv :: "int \<Rightarrow> u64 \<Rightarrow> int \<Rightarrow> int \<Rightarrow> int \<Rightarrow> iocb" where
  "asyio_prep_preadv fd iov nr_segs offset afd = iocb_zero\<lparr>aio_fildes := of_int fd, aio_lio_opcode := IOCB_CMD_PREADV,
     aio_reqprio := 0, aio_buf := iov, aio_nbytes := of_int nr_segs, aio_offset := of_int offset,
     aio_flags := IOCB_FLAG_RESFD, aio_resfd := of_int afd\<rparr>"

definition asyio_prep_pwritev :: "int \<Rightarrow> u64 \<Rightarrow> int \<Rightarrow> int \<Rightarrow> int \<Rightarrow> iocb" where
  "asyio_prep_pwritev fd iov nr_segs offset afd = iocb_zero\<lparr>aio_fildes := of_int fd, aio_lio_opcode := IOCB_CMD_PWRITEV,
     aio_reqprio := 0, aio_buf := iov, aio_nbytes := of_int nr_segs, aio_offset := of_int offset,
     aio_flags := IOCB_FLAG_RESFD, aio_resfd := of_int afd\<rparr>"

definition asyio_prep_pread :: "int \<Rightarrow> u64 \<Rightarrow> int \<Rightarrow> int \<Rightarrow> int \<Rightarrow> iocb" where
  "asyio_prep_pread fd buf nr_segs offset afd = iocb_zero\<lparr>aio_fildes := of_int fd, aio_lio_opcode := IOCB_CMD_PREAD,
     aio_reqprio := 0, aio_buf := buf, aio_nbytes := of_int nr_segs, aio_offset := of_int offset,
     aio_flags := IOCB_FLAG_RESFD, aio_resfd := of_int afd\<rparr>"

definition asyio_prep_pwrite :: "int \<Rightarrow> u64 \<Rightarrow> int \<Rightarrow> int \<Rightarrow> int \<Rightarrow> iocb" where
  "asyio_prep_pwrite fd buf nr_segs offset afd = iocb_zero\<lparr>aio_fildes := of_int fd, aio_lio_opcode := IOCB_CMD_PWRITE,
     aio_reqprio := 0, aio_buf := buf, aio_nbytes := of_int nr_segs, aio_offset := of_int offset,
     aio_flags := IOCB_FLAG_RESFD, aio_resfd := of_int afd\<rparr>"

text \<open>The answer of \<^verbatim>\<open>poll\<close> and whether it reported \<^verbatim>\<open>POLLIN\<close>.\<close>

definition waitasync :: "int \<Rightarrow> bool \<Rightarrow> int" where
  "waitasync r pollin = (if r < 0 then -1 else if \<not> pollin then 0 else 1)"

subsection \<open>The state of a test\<close>

text \<open>The program is about to wait, or it has events to collect, or it has returned. The context of the kernel is the submitted
  requests and the ring; \<open>aio_count\<close> is the counter of the event descriptor, \<open>aio_file\<close> the file and \<open>aio_mem\<close> the static buffer of the
  test. \<open>aio_i\<close> is the loop variable and \<open>got\<close> collects the events.\<close>

datatype aio_pc = AWait | AReap nat | ARet int

record aio =
  aio_pc :: aio_pc
  aio_n :: nat
  aio_i :: nat
  pend :: "iocb list"
  ring :: "io_event list"
  got :: "io_event list"
  aio_count :: nat
  aio_file :: "u8 list"
  aio_mem :: "u8 list"

definition aio_requests :: "(int \<Rightarrow> u64 \<Rightarrow> int \<Rightarrow> int \<Rightarrow> int \<Rightarrow> iocb) \<Rightarrow> int \<Rightarrow> u64 \<Rightarrow> int \<Rightarrow> nat \<Rightarrow> iocb list" where
  "aio_requests prep fd buf afd n = map (\<lambda>i. (prep fd buf (int IORTX_SIZE) ((int n - int i - 1) * int IORTX_SIZE) afd)
     \<lparr>aio_data := of_nat i + 1\<rparr>) [0..<n]"

text \<open>The requests are allocated and submitted: \<open>alloc\<close> says whether both allocations succeed, \<open>r\<close> is the answer of
  \<^verbatim>\<open>io_submit\<close>, which takes the first \<open>r\<close> requests.\<close>

definition aio_start :: "bool \<Rightarrow> int \<Rightarrow> iocb list \<Rightarrow> u8 list \<Rightarrow> u8 list \<Rightarrow> aio" where
  "aio_start alloc r reqs dat mem =
     (let s = \<lparr>aio_pc = AWait, aio_n = length reqs, aio_i = 0, pend = take (nat r) reqs, ring = [], got = [], aio_count = 0,
        aio_file = dat, aio_mem = mem\<rparr>
      in if \<not> alloc \<or> r \<le> 0 then s\<lparr>aio_pc := ARet (-1), pend := []\<rparr> else s)"

definition aio_pattern :: "u8 list" where
  "aio_pattern = map (\<lambda>i. of_nat i AND 0xff) [0..<IORTX_SIZE]"

definition test_read :: "bool \<Rightarrow> int \<Rightarrow> int \<Rightarrow> u64 \<Rightarrow> nat \<Rightarrow> int \<Rightarrow> u8 list \<Rightarrow> u8 list \<Rightarrow> aio" where
  "test_read alloc r fd buf rng afd dat mem =
     aio_start alloc r (aio_requests asyio_prep_pread fd buf afd (rng div IORTX_SIZE)) dat mem"

definition test_write :: "bool \<Rightarrow> int \<Rightarrow> int \<Rightarrow> u64 \<Rightarrow> nat \<Rightarrow> int \<Rightarrow> u8 list \<Rightarrow> aio" where
  "test_write alloc r fd buf rng afd dat =
     aio_start alloc r (aio_requests asyio_prep_pwrite fd buf afd (rng div IORTX_SIZE)) dat aio_pattern"

text \<open>The kernel carries out a request: \<open>m\<close> bytes, or nothing with an error.\<close>

definition put_bytes :: "nat \<Rightarrow> u8 list \<Rightarrow> u8 list \<Rightarrow> u8 list" where
  "put_bytes i bs mem = take i mem @ bs @ drop (i + length bs) mem"

definition carry_out :: "iocb \<Rightarrow> nat \<Rightarrow> aio \<Rightarrow> aio" where
  "carry_out q m s =
     (if aio_lio_opcode q = IOCB_CMD_PWRITE
      then s\<lparr>aio_file := put_bytes (unat (aio_offset q)) (take m (aio_mem s)) (aio_file s)\<rparr>
      else if aio_lio_opcode q = IOCB_CMD_PREAD
      then s\<lparr>aio_mem := put_bytes 0 (take m (drop (unat (aio_offset q)) (aio_file s))) (aio_mem s)\<rparr>
      else s)"

text \<open>The pass of the outer loop: what the read of the descriptor does, and where the loops go on.\<close>

definition aio_next :: "nat \<Rightarrow> aio \<Rightarrow> aio_pc" where
  "aio_next eval s = (if eval > 0 then AReap eval else if aio_i s < aio_n s then AWait else ARet (int (aio_n s)))"

definition read_afd :: "aio \<Rightarrow> aio" where
  "read_afd s = s\<lparr>aio_count := 0, aio_pc := aio_next (aio_count s) s\<rparr>"

definition getevents_nr :: "nat \<Rightarrow> nat" where
  "getevents_nr eval = (if eval > NUM_EVENTS then NUM_EVENTS else eval)"

definition take_events :: "nat \<Rightarrow> nat \<Rightarrow> aio \<Rightarrow> aio" where
  "take_events eval r s =
     (let s' = s\<lparr>ring := drop r (ring s), got := got s @ take r (ring s), aio_i := aio_i s + r\<rparr>
      in s'\<lparr>aio_pc := aio_next (eval - r) s'\<rparr>)"

inductive aio_step :: "aio \<Rightarrow> aio \<Rightarrow> bool" where
  kernel: "pend s = xs @ q # ys \<Longrightarrow> m \<le> unat (aio_nbytes q) \<Longrightarrow> res = int m \<or> res < 0 \<and> m = 0 \<Longrightarrow>
    aio_step s ((carry_out q m s)\<lparr>pend := xs @ ys,
      ring := ring s @ [\<lparr>ev_data = aio_data q, ev_obj = obj, ev_res = res, ev_res2 = res2\<rparr>], aio_count := aio_count s + 1\<rparr>)"
| wait: "aio_pc s = AWait \<Longrightarrow> waitasync r (aio_count s > 0) = 1 \<Longrightarrow> aio_step s (read_afd s)"
| reap: "aio_pc s = AReap eval \<Longrightarrow> 0 < r \<Longrightarrow> r \<le> getevents_nr eval \<Longrightarrow> r \<le> length (ring s) \<Longrightarrow> aio_step s (take_events eval r s)"

text \<open>What else can happen without an effect: \<^verbatim>\<open>poll\<close> fails, so that the read finds nothing and sets \<^verbatim>\<open>eval\<close> to zero, or
  \<^verbatim>\<open>io_getevents\<close> returns nothing from an empty ring. The loop then repeats itself.\<close>

inductive aio_idle :: "aio \<Rightarrow> aio \<Rightarrow> bool" where
  idle_wait: "aio_pc s = AWait \<Longrightarrow> waitasync r pollin = -1 \<Longrightarrow> aio_count s = 0 \<Longrightarrow> aio_idle s (read_afd s)"
| idle_reap: "aio_pc s = AReap eval \<Longrightarrow> ring s = [] \<Longrightarrow> aio_idle s s"

subsection \<open>\<^verbatim>\<open>main\<close>\<close>

text \<open>The descriptors or errors that \<^verbatim>\<open>eventfd\<close>, \<^verbatim>\<open>io_setup\<close> and \<^verbatim>\<open>open\<close> return decide the exit status. The two tests run one after
  the other on the file, whose first bytes after \<^verbatim>\<open>ftruncate\<close> are \<open>dat\<close>; their results are not looked at. A relation: main can end
  with this status, this file and this read buffer.\<close>

record aio_env =
  env_afd :: int
  env_setup :: int
  env_fd :: int
  env_wbuf :: u64
  env_rbuf :: u64

inductive aio_main :: "aio_env \<Rightarrow> u8 list \<Rightarrow> int \<Rightarrow> aio option \<Rightarrow> aio option \<Rightarrow> bool" for e dat where
  no_eventfd: "env_afd e = -1 \<Longrightarrow> aio_main e dat 2 None None"
| no_setup: "env_afd e \<noteq> -1 \<Longrightarrow> env_setup e \<noteq> 0 \<Longrightarrow> aio_main e dat 3 None None"
| no_open: "env_afd e \<noteq> -1 \<Longrightarrow> env_setup e = 0 \<Longrightarrow> env_fd e = -1 \<Longrightarrow> aio_main e dat 4 None None"
| tests: "env_afd e \<noteq> -1 \<Longrightarrow> env_setup e = 0 \<Longrightarrow> env_fd e \<noteq> -1 \<Longrightarrow>
    rw \<le> int (TESTFILE_SIZE div IORTX_SIZE) \<Longrightarrow> rr \<le> int (TESTFILE_SIZE div IORTX_SIZE) \<Longrightarrow>
    aio_step\<^sup>*\<^sup>* (test_write aw rw (env_fd e) (env_wbuf e) TESTFILE_SIZE (env_afd e) dat) w \<Longrightarrow> aio_pc w = ARet kw \<Longrightarrow>
    aio_step\<^sup>*\<^sup>* (test_read ar rr (env_fd e) (env_rbuf e) TESTFILE_SIZE (env_afd e) (aio_file w) (replicate IORTX_SIZE 0)) r \<Longrightarrow>
    aio_pc r = ARet kr \<Longrightarrow> aio_main e dat 0 (Some w) (Some r)"

subsection \<open>Every completion is collected\<close>

text \<open>What holds when the first \<open>k\<close> of the requests \<open>reqs\<close> have been submitted: a completion is in the ring or collected, and the
  events in the ring are the ones counted by the descriptor and by \<^verbatim>\<open>eval\<close> together.\<close>

definition aio_ok :: "iocb list \<Rightarrow> nat \<Rightarrow> aio \<Rightarrow> bool" where
  "aio_ok reqs k s \<longleftrightarrow> aio_n s = length reqs \<and> set (pend s) \<subseteq> set reqs
     \<and> mset (map aio_data (pend s)) + mset (map ev_data (ring s @ got s)) = mset (map aio_data (take k reqs))
     \<and> length (got s) = aio_i s
     \<and> (case aio_pc s of AWait \<Rightarrow> aio_count s = length (ring s) \<and> aio_i s < length reqs
        | AReap e \<Rightarrow> 0 < e \<and> e + aio_count s = length (ring s)
        | ARet x \<Rightarrow> aio_count s = length (ring s) \<and> x = int (length reqs) \<and> length reqs \<le> aio_i s)"

definition aio_weight :: "aio \<Rightarrow> nat" where
  "aio_weight s = 3 * length (pend s) + length (ring s) + aio_count s"

definition aio_ended :: "aio \<Rightarrow> bool" where
  "aio_ended s \<longleftrightarrow> aio_pc s = ARet (int (aio_n s)) \<and> pend s = [] \<and> ring s = [] \<and> aio_count s = 0"

lemma carry_out_fields [simp]:
  "aio_pc (carry_out q m s) = aio_pc s" "aio_n (carry_out q m s) = aio_n s" "aio_i (carry_out q m s) = aio_i s"
  "got (carry_out q m s) = got s" "ring (carry_out q m s) = ring s" "pend (carry_out q m s) = pend s"
  by (simp_all add: carry_out_def)

lemma aio_ok_count:
  assumes "aio_ok reqs k s" "k \<le> length reqs"
  shows "length (pend s) + length (ring s) + aio_i s = k"
proof -
  have "mset (map aio_data (pend s)) + mset (map ev_data (ring s @ got s)) = mset (map aio_data (take k reqs))" "length (got s) = aio_i s"
    using assms(1) by (auto simp: aio_ok_def)
  from arg_cong [OF this(1), of size] this(2) assms(2) show ?thesis by simp
qed

lemma aio_ok_step:
  assumes "aio_ok reqs k s" "aio_step s s'"
  shows "aio_ok reqs k s'"
  using assms(2)
proof cases
  case (kernel xs q ys m res obj res2)
  then show ?thesis using assms(1) by (cases "aio_pc s") (auto simp: aio_ok_def)
next
  case (wait r)
  then show ?thesis using assms(1) by (auto simp: aio_ok_def read_afd_def aio_next_def)
next
  case (reap e r)
  have m: "mset (map ev_data (drop r (ring s))) + mset (map ev_data (take r (ring s))) = mset (map ev_data (ring s))"
    by (metis add.commute append_take_drop_id map_append mset_append)
  then show ?thesis using assms(1) reap
    by (auto simp: aio_ok_def take_events_def aio_next_def Let_def getevents_nr_def ac_simps split: if_splits)
qed

lemma aio_step_weight:
  assumes "aio_ok reqs k s" "aio_step s s'"
  shows "aio_weight s' < aio_weight s"
  using assms(2)
proof cases
  case (wait r)
  then show ?thesis by (auto simp: aio_weight_def read_afd_def waitasync_def split: if_splits)
qed (auto simp: aio_weight_def take_events_def Let_def)

lemma aio_ok_moves:
  assumes ok: "aio_ok reqs (length reqs) s" and "\<not> aio_ended s"
  shows "\<exists>s'. aio_step s s'"
proof (cases "pend s")
  case (Cons q qs)
  then show ?thesis using aio_step.kernel [of s "[]" q qs 0 0] by auto
next
  case Nil
  have c: "length (ring s) + aio_i s = length reqs" using aio_ok_count [OF ok] Nil by simp
  show ?thesis
  proof (cases "aio_pc s")
    case AWait
    then have "0 < aio_count s" using ok c by (auto simp: aio_ok_def)
    then show ?thesis using aio_step.wait [OF AWait, of 1] by (auto simp: waitasync_def)
  next
    case (AReap e)
    then have "1 \<le> getevents_nr e" "1 \<le> length (ring s)" using ok by (auto simp: aio_ok_def getevents_nr_def NUM_EVENTS_def)
    then show ?thesis using aio_step.reap [OF AReap, of 1] by auto
  next
    case (ARet x)
    then have "length reqs \<le> aio_i s" using ok by (simp add: aio_ok_def)
    then have "length (ring s) = 0" using c by linarith
    then have "ring s = []" by simp
    then show ?thesis using ARet ok assms(2) Nil by (auto simp: aio_ok_def aio_ended_def)
  qed
qed

interpretation aio_part: step_system aio_step "aio_ok reqs k" for reqs k
  by unfold_locales (rule aio_ok_step)

interpretation aio_all: ending_system aio_step "aio_ok reqs (length reqs)" aio_weight aio_ended for reqs
  by unfold_locales (auto intro: aio_step_weight aio_ok_moves)

lemma aio_start_ok:
  assumes "0 < r" "r \<le> int (length reqs)"
  shows "aio_ok reqs (nat r) (aio_start True r reqs dat mem)"
  using assms set_take_subset [of "nat r" reqs] by (auto simp: aio_start_def aio_ok_def Let_def)

lemma length_requests [simp]: "length (aio_requests prep fd buf afd n) = n"
  by (simp add: aio_requests_def)

lemma requests_data: "map aio_data (aio_requests prep fd buf afd n) = map (\<lambda>i. of_nat i + 1) [0..<n]"
  by (simp add: aio_requests_def)

subsection \<open>What is written and read\<close>

lemma length_put_bytes [simp]: "i + length bs \<le> length f \<Longrightarrow> length (put_bytes i bs f) = length f"
  by (simp add: put_bytes_def)

lemma nth_put_bytes:
  assumes "i + length bs \<le> length f" "x < length f"
  shows "put_bytes i bs f ! x = (if i \<le> x \<and> x < i + length bs then bs ! (x - i) else f ! x)"
  using assms by (auto simp: put_bytes_def nth_append min_def)

lemma length_pattern [simp]: "length aio_pattern = IORTX_SIZE"
  by (simp add: aio_pattern_def)

lemma pattern_nth: "j < IORTX_SIZE \<Longrightarrow> aio_pattern ! j = of_nat j"
proof -
  have m: "(255::u8) = - 1" by simp
  have "w AND (255::u8) = w" for w unfolding m by simp
  then show "j < IORTX_SIZE \<Longrightarrow> aio_pattern ! j = of_nat j" by (simp add: aio_pattern_def)
qed

lemma pattern_period: "(of_nat (b * IORTX_SIZE + j) :: u8) = of_nat j"
proof -
  have "(of_nat IORTX_SIZE :: u8) = 0" by (simp add: IORTX_SIZE_def word_eq_iff_unsigned)
  then show ?thesis by simp
qed

text \<open>The \<open>b\<close>-th block of the file holds the pattern.\<close>

definition patched :: "u8 list \<Rightarrow> nat \<Rightarrow> bool" where
  "patched f b \<longleftrightarrow> (\<forall>j<IORTX_SIZE. f ! (b * IORTX_SIZE + j) = of_nat j)"

lemma block_offset:
  assumes "c * IORTX_SIZE \<le> b * IORTX_SIZE + j" "b * IORTX_SIZE + j < c * IORTX_SIZE + m" "m \<le> IORTX_SIZE" "j < IORTX_SIZE"
  shows "b = c \<and> j < m"
proof -
  have "(b * IORTX_SIZE + j) div IORTX_SIZE = b" using assms(4) by simp
  moreover have "(b * IORTX_SIZE + j) div IORTX_SIZE = c"
    using assms(1-3) by (intro div_nat_eqI) (auto simp: mult.commute)
  ultimately show ?thesis using assms(2) by simp
qed

lemma block_bound: "b < n \<Longrightarrow> j < IORTX_SIZE \<Longrightarrow> b * IORTX_SIZE + j < n * IORTX_SIZE"
  using mult_le_mono1 [of "Suc b" n IORTX_SIZE] by simp

lemma put_block:
  assumes "length f = n * IORTX_SIZE" "c < n" "m \<le> IORTX_SIZE" "b < n" "b = c \<and> m = IORTX_SIZE \<or> patched f b"
  shows "patched (put_bytes (c * IORTX_SIZE) (take m aio_pattern) f) b"
  unfolding patched_def
proof (intro allI impI)
  fix j assume j: "j < IORTX_SIZE"
  have l: "c * IORTX_SIZE + length (take m aio_pattern) \<le> length f" using mult_le_mono1 [of "Suc c" n IORTX_SIZE] assms(1-3) by simp
  have x: "b * IORTX_SIZE + j < length f" using block_bound [OF assms(4) j] assms(1) by simp
  show "put_bytes (c * IORTX_SIZE) (take m aio_pattern) f ! (b * IORTX_SIZE + j) = of_nat j"
    using block_offset [of c b j m] assms(3,5) j unfolding nth_put_bytes [OF l x]
    by (auto simp: pattern_nth patched_def min_def)
qed

lemma all_patched:
  assumes "length f = n * IORTX_SIZE" "\<And>b. b < n \<Longrightarrow> patched f b"
  shows "f = map of_nat [0..<n * IORTX_SIZE]"
proof (rule nth_equalityI)
  fix x assume x: "x < length f"
  define b where "b = x div IORTX_SIZE"
  define j where "j = x mod IORTX_SIZE"
  have e: "x = b * IORTX_SIZE + j" "j < IORTX_SIZE" by (simp_all add: b_def j_def IORTX_SIZE_def)
  have "b < n" using x assms(1) by (simp add: b_def less_mult_imp_div_less)
  then have "f ! x = of_nat j" using assms(2) e by (auto simp: patched_def)
  then show "f ! x = map of_nat [0..<n * IORTX_SIZE] ! x" using x assms(1) pattern_period [of b j] e(1) by simp
qed (simp add: assms(1))

lemma preps_differ: "asyio_prep_pread \<noteq> asyio_prep_pwrite"
proof
  assume "asyio_prep_pread = asyio_prep_pwrite"
  then have "aio_lio_opcode (asyio_prep_pread 0 0 0 0 0) = aio_lio_opcode (asyio_prep_pwrite 0 0 0 0 0)" by simp
  then show False by (simp add: asyio_prep_pread_def asyio_prep_pwrite_def IOCB_CMD_PREAD_def IOCB_CMD_PWRITE_def)
qed

text \<open>The \<open>i\<close>-th request.\<close>

lemma request_nth:
  assumes "q \<in> set (aio_requests prep fd buf afd n)" "n * IORTX_SIZE < 2 ^ 63"
    and "prep = asyio_prep_pread \<or> prep = asyio_prep_pwrite"
  obtains i where "i < n" "aio_data q = of_nat i + 1" "unat (aio_offset q) = (n - i - 1) * IORTX_SIZE" "unat (aio_nbytes q) = IORTX_SIZE"
    "aio_lio_opcode q = (if prep = asyio_prep_pwrite then IOCB_CMD_PWRITE else IOCB_CMD_PREAD)"
proof -
  obtain i where i: "i < n" "q = (prep fd buf (int IORTX_SIZE) ((int n - int i - 1) * int IORTX_SIZE) afd)\<lparr>aio_data := of_nat i + 1\<rparr>"
    using assms(1) by (auto simp: aio_requests_def)
  have o: "(int n - int i - 1) * int IORTX_SIZE = int ((n - i - 1) * IORTX_SIZE)" using i(1) by (simp add: of_nat_diff)
  have "(n - i - 1) * IORTX_SIZE \<le> n * IORTX_SIZE" by (rule mult_le_mono1) simp
  then have "(n - i - 1) * IORTX_SIZE < 2 ^ 64" by (rule le_less_trans) (use assms(2) in simp)
  then have u: "unat (word_of_int (int ((n - i - 1) * IORTX_SIZE)) :: u64) = (n - i - 1) * IORTX_SIZE"
    by (simp only: of_int_of_nat_eq unat_of_nat) simp
  have k: "unat (word_of_int (int IORTX_SIZE) :: u64) = IORTX_SIZE" by (simp add: IORTX_SIZE_def)
  show thesis
  proof (rule that [of i])
    show "unat (aio_offset q) = (n - i - 1) * IORTX_SIZE" "unat (aio_nbytes q) = IORTX_SIZE"
      using assms(3) u k unfolding i(2) o by (auto simp: asyio_prep_pread_def asyio_prep_pwrite_def)
  qed (use assms(3) i preps_differ in \<open>auto simp: asyio_prep_pread_def asyio_prep_pwrite_def\<close>)
qed

text \<open>A request whose event carries the whole length has written its block, and no later one takes that back.\<close>

definition written :: "iocb list \<Rightarrow> aio \<Rightarrow> bool" where
  "written reqs s \<longleftrightarrow> set (pend s) \<subseteq> set reqs \<and> aio_mem s = aio_pattern \<and> length (aio_file s) = length reqs * IORTX_SIZE
     \<and> (\<forall>e\<in>set (ring s @ got s). ev_res e = int IORTX_SIZE \<longrightarrow>
          (\<exists>i<length reqs. ev_data e = of_nat i + 1 \<and> patched (aio_file s) (length reqs - i - 1)))"

definition read_back :: "iocb list \<Rightarrow> aio \<Rightarrow> bool" where
  "read_back reqs s \<longleftrightarrow> set (pend s) \<subseteq> set reqs \<and> length (aio_mem s) = IORTX_SIZE
     \<and> aio_file s = map of_nat [0..<length reqs * IORTX_SIZE]
     \<and> (\<forall>e\<in>set (ring s @ got s). ev_res e = int IORTX_SIZE \<longrightarrow> aio_mem s = map of_nat [0..<IORTX_SIZE])"

lemma written_step:
  assumes reqs: "reqs = aio_requests asyio_prep_pwrite fd buf afd n" and n: "n * IORTX_SIZE < 2 ^ 63"
    and w: "written reqs s" and "aio_step s s'"
  shows "written reqs s'"
  using assms(4)
proof cases
  case (kernel xs q ys m res obj res2)
  have ln: "length reqs = n" by (simp add: reqs)
  from kernel(2) w reqs have "q \<in> set (aio_requests asyio_prep_pwrite fd buf afd n)" by (auto simp: written_def)
  from request_nth [OF this n] obtain i where i: "i < n" "aio_data q = of_nat i + 1" "unat (aio_offset q) = (n - i - 1) * IORTX_SIZE"
    "unat (aio_nbytes q) = IORTX_SIZE" "aio_lio_opcode q = IOCB_CMD_PWRITE" by auto
  let ?c = "n - i - 1"
  have f: "aio_file s' = put_bytes (?c * IORTX_SIZE) (take m aio_pattern) (aio_file s)" "aio_mem s' = aio_pattern"
    using kernel(1) i(3,5) w by (simp_all add: carry_out_def written_def)
  have lf: "length (aio_file s) = n * IORTX_SIZE" using w ln by (simp add: written_def)
  have c: "?c < n" "m \<le> IORTX_SIZE" using i kernel(3) by auto
  have keep: "patched (aio_file s') b" if "b < n" "b = ?c \<and> m = IORTX_SIZE \<or> patched (aio_file s) b" for b
    using put_block [OF lf c that] by (simp add: f)
  have l: "length (aio_file s') = n * IORTX_SIZE"
    using mult_le_mono1 [of "Suc ?c" n IORTX_SIZE] c unfolding f(1) by (subst length_put_bytes) (use lf in auto)
  have sub: "set (pend s') \<subseteq> set reqs" using w kernel(1,2) by (auto simp: written_def)
  have ev: "set (ring s' @ got s') = insert \<lparr>ev_data = aio_data q, ev_obj = obj, ev_res = res, ev_res2 = res2\<rparr> (set (ring s @ got s))"
    using kernel(1) by auto
  have old: "\<exists>i<n. ev_data e = of_nat i + 1 \<and> patched (aio_file s') (n - i - 1)"
    if e: "e \<in> set (ring s @ got s)" "ev_res e = int IORTX_SIZE" for e
  proof -
    obtain k where "k < n" "ev_data e = of_nat k + 1" "patched (aio_file s) (n - k - 1)" using w e ln by (auto simp: written_def)
    then show ?thesis using keep [of "n - k - 1"] by (intro exI [of _ k]) auto
  qed
  have new: "\<exists>k<n. aio_data q = of_nat k + 1 \<and> patched (aio_file s') (n - k - 1)" if "res = int IORTX_SIZE"
    using keep [of ?c] i(1,2) c kernel(4) that by (intro exI [of _ i]) auto
  show ?thesis unfolding written_def ln ev using sub f(2) l old new by (auto simp del: set_append)
next
  case (wait r)
  then show ?thesis using w by (simp add: written_def read_afd_def)
next
  case (reap e r)
  have "set (drop r (ring s) @ got s @ take r (ring s)) = set (ring s @ got s)"
    by (metis append_take_drop_id set_append sup_commute sup_left_commute)
  then show ?thesis using w reap(1) by (simp add: written_def take_events_def Let_def)
qed

lemma read_back_step:
  assumes reqs: "reqs = aio_requests asyio_prep_pread fd buf afd n" and n: "n * IORTX_SIZE < 2 ^ 63"
    and w: "read_back reqs s" and "aio_step s s'"
  shows "read_back reqs s'"
  using assms(4)
proof cases
  case (kernel xs q ys m res obj res2)
  have ln: "length reqs = n" by (simp add: reqs)
  from kernel(2) w reqs have q: "q \<in> set (aio_requests asyio_prep_pread fd buf afd n)" by (auto simp: read_back_def)
  from request_nth [OF q n] preps_differ obtain i where i: "i < n" "unat (aio_offset q) = (n - i - 1) * IORTX_SIZE"
    "unat (aio_nbytes q) = IORTX_SIZE" "aio_lio_opcode q = IOCB_CMD_PREAD" by auto
  let ?c = "n - i - 1" and ?f = "map of_nat [0..<n * IORTX_SIZE] :: u8 list" and ?p = "map of_nat [0..<IORTX_SIZE] :: u8 list"
  have m: "m \<le> IORTX_SIZE" using i kernel(3) by auto
  have b: "?c * IORTX_SIZE + IORTX_SIZE \<le> n * IORTX_SIZE"
    using mult_le_mono1 [of "Suc ?c" n IORTX_SIZE] i(1) by (simp add: Suc_leI add.commute)
  have blk: "take m (drop (?c * IORTX_SIZE) ?f) = take m ?p"
  proof (rule nth_equalityI)
    fix j assume "j < length (take m (drop (?c * IORTX_SIZE) ?f))"
    then have "j < m" by simp
    then show "take m (drop (?c * IORTX_SIZE) ?f) ! j = take m ?p ! j" using m b pattern_period [of ?c j] by simp
  qed (use m b in simp)
  have f: "aio_file s' = ?f" "aio_mem s' = put_bytes 0 (take m ?p) (aio_mem s)"
    using kernel(1) i(2,4) w ln blk by (simp_all add: carry_out_def read_back_def IOCB_CMD_PREAD_def IOCB_CMD_PWRITE_def)
  have lm: "length (aio_mem s) = IORTX_SIZE" using w by (simp add: read_back_def)
  have keep: "aio_mem s' = ?p" if "m = IORTX_SIZE \<or> aio_mem s = ?p"
    using that lm m unfolding f(2) by (auto simp: put_bytes_def)
  have ev: "set (ring s' @ got s') = insert \<lparr>ev_data = aio_data q, ev_obj = obj, ev_res = res, ev_res2 = res2\<rparr> (set (ring s @ got s))"
    using kernel(1) by auto
  have old: "aio_mem s' = ?p" if "e \<in> set (ring s @ got s)" "ev_res e = int IORTX_SIZE" for e
    using w that keep by (auto simp: read_back_def)
  have new: "aio_mem s' = ?p" if "res = int IORTX_SIZE" using keep kernel(4) that by auto
  have "set (pend s') \<subseteq> set reqs" "length (aio_mem s') = IORTX_SIZE"
    using w kernel(1,2) lm m unfolding f(2) by (auto simp: read_back_def put_bytes_def)
  then show ?thesis unfolding read_back_def ln ev using f(1) old new by (auto simp del: set_append)
next
  case (wait r)
  then show ?thesis using w by (simp add: read_back_def read_afd_def)
next
  case (reap e r)
  have "set (drop r (ring s) @ got s @ take r (ring s)) = set (ring s @ got s)"
    by (metis append_take_drop_id set_append sup_commute sup_left_commute)
  then show ?thesis using w reap(1) by (simp add: read_back_def take_events_def Let_def)
qed

interpretation aio_wr: step_system aio_step
  "\<lambda>s. n * IORTX_SIZE < 2 ^ 63 \<longrightarrow> written (aio_requests asyio_prep_pwrite fd buf afd n) s" for fd buf afd n
  by unfold_locales (use written_step in blast)

interpretation aio_rd: step_system aio_step
  "\<lambda>s. n * IORTX_SIZE < 2 ^ 63 \<longrightarrow> read_back (aio_requests asyio_prep_pread fd buf afd n) s" for fd buf afd n
  by unfold_locales (use read_back_step in blast)

lemma all_written:
  assumes "aio_ok (aio_requests asyio_prep_pwrite fd buf afd n) n s" "written (aio_requests asyio_prep_pwrite fd buf afd n) s"
    and "aio_ended s" "n < 2 ^ 64" and full: "\<And>e. e \<in> set (got s) \<Longrightarrow> ev_res e = int IORTX_SIZE"
  shows "aio_file s = map of_nat [0..<n * IORTX_SIZE]"
proof (rule all_patched)
  fix b assume b: "b < n"
  let ?i = "n - b - 1"
  have "mset (map ev_data (got s)) = mset (map (\<lambda>i. of_nat i + 1) [0..<n])"
    using assms(1,3) by (simp add: aio_ok_def aio_ended_def flip: requests_data [of asyio_prep_pwrite fd buf afd])
  then have "set (map ev_data (got s)) = set (map (\<lambda>i. of_nat i + 1) [0..<n])" by (rule mset_eq_setD)
  moreover have "of_nat ?i + 1 \<in> set (map (\<lambda>i. of_nat i + 1 :: u64) [0..<n])" unfolding set_map by (rule imageI) (use b in simp)
  ultimately have "of_nat ?i + 1 \<in> ev_data ` set (got s)" unfolding set_map by metis
  then obtain e where e: "e \<in> set (got s)" "ev_data e = of_nat ?i + 1" by (elim imageE) simp
  then obtain k where k: "k < n" "ev_data e = of_nat k + 1" "patched (aio_file s) (n - k - 1)"
    using assms(2) full [OF e(1)] by (auto simp: written_def)
  have "(of_nat k :: u64) = of_nat ?i" using k(2) e(2) by simp
  then have "k = ?i" using k(1) b assms(4) by (simp add: of_nat_inverse word_unat_eq_iff unat_of_nat)
  then show "patched (aio_file s) b" using k(3) b by simp
qed (use assms(2) in \<open>simp add: written_def\<close>)

subsection \<open>Returning\<close>

lemma aio_returned: "aio_step\<^sup>*\<^sup>* s s' \<Longrightarrow> aio_pc s = ARet x \<Longrightarrow> pend s = [] \<Longrightarrow> s' = s"
  by (induction rule: converse_rtranclp_induct) (auto elim: aio_step.cases)

lemma test_outcome:
  assumes "aio_step\<^sup>*\<^sup>* (aio_start a r reqs dat mem) s" "aio_pc s = ARet x" "x \<noteq> -1" "r \<le> int (length reqs)"
  shows "a \<and> 0 < r \<and> aio_ok reqs (length reqs) s \<and> aio_ended s"
proof (cases "a \<and> 0 < r")
  case False
  then have "aio_pc (aio_start a r reqs dat mem) = ARet (-1)" "pend (aio_start a r reqs dat mem) = []"
    by (auto simp: aio_start_def Let_def)
  then show ?thesis using aio_returned [OF assms(1)] assms(2,3) by auto
next
  case True
  then have ok: "aio_ok reqs (nat r) s" using aio_start_ok [of r reqs dat mem] aio_part.reach_inv [OF assms(1)] assms(4) by auto
  have "nat r \<le> length reqs" using assms(4) by simp
  moreover have c: "length (pend s) + length (ring s) + aio_i s = nat r" using aio_ok_count [OF ok] assms(4) by simp
  moreover have i: "length reqs \<le> aio_i s" "x = int (length reqs)" "aio_n s = length reqs" "aio_count s = length (ring s)"
    using ok assms(2) by (auto simp: aio_ok_def)
  ultimately have e: "nat r = length reqs" "length (pend s) = 0" "length (ring s) = 0" by linarith+
  then show ?thesis using True ok assms(2) i by (simp add: aio_ended_def)
qed

text \<open>There is always a run in which the kernel carries out every request in full.\<close>

definition aio_full :: "aio \<Rightarrow> bool" where
  "aio_full s \<longleftrightarrow> (\<forall>e\<in>set (ring s @ got s). ev_res e = int IORTX_SIZE)"

lemma aio_full_moves:
  assumes ok: "aio_ok reqs (length reqs) s" and f: "aio_full s" and q: "\<And>q. q \<in> set reqs \<Longrightarrow> unat (aio_nbytes q) = IORTX_SIZE"
    and "\<not> aio_ended s"
  shows "\<exists>s'. aio_step s s' \<and> aio_full s'"
proof (cases "pend s")
  case (Cons x xs)
  then have "unat (aio_nbytes x) = IORTX_SIZE" using ok q by (auto simp: aio_ok_def)
  then have "aio_step s ((carry_out x IORTX_SIZE s)\<lparr>pend := xs,
      ring := ring s @ [\<lparr>ev_data = aio_data x, ev_obj = 0, ev_res = int IORTX_SIZE, ev_res2 = 0\<rparr>], aio_count := aio_count s + 1\<rparr>)"
      (is "aio_step s ?t")
    using aio_step.kernel [of s "[]" x xs IORTX_SIZE "int IORTX_SIZE" 0 0] Cons by simp
  moreover have "aio_full ?t" using f by (auto simp: aio_full_def)
  ultimately show ?thesis by blast
next
  case Nil
  obtain s' where s': "aio_step s s'" using aio_ok_moves [OF ok assms(4)] by auto
  then have "set (ring s' @ got s') \<subseteq> set (ring s @ got s)"
  proof cases
    case (reap e r)
    then show ?thesis using set_take_subset [of r "ring s"] set_drop_subset [of r "ring s"] by (auto simp: take_events_def Let_def)
  qed (use Nil in \<open>auto simp: read_afd_def\<close>)
  then have "aio_full s'" using f by (auto simp: aio_full_def)
  then show ?thesis using s' by auto
qed

interpretation aio_good: ending_system "\<lambda>s s'. aio_step s s' \<and> aio_full s'"
  "\<lambda>s. aio_ok reqs (length reqs) s \<and> aio_full s \<and> (\<forall>q\<in>set reqs. unat (aio_nbytes q) = IORTX_SIZE)" aio_weight aio_ended for reqs
  by unfold_locales (auto intro: aio_ok_step aio_step_weight aio_full_moves)

interpretation aio_stop: ending_system aio_step "aio_ok reqs k" aio_weight "\<lambda>s. \<nexists>t. aio_step s t" for reqs k
  by unfold_locales (auto intro: aio_step_weight)

lemma good_run:
  assumes "0 < n" "n * IORTX_SIZE < 2 ^ 63" "prep = asyio_prep_pread \<or> prep = asyio_prep_pwrite"
  shows "\<exists>s. aio_step\<^sup>*\<^sup>* (aio_start True (int n) (aio_requests prep fd buf afd n) dat mem) s \<and> aio_pc s = ARet (int n) \<and> aio_full s"
proof -
  let ?reqs = "aio_requests prep fd buf afd n" and ?step = "\<lambda>s s'. aio_step s s' \<and> aio_full s'"
  let ?s0 = "aio_start True (int n) ?reqs dat mem" and ?good = "\<lambda>s. aio_ok ?reqs (length ?reqs) s \<and> aio_full s
    \<and> (\<forall>q\<in>set ?reqs. unat (aio_nbytes q) = IORTX_SIZE)"
  have "aio_full ?s0" by (simp add: aio_full_def aio_start_def Let_def)
  moreover have "aio_ok ?reqs (length ?reqs) ?s0" using aio_start_ok [of "int n" ?reqs] assms(1) by simp
  moreover have "\<forall>q\<in>set ?reqs. unat (aio_nbytes q) = IORTX_SIZE" using request_nth [OF _ assms(2,3)] by metis
  ultimately have g: "?good ?s0" by blast
  obtain s where s: "?step\<^sup>*\<^sup>* ?s0 s" "aio_ended s" using aio_good.completes [OF g] by blast
  then have "?good s" using aio_good.reach_inv [OF s(1) g] by blast
  moreover have "aio_step\<^sup>*\<^sup>* ?s0 s" using s(1) by (rule rtranclp_mono [THEN predicate2D, rotated]) auto
  moreover have "aio_pc s = ARet (int n)" using s(2) \<open>?good s\<close> by (simp add: aio_ended_def aio_ok_def)
  ultimately show ?thesis by blast
qed

subsection \<open>Properties\<close>

text \<open>C33. When the kernel takes all requests of a test, then however the completions interleave with the program and
  however many events the kernel hands out at a time, the test never blocks for ever: it takes at most three steps for each
  request, it can only stop by returning the number of requests, and by then it has collected one event for each of them,
  with the ring and the descriptor left empty for the next test.\<close>

theorem aio_tests_end:
  assumes "0 < n" "(aio_step ^^ k) (aio_start True (int n) (aio_requests prep fd buf afd n) dat mem) s"
  shows "k \<le> 3 * n \<and> (\<exists>s'. aio_step\<^sup>*\<^sup>* s s' \<and> aio_ended s')
    \<and> ((\<nexists>s'. aio_step s s') \<longrightarrow> aio_pc s = ARet (int n) \<and> ring s = [] \<and> aio_count s = 0
        \<and> mset (map ev_data (got s)) = mset (map (\<lambda>i. of_nat i + 1) [0..<n]))"
proof -
  let ?reqs = "aio_requests prep fd buf afd n"
  let ?s0 = "aio_start True (int n) ?reqs dat mem"
  have i0: "aio_ok ?reqs (length ?reqs) ?s0" using aio_start_ok [of "int n" ?reqs] assms(1) by simp
  then have i: "aio_ok ?reqs (length ?reqs) s" using aio_part.run_inv [OF assms(2)] by simp
  have "aio_weight ?s0 = 3 * n" using assms(1) by (simp add: aio_weight_def aio_start_def Let_def)
  then have b: "k \<le> 3 * n" using aio_all.run_bound [OF assms(2) i0] by simp
  have r: "aio_step\<^sup>*\<^sup>* ?s0 s" using assms(2) by (rule relpowp_imp_rtranclp)
  have "aio_pc s = ARet (int n) \<and> ring s = [] \<and> aio_count s = 0 \<and> mset (map ev_data (got s)) = mset (map (\<lambda>i. of_nat i + 1) [0..<n])"
    if "\<nexists>s'. aio_step s s'"
    using aio_all.stuck_ended [OF r i0 that] i
    by (simp add: aio_ended_def aio_ok_def flip: requests_data [of prep fd buf afd])
  then show ?thesis using b aio_all.completes [OF i] by blast
qed

theorem aio_tests_end_witness:
  "(0::nat) < 2 \<and> (\<exists>s. (aio_step ^^ 1) (aio_start True (int 2) (aio_requests asyio_prep_pread 3 0 4 2) [] []) s
     \<and> (\<exists>s'. aio_step\<^sup>*\<^sup>* s s' \<and> aio_ended s'))"
proof -
  let ?s0 = "aio_start True (int 2) (aio_requests asyio_prep_pread 3 0 4 2) [] []"
  have "\<not> aio_ended ?s0" by (simp add: aio_ended_def aio_start_def Let_def)
  moreover have "aio_ok (aio_requests asyio_prep_pread 3 0 4 2) 2 ?s0"
    using aio_start_ok [of "int 2" "aio_requests asyio_prep_pread 3 0 4 2"] by simp
  ultimately obtain s where s: "aio_step ?s0 s" using aio_all.moves [of "aio_requests asyio_prep_pread 3 0 4 2" ?s0] by auto
  then have "(aio_step ^^ 1) ?s0 s" by auto
  then show ?thesis using aio_tests_end [of 2 1 asyio_prep_pread 3 0 4 "[]" "[]" s] by auto
qed

text \<open>C34. If \<^verbatim>\<open>main\<close> gets past its set-up, neither test returns -1 and the kernel reports every request as fully
  carried out, then the program exits with status 0, both tests have returned the number of requests and collected an event for
  each, the byte at every offset of the file is the offset modulo 256 and the read buffer holds one period of it, whatever
  the order of the completions and whatever the file held before.\<close>

theorem aio_main_copies:
  assumes "aio_main e dat st (Some w) (Some r)" "length dat = TESTFILE_SIZE" "aio_pc w \<noteq> ARet (-1)" "aio_pc r \<noteq> ARet (-1)"
    and "\<And>x. x \<in> set (got w @ got r) \<Longrightarrow> ev_res x = int IORTX_SIZE"
  shows "st = 0 \<and> aio_pc w = ARet 5200 \<and> length (got w) = 5200 \<and> aio_pc r = ARet 5200 \<and> length (got r) = 5200
    \<and> aio_file w = map of_nat [0..<TESTFILE_SIZE] \<and> aio_file r = aio_file w \<and> aio_mem r = map of_nat [0..<IORTX_SIZE]"
  using assms(1)
proof cases
  case (tests rw rr aw kw ar kr)
  have n: "TESTFILE_SIZE div IORTX_SIZE = 5200" "5200 * IORTX_SIZE = TESTFILE_SIZE" "5200 * IORTX_SIZE < 2 ^ 63"
    by (simp_all add: TESTFILE_SIZE_def IORTX_SIZE_def)
  let ?wq = "aio_requests asyio_prep_pwrite (env_fd e) (env_wbuf e) (env_afd e) 5200"
  let ?rq = "aio_requests asyio_prep_pread (env_fd e) (env_rbuf e) (env_afd e) 5200"
  let ?w0 = "aio_start aw rw ?wq dat aio_pattern" and ?r0 = "aio_start ar rr ?rq (aio_file w) (replicate IORTX_SIZE 0)"
  have w: "aio_step\<^sup>*\<^sup>* ?w0 w" and r: "aio_step\<^sup>*\<^sup>* ?r0 r"
    using tests by (simp_all add: test_write_def test_read_def n(1))
  have wo: "aw \<and> 0 < rw \<and> aio_ok ?wq (length ?wq) w \<and> aio_ended w"
    by (rule test_outcome [OF w tests(8)]) (use tests assms(3) n(1) in auto)
  have ro: "ar \<and> 0 < rr \<and> aio_ok ?rq (length ?rq) r \<and> aio_ended r"
    by (rule test_outcome [OF r tests(10)]) (use tests assms(4) n(1) in auto)
  have "written ?wq ?w0"
    using assms(2) set_take_subset [of "nat rw" ?wq] wo n(2) by (auto simp: written_def aio_start_def Let_def)
  then have ww: "written ?wq w" using aio_wr.reach_inv [OF w] n(3) by auto
  have f: "aio_file w = map of_nat [0..<5200 * IORTX_SIZE]"
    using all_written [of "env_fd e" "env_wbuf e" "env_afd e" 5200 w] wo ww assms(5) by simp
  have "read_back ?rq ?r0"
    using set_take_subset [of "nat rr" ?rq] ro f by (auto simp: read_back_def aio_start_def Let_def)
  then have rr: "read_back ?rq r" using aio_rd.reach_inv [OF r] n(3) by auto
  have g: "length (got w) = 5200" "length (got r) = 5200" "aio_pc w = ARet 5200" "aio_pc r = ARet 5200"
    using wo ro aio_ok_count [of ?wq 5200 w] aio_ok_count [of ?rq 5200 r] by (auto simp: aio_ok_def aio_ended_def)
  then have "got r \<noteq> []" by auto
  then have "aio_mem r = map of_nat [0..<IORTX_SIZE]" using rr assms(5) by (cases "got r") (auto simp: read_back_def)
  then show ?thesis using tests(1) g f rr n(2) by (simp add: read_back_def)
qed

theorem aio_main_copies_witness:
  "\<exists>w r. aio_main \<lparr>env_afd = 3, env_setup = 0, env_fd = 4, env_wbuf = 0x1000, env_rbuf = 0x2000\<rparr> (replicate TESTFILE_SIZE 0) 0 (Some w) (Some r)
     \<and> aio_file w = map of_nat [0..<TESTFILE_SIZE] \<and> aio_mem r = map of_nat [0..<IORTX_SIZE]"
proof -
  let ?e = "\<lparr>env_afd = 3, env_setup = 0, env_fd = 4, env_wbuf = 0x1000, env_rbuf = 0x2000\<rparr> :: aio_env"
  have n: "TESTFILE_SIZE div IORTX_SIZE = 5200" "5200 * IORTX_SIZE < 2 ^ 63" by (simp_all add: TESTFILE_SIZE_def IORTX_SIZE_def)
  obtain w where w: "aio_step\<^sup>*\<^sup>* (test_write True 5200 4 0x1000 TESTFILE_SIZE 3 (replicate TESTFILE_SIZE 0)) w" "aio_pc w = ARet 5200" "aio_full w"
    using good_run [of 5200 asyio_prep_pwrite 4 "0x1000" 3 "replicate TESTFILE_SIZE 0" aio_pattern] n(2) by (auto simp: test_write_def n(1))
  obtain r where r: "aio_step\<^sup>*\<^sup>* (test_read True 5200 4 0x2000 TESTFILE_SIZE 3 (aio_file w) (replicate IORTX_SIZE 0)) r" "aio_pc r = ARet 5200" "aio_full r"
    using good_run [of 5200 asyio_prep_pread 4 "0x2000" 3 "aio_file w" "replicate IORTX_SIZE 0"] n(2) by (auto simp: test_read_def n(1))
  have m: "aio_main ?e (replicate TESTFILE_SIZE 0) 0 (Some w) (Some r)"
    by (rule aio_main.tests [where rw = 5200 and rr = 5200 and aw = True and ar = True and kw = 5200 and kr = 5200]) (use w r n(1) in simp_all)
  from aio_main_copies [OF m] w(2,3) r(2,3) show ?thesis using m by (auto simp: aio_full_def)
qed

text \<open>When \<^verbatim>\<open>io_submit\<close> takes only some of the requests, which its manual page allows, the test can
  never return: whatever the kernel does, every state reached is inside the loop, and every run comes to a state where the program
  waits on the descriptor for completions of requests that were never submitted.\<close>

theorem aio_partial_submit:
  assumes "0 < r" "r < int (length reqs)" "aio_step\<^sup>*\<^sup>* (aio_start True r reqs dat mem) s"
  shows "(\<nexists>x. aio_pc s = ARet x) \<and> (\<exists>s'. aio_step\<^sup>*\<^sup>* s s' \<and> (\<nexists>t. aio_step s' t) \<and> aio_pc s' = AWait \<and> aio_count s' = 0
    \<and> aio_i s' = nat r)"
proof -
  have never: "\<nexists>x. aio_pc t = ARet x" "aio_ok reqs (nat r) t" if "aio_step\<^sup>*\<^sup>* (aio_start True r reqs dat mem) t" for t
  proof -
    show ok: "aio_ok reqs (nat r) t" using aio_start_ok [of r reqs dat mem] aio_part.reach_inv [OF that] assms(1,2) by auto
    have "nat r < length reqs" using assms(1,2) by simp
    moreover from this have "aio_i t \<le> nat r" using aio_ok_count [OF ok] by simp
    ultimately have "\<not> length reqs \<le> aio_i t" by simp
    then show "\<nexists>x. aio_pc t = ARet x" using ok by (auto simp: aio_ok_def)
  qed
  obtain s' where s': "aio_step\<^sup>*\<^sup>* s s'" "\<nexists>t. aio_step s' t" using aio_stop.completes [OF never(2) [OF assms(3)]] by auto
  have t: "aio_step\<^sup>*\<^sup>* (aio_start True r reqs dat mem) s'" using assms(3) s'(1) by (rule rtranclp_trans)
  have ok: "aio_ok reqs (nat r) s'" by (rule never(2) [OF t])
  have p: "pend s' = []" using s'(2) aio_step.kernel [of s' "[]" _ _ 0 0] by (cases "pend s'") auto
  have a: "aio_pc s' = AWait"
  proof (cases "aio_pc s'")
    case (AReap e)
    then have "1 \<le> getevents_nr e" "1 \<le> length (ring s')" using ok by (auto simp: aio_ok_def getevents_nr_def NUM_EVENTS_def)
    then show ?thesis using s'(2) aio_step.reap [OF AReap, of 1] by auto
  qed (use never(1) [OF t] in auto)
  then have "aio_count s' = 0" using s'(2) aio_step.wait [OF a, of 1] by (fastforce simp: waitasync_def)
  then show ?thesis using never(1) [OF assms(3)] s' a p ok aio_ok_count [OF ok] assms(2) by (auto simp: aio_ok_def)
qed

end
