(* ===== verification/StackTest.thy ===== *)
theory StackTest
  imports Systems
begin

text \<open>
  \<^verbatim>\<open>pth-stk-test.c\<close>: \<^verbatim>\<open>main\<close> starts \<open>nt\<close> threads on stacks it has mapped itself, and whenever one has put itself on the list
  \<^verbatim>\<open>tlst\<close> joins it, unmaps its stack and, until \<open>nt_total\<close> threads have been started, starts it again on a new one. The list is
  guarded by \<^verbatim>\<open>mtx\<close>; \<^verbatim>\<open>cnd\<close> wakes \<^verbatim>\<open>main\<close>. The step relation interleaves the threads with \<^verbatim>\<open>main\<close>, one step for each
  section between the operations on the mutex. A thread that holds the mutex releases it before another step is taken, so it
  only has to be free of \<^verbatim>\<open>main\<close>.
\<close>

definition NT_MAX :: nat where "NT_MAX = 400"
definition NT_TOTAL :: nat where "NT_TOTAL = 1200"

text \<open>Where \<^verbatim>\<open>main\<close> is: creating the \<open>i\<close>-th thread, asleep in \<^verbatim>\<open>pthread_cond_wait\<close>, woken but without the mutex, at the head
  of the inner loop with the mutex, past the last line, or gone through \<^verbatim>\<open>exit(1)\<close>.\<close>

datatype mpc = MCreate nat | MWait | MWoken | MInner | MDone | MExit

text \<open>A thread is its index in \<^verbatim>\<open>tt\<close>. \<open>live\<close> are those started and not yet on \<^verbatim>\<open>tlst\<close>, \<open>mapped\<close> those whose stack is mapped.\<close>

record stk_state =
  mpc :: mpc
  tlst :: "nat list"
  live :: "nat list"
  mapped :: "nat set"
  completed :: nat
  running :: nat

definition stk_init :: stk_state where
  "stk_init = \<lparr>mpc = MCreate 0, tlst = [], live = [], mapped = {}, completed = 0, running = 0\<rparr>"

definition main_threads :: nat where
  "main_threads = (let nt = 128 in if nt > NT_MAX then NT_MAX else nt)"

text \<open>\<^verbatim>\<open>mmap\<close>, \<^verbatim>\<open>pthread_attr_setstack\<close> and \<^verbatim>\<open>pthread_create\<close>, when none of them fails.\<close>

definition start_thread :: "nat \<Rightarrow> stk_state \<Rightarrow> stk_state" where
  "start_thread t s = s\<lparr>mapped := insert t (mapped s), live := t # live s, running := running s + 1\<rparr>"

text \<open>The end of \<^verbatim>\<open>thread_proc\<close>: the thread puts itself on the list and signals.\<close>

definition thread_links :: "nat \<Rightarrow> stk_state \<Rightarrow> stk_state" where
  "thread_links t s = s\<lparr>live := remove1 t (live s), tlst := t # tlst s, mpc := (if mpc s = MWait then MWoken else mpc s)\<rparr>"

definition mtx_free :: "stk_state \<Rightarrow> bool" where
  "mtx_free s \<longleftrightarrow> mpc s \<noteq> MInner \<and> mpc s \<noteq> MDone \<and> mpc s \<noteq> MExit"

text \<open>The head of the outer loop.\<close>

definition outer_loop :: "stk_state \<Rightarrow> stk_state" where
  "outer_loop s = s\<lparr>mpc := (if running s > 0 then MWait else MDone)\<rparr>"

text \<open>The pass of the inner loop for a thread, up to the test of the total.\<close>

definition reap_thread :: "nat \<Rightarrow> nat list \<Rightarrow> stk_state \<Rightarrow> stk_state" where
  "reap_thread t ts s = s\<lparr>tlst := ts, mapped := mapped s - {t}, completed := completed s + 1, running := running s - 1\<rparr>"

inductive stk_step :: "nat \<Rightarrow> nat \<Rightarrow> stk_state \<Rightarrow> stk_state \<Rightarrow> bool" for nt nt_total where
  create: "mpc s = MCreate i \<Longrightarrow> i < nt \<Longrightarrow> stk_step nt nt_total s (start_thread i s\<lparr>mpc := MCreate (Suc i)\<rparr>)"
| create_fails: "mpc s = MCreate i \<Longrightarrow> i < nt \<Longrightarrow> stk_step nt nt_total s (s\<lparr>mpc := MExit\<rparr>)"
| lock: "mpc s = MCreate nt \<Longrightarrow> stk_step nt nt_total s (outer_loop (s\<lparr>completed := 0\<rparr>))"
| link: "t \<in> set (live s) \<Longrightarrow> mtx_free s \<Longrightarrow> stk_step nt nt_total s (thread_links t s)"
| relock: "mpc s = MWoken \<Longrightarrow> stk_step nt nt_total s (s\<lparr>mpc := MInner\<rparr>)"
| reap_last: "mpc s = MInner \<Longrightarrow> tlst s = t # ts \<Longrightarrow> completed s + 1 + (running s - 1) \<ge> nt_total \<Longrightarrow>
    stk_step nt nt_total s (reap_thread t ts s)"
| reap_restart: "mpc s = MInner \<Longrightarrow> tlst s = t # ts \<Longrightarrow> \<not> completed s + 1 + (running s - 1) \<ge> nt_total \<Longrightarrow>
    stk_step nt nt_total s (start_thread t (reap_thread t ts s))"
| restart_fails: "mpc s = MInner \<Longrightarrow> tlst s = t # ts \<Longrightarrow> \<not> completed s + 1 + (running s - 1) \<ge> nt_total \<Longrightarrow>
    stk_step nt nt_total s (reap_thread t ts s\<lparr>mpc := MExit\<rparr>)"
| no_more: "mpc s = MInner \<Longrightarrow> tlst s = [] \<Longrightarrow> stk_step nt nt_total s (outer_loop s)"

text \<open>A wake-up without a signal, which the wait allows. It only sends \<^verbatim>\<open>main\<close> round its loops.\<close>

inductive stk_spurious :: "stk_state \<Rightarrow> stk_state \<Rightarrow> bool" where
  spurious_wakeup: "mpc s = MWait \<Longrightarrow> stk_spurious s (s\<lparr>mpc := MWoken\<rparr>)"

subsection \<open>The invariant\<close>

text \<open>Every thread that counts as running is live or on the list, once, and these are the ones with a stack. While fewer than
  \<open>nt_total\<close> threads have been started, \<open>nt\<close> of them are running. If \<^verbatim>\<open>main\<close> sleeps with no thread left to wake it, then no thread has
  been joined yet.\<close>

definition stk_inv :: "nat \<Rightarrow> nat \<Rightarrow> stk_state \<Rightarrow> bool" where
  "stk_inv nt nt_total s \<longleftrightarrow> distinct (live s @ tlst s) \<and> mapped s = set (live s @ tlst s) \<and> mapped s \<subseteq> {..<nt}
     \<and> running s = length (live s @ tlst s) \<and> completed s + running s \<le> nt_total
     \<and> (case mpc s of MCreate i \<Rightarrow> i \<le> nt \<and> completed s = 0 \<and> running s = i \<and> mapped s \<subseteq> {..<i}
        | MWait \<Rightarrow> (running s = nt \<or> completed s + running s = nt_total) \<and> (live s = [] \<longrightarrow> completed s = 0 \<and> length (tlst s) = nt)
        | MExit \<Rightarrow> True
        | MDone \<Rightarrow> running s = 0 \<and> completed s = nt_total
        | _ \<Rightarrow> running s = nt \<or> completed s + running s = nt_total)"


definition stk_weight :: "nat \<Rightarrow> nat \<Rightarrow> stk_state \<Rightarrow> nat" where
  "stk_weight nt nt_total s = 10 * (nt_total - completed s - length (tlst s)) + 7 * length (tlst s)
     + (case mpc s of MCreate i \<Rightarrow> nt - i + 3 | MWoken \<Rightarrow> 2 | MInner \<Rightarrow> 1 | _ \<Rightarrow> 0)"

definition stk_ended :: "nat \<Rightarrow> nat \<Rightarrow> stk_state \<Rightarrow> bool" where
  "stk_ended nt nt_total s \<longleftrightarrow> mpc s = MExit \<or> mpc s = MDone \<and> completed s = nt_total \<and> running s = 0 \<and> mapped s = {}
     \<or> mpc s = MWait \<and> live s = [] \<and> completed s = 0 \<and> length (tlst s) = nt"

lemmas stk_ops = start_thread_def thread_links_def outer_loop_def reap_thread_def

lemma thread_links_inv:
  assumes "stk_inv nt nt_total s" "t \<in> set (live s)" "mtx_free s"
  shows "stk_inv nt nt_total (thread_links t s)"
proof -
  have d: "distinct (live s @ tlst s)" using assms(1) by (simp add: stk_inv_def)
  define L where "L = remove1 t (live s)"
  have L: "set L = set (live s) - {t}" "length (live s) = length L + 1" "distinct L"
    using assms(2) d length_pos_if_in_set [OF assms(2)] by (auto simp: L_def length_remove1)
  have e: "distinct (L @ t # tlst s)" "set (L @ t # tlst s) = set (live s @ tlst s)" "length (L @ t # tlst s) = length (live s @ tlst s)"
    using d L(1,3) assms(2) apply auto[2] using L(2) by simp
  have t: "thread_links t s = s\<lparr>live := L, tlst := t # tlst s, mpc := (if mpc s = MWait then MWoken else mpc s)\<rparr>"
    by (simp add: thread_links_def L_def)
  show ?thesis using assms(1,3) e unfolding stk_inv_def t mtx_free_def
    by (cases "mpc s") (clarsimp simp del: set_append length_append distinct_append; metis)+
qed

lemma stk_inv_step:
  assumes "stk_inv nt nt_total s \<and> 0 < nt \<and> nt \<le> nt_total" "stk_step nt nt_total s s'"
  shows "stk_inv nt nt_total s' \<and> 0 < nt \<and> nt \<le> nt_total"
  using assms(2)
proof cases
  case (link t)
  then show ?thesis using assms(1) thread_links_inv by blast
next
  case (create i)
  then show ?thesis using assms(1) by (auto simp: stk_inv_def start_thread_def)
next
  case lock
  then show ?thesis using assms(1) by (auto simp: stk_inv_def outer_loop_def)
next
  case (reap_restart t ts)
  then show ?thesis using assms(1) by (auto simp: stk_inv_def stk_ops)
next
  case no_more
  then show ?thesis using assms(1) by (auto simp: stk_inv_def stk_ops)
qed (use assms(1) in \<open>auto simp: stk_inv_def stk_ops\<close>)

lemma stk_step_weight:
  assumes "stk_inv nt nt_total s" "stk_step nt nt_total s s'"
  shows "stk_weight nt nt_total s' < stk_weight nt nt_total s"
proof -
  have b: "completed s + length (tlst s) \<le> nt_total" "mpc s \<noteq> MExit \<Longrightarrow> completed s + (length (tlst s) + length (live s)) \<le> nt_total"
    using assms(1) by (auto simp: stk_inv_def)
  from assms(2) show ?thesis
  proof cases
    case (link t)
    then have "0 < length (live s)" by auto
    moreover have "completed s + (length (tlst s) + length (live s)) \<le> nt_total" using b(2) link by (simp add: mtx_free_def)
    ultimately have "completed s + length (tlst s) < nt_total" by linarith
    then show ?thesis using link by (cases "mpc s") (auto simp: stk_weight_def thread_links_def mtx_free_def)
  qed (use b assms(1) in \<open>auto simp: stk_weight_def stk_ops stk_inv_def\<close>)
qed

lemma stk_moves:
  assumes "stk_inv nt nt_total s" "\<not> stk_ended nt nt_total s"
  shows "\<exists>s'. stk_step nt nt_total s s'"
proof (cases "mpc s")
  case (MCreate i)
  then have "i \<le> nt" using assms(1) by (simp add: stk_inv_def)
  then show ?thesis using stk_step.create [OF MCreate, of nt nt_total] stk_step.lock [of s nt] MCreate by (cases "i = nt") auto
next
  case MWait
  then obtain t where "t \<in> set (live s)" using assms by (cases "live s") (auto simp: stk_inv_def stk_ended_def)
  then show ?thesis using stk_step.link [of t s] MWait by (auto simp: mtx_free_def)
next
  case MInner
  then show ?thesis
    using stk_step.no_more [OF MInner] stk_step.reap_last [OF MInner] stk_step.reap_restart [OF MInner] by (cases "tlst s") blast+
qed (use assms stk_step.relock [of s] in \<open>auto simp: stk_inv_def stk_ended_def\<close>)

interpretation stk: ending_system "stk_step nt nt_total" "\<lambda>s. stk_inv nt nt_total s \<and> 0 < nt \<and> nt \<le> nt_total" "stk_weight nt nt_total"
  "stk_ended nt nt_total" for nt nt_total
  by unfold_locales (use stk_inv_step stk_step_weight stk_moves in blast)+

lemma stk_init_inv: "stk_inv nt nt_total stk_init"
  by (simp add: stk_inv_def stk_init_def)


text \<open>All threads can finish before \<^verbatim>\<open>main\<close> takes the mutex.\<close>

lemma all_linked:
  "i \<le> nt \<Longrightarrow> \<exists>s. (stk_step nt nt_total)\<^sup>*\<^sup>* stk_init s \<and> mpc s = MCreate i \<and> live s = [] \<and> length (tlst s) = i \<and> running s = i
     \<and> completed s = 0"
proof (induction i)
  case 0
  show ?case by (rule exI [of _ stk_init]) (simp add: stk_init_def)
next
  case (Suc i)
  then obtain s where s: "(stk_step nt nt_total)\<^sup>*\<^sup>* stk_init s" "mpc s = MCreate i" "live s = []" "length (tlst s) = i" "running s = i" "completed s = 0"
    by auto
  let ?s1 = "start_thread i s\<lparr>mpc := MCreate (Suc i)\<rparr>"
  have 1: "stk_step nt nt_total s ?s1" using stk_step.create [OF s(2)] Suc.prems by simp
  have 2: "stk_step nt nt_total ?s1 (thread_links i ?s1)" by (rule stk_step.link) (simp_all add: start_thread_def mtx_free_def)
  have "(stk_step nt nt_total)\<^sup>*\<^sup>* stk_init (thread_links i ?s1)" using s(1) 1 2 by (meson rtranclp.rtrancl_into_rtrancl)
  then show ?case using s by (intro exI [of _ "thread_links i ?s1"]) (simp add: start_thread_def thread_links_def)
qed

subsection \<open>Properties\<close>



text \<open>The third way exists: \<^verbatim>\<open>main\<close> waits before it has looked at the list, so if all 128 threads have signalled
  before it takes the mutex, nothing but a spurious wake-up makes it go on.\<close>

theorem stk_lost_wakeup:
  "\<exists>s. (stk_step main_threads NT_TOTAL)\<^sup>*\<^sup>* stk_init s \<and> (\<nexists>s'. stk_step main_threads NT_TOTAL s s')
     \<and> mpc s = MWait \<and> length (tlst s) = 128 \<and> completed s = 0"
proof -
  have n: "main_threads = 128" by (simp add: main_threads_def NT_MAX_def)
  obtain s where s: "(stk_step 128 NT_TOTAL)\<^sup>*\<^sup>* stk_init s" "mpc s = MCreate 128" "live s = []" "length (tlst s) = 128" "running s = 128"
    "completed s = 0" using all_linked [of 128 128 NT_TOTAL] by auto
  let ?t = "outer_loop (s\<lparr>completed := 0\<rparr>)"
  have "stk_step 128 NT_TOTAL s ?t" by (rule stk_step.lock) (rule s(2))
  with s(1) have "(stk_step 128 NT_TOTAL)\<^sup>*\<^sup>* stk_init ?t"
    by (rule rtranclp.rtrancl_into_rtrancl)
  moreover have "mpc ?t = MWait" "live ?t = []" "length (tlst ?t) = 128" "completed ?t = 0" using s by (simp_all add: outer_loop_def)
  moreover from this have "\<nexists>s'. stk_step 128 NT_TOTAL ?t s'" by (auto elim: stk_step.cases)
  ultimately show ?thesis unfolding n by blast
qed

end
