(* ===== verification/PingPong.thy ===== *)
theory PingPong
  imports Systems
begin

text \<open>
  \<^verbatim>\<open>pthread-lat-ctx.c\<close>: the time of a context switch is measured by two threads that wake each other over two pipes, as many
  times as a single thread could write and read a pipe in two seconds. The clock is a parameter, a pipe is the number of bytes
  in it and its capacity: a read blocks on an empty pipe, a write on a full one. System calls that may fail in the set-up are
  given by their results.
\<close>

definition MIN_TEST_TIME_US :: u64 where "MIN_TEST_TIME_US = 2000000"

definition getustime :: "u64 \<times> u64 \<Rightarrow> u64" where
  "getustime tm = fst tm * 1000000 + snd tm"

subsection \<open>\<^verbatim>\<open>get_base_switch_time\<close>\<close>

text \<open>One pass writes and reads a byte: the number of bytes in the pipe after it, \<open>None\<close> when the thread, which is alone on the
  pipe, blocks for ever.\<close>

definition write_read :: "nat \<Rightarrow> nat \<Rightarrow> nat option" where
  "write_read cap c = (if c < cap then Some (c + 1) else None) \<bind> (\<lambda>c. if 0 < c then Some (c - 1) else None)"

definition base_pass :: "nat \<Rightarrow> nat \<Rightarrow> nat option" where
  "base_pass cap c = foldM (\<lambda>_. write_read cap) [0..<10000] c"

text \<open>\<open>clk k\<close> is the \<open>k\<close>-th reading of the clock. The result is the number of passes, the elapsed time and the pipe.\<close>

partial_function (option) base_loop :: "nat \<Rightarrow> (nat \<Rightarrow> u64) \<Rightarrow> nat \<Rightarrow> u64 \<Rightarrow> nat \<Rightarrow> (u64 \<times> u64 \<times> nat) option" where
  "base_loop cap clk k count c = do {
     c \<leftarrow> base_pass cap c;
     let count = count + 10000;
     let te = clk k;
     if te - clk 0 < MIN_TEST_TIME_US then base_loop cap clk (Suc k) count c
     else Some (count, te - clk 0, c) }"

definition get_base_switch_time :: "nat \<Rightarrow> (nat \<Rightarrow> u64) \<Rightarrow> nat \<Rightarrow> (u64 \<times> u64 \<times> nat) option" where
  "get_base_switch_time cap clk c = base_loop cap clk 1 0 c"

subsection \<open>The two threads\<close>

text \<open>A thread is at the write or at the read of a pass, with so many passes to go. Thread 0 writes \<open>pipe1\<close> and reads \<open>pipe2\<close>,
  thread 1 the other way round.\<close>

datatype tpos = TWrite | TRead

record pp_state =
  pos0 :: tpos
  count0 :: u64
  pos1 :: tpos
  count1 :: u64
  pipe1 :: nat
  pipe2 :: nat

definition pp_init :: "u64 \<Rightarrow> nat \<Rightarrow> pp_state" where
  "pp_init swcount c = \<lparr>pos0 = TWrite, count0 = swcount, pos1 = TWrite, count1 = swcount, pipe1 = c, pipe2 = 0\<rparr>"

inductive pp_step :: "nat \<Rightarrow> pp_state \<Rightarrow> pp_state \<Rightarrow> bool" for cap where
  write0: "count0 s \<noteq> 0 \<Longrightarrow> pos0 s = TWrite \<Longrightarrow> pipe1 s < cap \<Longrightarrow> pp_step cap s (s\<lparr>pos0 := TRead, pipe1 := pipe1 s + 1\<rparr>)"
| read0: "count0 s \<noteq> 0 \<Longrightarrow> pos0 s = TRead \<Longrightarrow> 0 < pipe2 s \<Longrightarrow>
    pp_step cap s (s\<lparr>pos0 := TWrite, count0 := count0 s - 1, pipe2 := pipe2 s - 1\<rparr>)"
| write1: "count1 s \<noteq> 0 \<Longrightarrow> pos1 s = TWrite \<Longrightarrow> pipe2 s < cap \<Longrightarrow> pp_step cap s (s\<lparr>pos1 := TRead, pipe2 := pipe2 s + 1\<rparr>)"
| read1: "count1 s \<noteq> 0 \<Longrightarrow> pos1 s = TRead \<Longrightarrow> 0 < pipe1 s \<Longrightarrow>
    pp_step cap s (s\<lparr>pos1 := TWrite, count1 := count1 s - 1, pipe1 := pipe1 s - 1\<rparr>)"

definition pp_ended :: "pp_state \<Rightarrow> bool" where
  "pp_ended s \<longleftrightarrow> count0 s = 0 \<and> count1 s = 0 \<and> pipe1 s = 0 \<and> pipe2 s = 0"

text \<open>\<^verbatim>\<open>main\<close>: an option may be illegal, the pipes, the affinity and the threads may be refused, which exits with 1; otherwise it is the threads that end.\<close>

record pp_env =
  options_ok :: bool
  pipes_ok :: bool
  affinity_ok :: bool
  threads_ok :: bool

inductive latctx_main :: "nat \<Rightarrow> pp_env \<Rightarrow> (nat \<Rightarrow> u64) \<Rightarrow> int \<Rightarrow> pp_state option \<Rightarrow> bool" for cap e clk where
  set_up_fails: "\<not> options_ok e \<or> \<not> pipes_ok e \<or> \<not> affinity_ok e \<Longrightarrow> latctx_main cap e clk 1 None"
| create_fails: "options_ok e \<Longrightarrow> pipes_ok e \<Longrightarrow> affinity_ok e \<Longrightarrow> get_base_switch_time cap clk 0 = Some (count, t, c) \<Longrightarrow> \<not> threads_ok e \<Longrightarrow>
    latctx_main cap e clk 1 None"
| joined: "options_ok e \<Longrightarrow> pipes_ok e \<Longrightarrow> affinity_ok e \<Longrightarrow> get_base_switch_time cap clk 0 = Some (count, t, c) \<Longrightarrow> threads_ok e \<Longrightarrow>
    (pp_step cap)\<^sup>*\<^sup>* (pp_init count c) s \<Longrightarrow> count0 s = 0 \<Longrightarrow> count1 s = 0 \<Longrightarrow> latctx_main cap e clk 0 (Some s)"

subsection \<open>The single thread\<close>

lemma write_read_id: "c < cap \<Longrightarrow> write_read cap c = Some c"
  by (simp add: write_read_def)

lemma base_pass_id: "c < cap \<Longrightarrow> base_pass cap c = Some c"
proof -
  assume "c < cap"
  then have "foldM (\<lambda>_. write_read cap) xs c = Some c" for xs :: "nat list" by (induction xs) (simp_all add: write_read_id)
  then show ?thesis by (simp add: base_pass_def)
qed

lemma base_loop_runs:
  assumes "c < cap" "clk (k + j) - clk 0 \<ge> MIN_TEST_TIME_US" "\<And>i. i < j \<Longrightarrow> clk (k + i) - clk 0 < MIN_TEST_TIME_US"
  shows "base_loop cap clk k count c = Some (count + 10000 * of_nat (Suc j), clk (k + j) - clk 0, c)"
  using assms
proof (induction j arbitrary: k count)
  case 0
  then show ?case by (subst base_loop.simps) (simp add: base_pass_id Let_def leD)
next
  case (Suc j)
  have "base_loop cap clk (Suc k) (count + 10000) c = Some (count + 10000 + 10000 * of_nat (Suc j), clk (Suc k + j) - clk 0, c)"
    by (rule Suc.IH) (use Suc.prems in \<open>force simp: add.commute\<close>)+
  moreover have "clk k - clk 0 < MIN_TEST_TIME_US" using Suc.prems(3) [of 0] by simp
  ultimately show ?case by (subst base_loop.simps) (simp add: base_pass_id Suc.prems(1) Let_def algebra_simps)
qed

subsection \<open>The invariant\<close>

text \<open>What a pipe holds is what its writer has written more than its reader has read; a thread between its write and its read has
  written once more than it has read.\<close>

definition half :: "tpos \<Rightarrow> nat" where
  "half p = (if p = TWrite then 0 else 1)"

definition pp_inv :: "pp_state \<Rightarrow> bool" where
  "pp_inv s \<longleftrightarrow> int (pipe1 s) = uint (count1 s) + int (half (pos0 s)) - uint (count0 s)
     \<and> int (pipe2 s) = uint (count0 s) + int (half (pos1 s)) - uint (count1 s)
     \<and> (count0 s = 0 \<longrightarrow> pos0 s = TWrite) \<and> (count1 s = 0 \<longrightarrow> pos1 s = TWrite)"

definition pp_weight :: "pp_state \<Rightarrow> nat" where
  "pp_weight s = 2 * unat (count0 s) - half (pos0 s) + (2 * unat (count1 s) - half (pos1 s))"

lemma unat_pred: "(w::u64) \<noteq> 0 \<Longrightarrow> Suc (unat (w - 1)) = unat w"
  by (simp add: unat_minus_one unat_gt_0)

lemma uint_pred: "(w::u64) \<noteq> 0 \<Longrightarrow> uint (w - 1) = uint w - 1"
proof -
  assume "w \<noteq> 0"
  then have "int (unat (w - 1)) + 1 = int (unat w)" using unat_pred [of w] by linarith
  then show ?thesis by simp
qed

lemma half_simps [simp]: "half TWrite = 0" "half TRead = Suc 0"
  by (simp_all add: half_def)

lemma pp_inv_step:
  assumes "pp_inv s" "pp_step cap s s'"
  shows "pp_inv s'"
  using assms(2) assms(1) unfolding pp_inv_def
  by cases (auto simp: uint_pred)

lemma pp_step_weight: "pp_inv s \<Longrightarrow> pp_step cap s s' \<Longrightarrow> pp_weight s' < pp_weight s"
  by (erule pp_step.cases) (auto simp: pp_inv_def pp_weight_def dest!: unat_pred)

lemma pp_stuck_arith:
  fixes p1 p2 cap :: nat and a b :: int
  assumes "int p1 = b + (if w0 then 0 else 1) - a" "int p2 = a + (if w1 then 0 else 1) - b" "a = 0 \<longrightarrow> w0" "b = 0 \<longrightarrow> w1"
    and "a \<noteq> 0 \<longrightarrow> w0 \<longrightarrow> cap \<le> p1" "a \<noteq> 0 \<longrightarrow> \<not> w0 \<longrightarrow> p2 = 0" "b \<noteq> 0 \<longrightarrow> w1 \<longrightarrow> cap \<le> p2" "b \<noteq> 0 \<longrightarrow> \<not> w1 \<longrightarrow> p1 = 0" "0 < cap"
  shows "a = 0 \<and> b = 0 \<and> p1 = 0 \<and> p2 = 0"
  using assms by (cases w0; cases w1; simp only: if_True if_False simp_thms; presburger)

lemma pp_moves:
  assumes "pp_inv s" "0 < cap" "\<not> pp_ended s"
  shows "\<exists>s'. pp_step cap s s'"
proof (rule ccontr)
  assume n: "\<nexists>s'. pp_step cap s s'"
  have b: "count0 s \<noteq> 0 \<Longrightarrow> pos0 s = TWrite \<Longrightarrow> cap \<le> pipe1 s" "count0 s \<noteq> 0 \<Longrightarrow> pos0 s \<noteq> TWrite \<Longrightarrow> pipe2 s = 0"
    "count1 s \<noteq> 0 \<Longrightarrow> pos1 s = TWrite \<Longrightarrow> cap \<le> pipe2 s" "count1 s \<noteq> 0 \<Longrightarrow> pos1 s \<noteq> TWrite \<Longrightarrow> pipe1 s = 0"
    using n pp_step.intros [of s cap] by (meson not_less gr0I tpos.exhaust)+
  have z: "count0 s = 0 \<longleftrightarrow> uint (count0 s) = 0" "count1 s = 0 \<longleftrightarrow> uint (count1 s) = 0" by (simp_all add: uint_0_iff)
  have i: "int (pipe1 s) = uint (count1 s) + (if pos0 s = TWrite then 0 else 1) - uint (count0 s)"
    "int (pipe2 s) = uint (count0 s) + (if pos1 s = TWrite then 0 else 1) - uint (count1 s)"
    "uint (count0 s) = 0 \<longrightarrow> pos0 s = TWrite" "uint (count1 s) = 0 \<longrightarrow> pos1 s = TWrite"
    using assms(1) unfolding pp_inv_def half_def z by simp_all
  have "uint (count0 s) = 0 \<and> uint (count1 s) = 0 \<and> pipe1 s = 0 \<and> pipe2 s = 0"
    by (rule pp_stuck_arith [OF i]) (use b assms(2) z in auto)
  then show False using assms(3) by (simp add: pp_ended_def z)
qed

interpretation pp: ending_system "pp_step cap" "\<lambda>s. pp_inv s \<and> 0 < cap" pp_weight pp_ended for cap
  by unfold_locales (use pp_inv_step pp_step_weight pp_moves in blast)+

lemma pp_init_inv: "pp_inv (pp_init n 0)"
  by (simp add: pp_inv_def pp_init_def)


subsection \<open>Properties\<close>

text \<open>Provided the clock reaches two seconds after its first reading at some reading and not before, the
  single-thread measurement ends with ten thousand passes for each reading of the clock and an empty pipe. The two threads then
  never block each other for ever, with pipes of any capacity: every run has at most four steps for each pass, and a state
  without a next step is one in which both threads have made all their passes and both pipes are empty; so \<^verbatim>\<open>main\<close>
  can exit with status 0.\<close>

theorem latctx_ends:
  assumes "0 < cap" "options_ok e" "pipes_ok e" "affinity_ok e" "threads_ok e" "clk (Suc j) - clk 0 \<ge> MIN_TEST_TIME_US"
    and "\<And>i. i < j \<Longrightarrow> clk (Suc i) - clk 0 < MIN_TEST_TIME_US"
  defines "n \<equiv> 10000 * of_nat (Suc j) :: u64"
  shows "get_base_switch_time cap clk 0 = Some (n, clk (Suc j) - clk 0, 0)
    \<and> (\<forall>k s. (pp_step cap ^^ k) (pp_init n 0) s \<longrightarrow> k \<le> 4 * unat n \<and> ((\<nexists>s'. pp_step cap s s') \<longrightarrow> pp_ended s))
    \<and> (\<exists>s. latctx_main cap e clk 0 (Some s) \<and> pp_ended s)"
proof -
  have g: "get_base_switch_time cap clk 0 = Some (n, clk (Suc j) - clk 0, 0)"
    using base_loop_runs [of 0 cap clk 1 j 0] assms(1,6,7) by (simp add: get_base_switch_time_def n_def)
  have i: "pp_inv (pp_init n 0) \<and> 0 < cap" using assms(1) by (simp add: pp_init_inv)
  have w: "pp_weight (pp_init n 0) = 4 * unat n" by (simp add: pp_weight_def pp_init_def)
  have r: "k \<le> 4 * unat n \<and> ((\<nexists>s'. pp_step cap s s') \<longrightarrow> pp_ended s)" if "(pp_step cap ^^ k) (pp_init n 0) s" for k s
    using pp.run_bound [OF that i] pp.stuck_ended [OF relpowp_imp_rtranclp [OF that] i] w by auto
  obtain s where s: "(pp_step cap)\<^sup>*\<^sup>* (pp_init n 0) s" "pp_ended s" using pp.completes [OF i] by auto
  then have "latctx_main cap e clk 0 (Some s)" using latctx_main.joined [OF assms(2-4) g assms(5) s(1)] by (simp add: pp_ended_def)
  then show ?thesis using g r s(2) by blast
qed

end
