(* ===== verification/PageTests.thy ===== *)
theory PageTests
  imports CStr
begin

text \<open>
  \<^verbatim>\<open>nzmalloc-test.c\<close>, \<^verbatim>\<open>nzmmap-test.c\<close> and \<^verbatim>\<open>smiffy.c\<close>: a block of memory is taken from \<^verbatim>\<open>malloc\<close> or \<^verbatim>\<open>mmap\<close> and the
  pages are counted that the system handed out without clearing them. A block is the list of its 64-bit words, a page so many of
  them; sizes are 32 bits wide as in the sources. An access outside the block is a fault.
\<close>

text \<open>The words of a block from index \<open>p\<close> up to \<open>tp\<close> are zero.\<close>

function words_zero :: "u64 list \<Rightarrow> nat \<Rightarrow> nat \<Rightarrow> bool option" where
  "words_zero mem p tp =
     (if p < tp then if p < length mem then if mem ! p \<noteq> 0 then Some False else words_zero mem (Suc p) tp else None else Some True)"
  by auto
termination by (relation "measure (\<lambda>(mem, p, tp). tp - p)") auto

definition store_word :: "nat \<Rightarrow> u64 \<Rightarrow> u64 list \<Rightarrow> u64 list option" where
  "store_word i w mem = (if i < length mem then Some (mem[i := w]) else None)"

text \<open>\<open>n\<close> is the number of words in a page.\<close>

definition page_is_zero :: "nat \<Rightarrow> nat \<Rightarrow> u64 list \<Rightarrow> (bool \<times> u64 list) option" where
  "page_is_zero n page mem = do {
     mem \<leftarrow> store_word page 1 mem;
     z \<leftarrow> words_zero mem (page + 1) (page + n);
     if \<not> z then Some (False, mem) else do {
       mem \<leftarrow> store_word (page + 1) 2 mem;
       Some (True, mem) } }"

definition page_check :: "nat \<Rightarrow> nat \<Rightarrow> u64 list \<Rightarrow> (bool \<times> u64 list) option" where
  "page_check n page mem = do {
     mem \<leftarrow> store_word page 1 mem;
     z \<leftarrow> words_zero mem (page + 1) (page + n);
     Some (z, mem) }"

text \<open>The loop over the pages from \<open>p\<close> to \<open>tp\<close>, both in words; a page of no words would never end.\<close>

function pages_loop :: "(nat \<Rightarrow> nat \<Rightarrow> u64 list \<Rightarrow> (bool \<times> u64 list) option) \<Rightarrow> nat \<Rightarrow> nat \<Rightarrow> nat \<Rightarrow> u32 \<Rightarrow> u64 list \<Rightarrow> (u32 \<times> u64 list) option" where
  "pages_loop check n p tp nzcount mem =
     (if p < tp then if n = 0 then None else do {
        (z, mem) \<leftarrow> check n p mem;
        pages_loop check n (p + n) tp (if z then nzcount else nzcount + 1) mem }
      else Some (nzcount, mem))"
  by auto
termination by (relation "measure (\<lambda>(check, n, p, tp, c, mem). tp - p)") auto

definition round_size :: "u32 \<Rightarrow> u32 \<Rightarrow> u32" where
  "round_size pgsize sz = ((sz + pgsize - 1) div pgsize) * pgsize"

text \<open>\<open>alloc\<close> is the allocator: the words of the new block of so many bytes, or \<open>None\<close> when it fails. The result is the return value
  of the test and what it prints, the number of pages.\<close>

definition test_pages :: "(nat \<Rightarrow> nat \<Rightarrow> u64 list \<Rightarrow> (bool \<times> u64 list) option) \<Rightarrow> u32 \<Rightarrow> (u32 \<Rightarrow> u64 list option) \<Rightarrow> u32 \<Rightarrow>
    (int \<times> u32 option \<times> u64 list) option" where
  "test_pages check pgsize alloc sz =
     (if pgsize = 0 then None
      else let sz = round_size pgsize sz in
        case alloc sz of None \<Rightarrow> Some (-1, None, [])
        | Some mem \<Rightarrow> map_option (\<lambda>(c, mem). (0, Some c, mem)) (pages_loop check (unat pgsize div 8) 0 (unat sz div 8) 0 mem))"

definition test_malloc :: "u32 \<Rightarrow> (u32 \<Rightarrow> u64 list option) \<Rightarrow> u32 \<Rightarrow> (int \<times> u32 option \<times> u64 list) option" where
  "test_malloc = test_pages page_is_zero"

definition test_mmap :: "u32 \<Rightarrow> (u32 \<Rightarrow> u32 \<Rightarrow> u64 list option) \<Rightarrow> u32 \<Rightarrow> u32 \<Rightarrow> (int \<times> u32 option \<times> u64 list) option" where
  "test_mmap pgsize mmap sz mmflags = test_pages page_is_zero pgsize (mmap mmflags) sz"

definition MAP_NOZERO :: u32 where "MAP_NOZERO = 0x04000000"

text \<open>\<^verbatim>\<open>MAP_ANONYMOUS | MAP_PRIVATE\<close>\<close>

definition anon_private :: u32 where "anon_private = 0x22"

text \<open>\<^verbatim>\<open>test_mmap\<close> of \<^verbatim>\<open>smiffy.c\<close>; a count of zero is not printed.\<close>

definition smiffy_test :: "u32 \<Rightarrow> (u32 \<Rightarrow> u32 \<Rightarrow> u64 list option) \<Rightarrow> u32 \<Rightarrow> (int \<times> u32 option \<times> u64 list) option" where
  "smiffy_test pgsize mmap sz =
     map_option (\<lambda>(r, c, mem). (r, if c = Some 0 then None else c, mem))
       (test_pages page_check pgsize (mmap (anon_private OR MAP_NOZERO)) sz)"

subsection \<open>Options and \<^verbatim>\<open>main\<close>\<close>

datatype nz_opt = NzSize cstr | NzNoZero | NzSleep cstr | NzNice cstr | NzHelp | NzOther

fun nzmalloc_options :: "u32 \<Rightarrow> nz_opt list \<Rightarrow> u32" where
  "nzmalloc_options sz [] = sz"
| "nzmalloc_options sz (NzSize a # os) = nzmalloc_options (of_int (atoi a)) os"
| "nzmalloc_options sz (_ # os) = nzmalloc_options sz os"

fun nzmmap_options :: "u32 \<times> u32 \<Rightarrow> nz_opt list \<Rightarrow> u32 \<times> u32" where
  "nzmmap_options sf [] = sf"
| "nzmmap_options (sz, fl) (NzSize a # os) = nzmmap_options (of_int (atoi a), fl) os"
| "nzmmap_options (sz, fl) (NzNoZero # os) = nzmmap_options (sz, fl OR MAP_NOZERO) os"
| "nzmmap_options sf (_ # os) = nzmmap_options sf os"

fun smiffy_options :: "u32 \<Rightarrow> u32 \<times> int \<times> int \<Rightarrow> nz_opt list \<Rightarrow> u32 \<times> int \<times> int" where
  "smiffy_options pgsize s [] = s"
| "smiffy_options pgsize (sz, sl, ni) (NzSize a # os) = smiffy_options pgsize (of_int (atoi a) * pgsize, sl, ni) os"
| "smiffy_options pgsize (sz, sl, ni) (NzSleep a # os) = smiffy_options pgsize (sz, atoi a, ni) os"
| "smiffy_options pgsize (sz, sl, ni) (NzNice a # os) = smiffy_options pgsize (sz, sl, atoi a) os"
| "smiffy_options pgsize s (_ # os) = smiffy_options pgsize s os"

definition nzmalloc_main :: "u32 \<Rightarrow> (u32 \<Rightarrow> u64 list option) \<Rightarrow> nz_opt list \<Rightarrow> (int \<times> u32 option) option" where
  "nzmalloc_main pgsize alloc os =
     map_option (\<lambda>(r, c, mem). (0, c)) (test_malloc pgsize alloc (nzmalloc_options (pgsize * 64) os))"

definition nzmmap_main :: "u32 \<Rightarrow> (u32 \<Rightarrow> u32 \<Rightarrow> u64 list option) \<Rightarrow> nz_opt list \<Rightarrow> (int \<times> u32 option) option" where
  "nzmmap_main pgsize mmap os = (let (sz, fl) = nzmmap_options (pgsize * 32, anon_private) os in
     map_option (\<lambda>(r, c, mem). (0, c)) (test_mmap pgsize mmap sz fl))"

text \<open>\<^verbatim>\<open>smiffy\<close> never ends: what its first \<open>k\<close> rounds print, the \<open>i\<close>-th of them on the mapping \<open>mmap i\<close>.\<close>

definition smiffy_rounds :: "u32 \<Rightarrow> (nat \<Rightarrow> u32 \<Rightarrow> u32 \<Rightarrow> u64 list option) \<Rightarrow> nz_opt list \<Rightarrow> nat \<Rightarrow> u32 option list option" where
  "smiffy_rounds pgsize mmap os k = (let (sz, sl, ni) = smiffy_options pgsize (pgsize * 128, 1000000, 0) os in
     foldM (\<lambda>i acc. map_option (\<lambda>(r, c, mem). acc @ [c]) (smiffy_test pgsize (mmap i) sz)) [0..<k] [])"


declare words_zero.simps [simp del] pages_loop.simps [simp del]

subsection \<open>What a page check promises\<close>

text \<open>A page is dirty when a word after its first is not zero. A check of a page tells whether it is dirty and writes nothing outside
  it; \<open>again\<close> says what the next check of the page will find.\<close>

definition dirty :: "nat \<Rightarrow> nat \<Rightarrow> u64 list \<Rightarrow> bool" where
  "dirty n p mem \<longleftrightarrow> (\<exists>j. p < j \<and> j < p + n \<and> mem ! j \<noteq> 0)"

locale page_checker =
  fixes check :: "nat \<Rightarrow> nat \<Rightarrow> u64 list \<Rightarrow> (bool \<times> u64 list) option" and n :: nat
    and mark :: "nat \<Rightarrow> u64 list \<Rightarrow> u64 list" and again :: "bool \<Rightarrow> bool"
  assumes page_pos: "0 < n"
    and checks: "p + n \<le> length mem \<Longrightarrow> check n p mem = Some (\<not> dirty n p mem, mark p mem)"
    and keeps_length: "length (mark p mem) = length mem"
    and keeps_others: "j < p \<or> p + n \<le> j \<Longrightarrow> mark p mem ! j = mem ! j"
    and found_again: "p + n \<le> length mem \<Longrightarrow> dirty n p (mark p mem) = again (dirty n p mem)"
begin

definition marked :: "nat \<Rightarrow> nat \<Rightarrow> u64 list \<Rightarrow> u64 list" where
  "marked k m mem = fold (\<lambda>i. mark (i * n)) [k..<m] mem"

lemma length_marked: "length (marked k m mem) = length mem"
proof -
  have "length (fold (\<lambda>i. mark (i * n)) xs mem) = length mem" for xs by (induction xs arbitrary: mem) (simp_all add: keeps_length)
  then show ?thesis by (simp add: marked_def)
qed

lemma dirty_other: "i \<noteq> k \<Longrightarrow> dirty n (i * n) (mark (k * n) mem) = dirty n (i * n) mem"
proof -
  assume "i \<noteq> k"
  then have "Suc i \<le> k \<or> Suc k \<le> i" by auto
  then have "Suc i * n \<le> k * n \<or> Suc k * n \<le> i * n" using mult_le_mono1 by blast
  then have "j < k * n \<or> k * n + n \<le> j" if "i * n < j" "j < i * n + n" for j using that by auto
  then show ?thesis by (auto simp: dirty_def keeps_others)
qed

lemma page_fits: "i < m \<Longrightarrow> m * n \<le> l \<Longrightarrow> i * n + n \<le> l"
  using mult_le_mono1 [of "Suc i" m n] by simp

lemma loop_counts:
  assumes "k \<le> m" "m * n \<le> length mem"
  shows "pages_loop check n (k * n) (m * n) c mem
    = Some (c + of_nat (length (filter (\<lambda>i. dirty n (i * n) mem) [k..<m])), marked k m mem)"
  using assms
proof (induction "m - k" arbitrary: k c mem)
  case 0
  then show ?case by (subst pages_loop.simps) (simp add: marked_def)
next
  case (Suc d)
  then have lt: "k < m" by simp
  have fits: "k * n + n \<le> length mem" by (rule page_fits [OF lt Suc.prems(2)])
  have f: "filter (\<lambda>i. dirty n (i * n) (mark (k * n) mem)) [Suc k..<m] = filter (\<lambda>i. dirty n (i * n) mem) [Suc k..<m]"
    by (rule filter_cong) (auto simp: dirty_other)
  have ih: "pages_loop check n (Suc k * n) (m * n) c' (mark (k * n) mem)
    = Some (c' + of_nat (length (filter (\<lambda>i. dirty n (i * n) mem) [Suc k..<m])), marked (Suc k) m (mark (k * n) mem))" for c'
    using Suc.hyps(1) [of "Suc k" "mark (k * n) mem" c'] Suc.hyps(2) lt Suc.prems(2) by (simp add: keeps_length f)
  have "k * n < m * n" using lt page_pos by simp
  then show ?case
    by (subst pages_loop.simps) (use page_pos lt in \<open>simp add: checks [OF fits] ih [simplified] marked_def upt_conv_Cons add.commute\<close>)
qed

lemma dirty_marked:
  assumes "m * n \<le> length mem" "i < m"
  shows "dirty n (i * n) (marked k m mem) = (if k \<le> i then again (dirty n (i * n) mem) else dirty n (i * n) mem)"
  using assms
proof (induction "m - k" arbitrary: k mem)
  case (Suc d)
  then have "marked k m mem = marked (Suc k) m (mark (k * n) mem)" by (simp add: marked_def upt_conv_Cons)
  then show ?case using Suc.hyps(1) [of "Suc k" "mark (k * n) mem"] Suc.hyps(2) Suc.prems found_again [OF page_fits [OF _ Suc.prems(1)], of k]
    by (cases "i = k") (auto simp: keeps_length dirty_other)
qed (simp add: marked_def)

end

subsection \<open>Both checks keep the promise\<close>

lemma words_zero_all:
  "tp \<le> length mem \<Longrightarrow> words_zero mem p tp = Some (\<forall>j. p \<le> j \<and> j < tp \<longrightarrow> mem ! j = 0)"
proof (induction "tp - p" arbitrary: p)
  case (Suc d)
  then have "p < tp" by simp
  have "(\<forall>j. p \<le> j \<and> j < tp \<longrightarrow> mem ! j = 0) \<longleftrightarrow> mem ! p = 0 \<and> (\<forall>j. Suc p \<le> j \<and> j < tp \<longrightarrow> mem ! j = 0)"
    using \<open>p < tp\<close> by (metis Suc_leD Suc_leI le_neq_implies_less order_refl)
  then show ?case using Suc.hyps(1) [of "Suc p"] Suc.hyps(2) Suc.prems by (subst words_zero.simps) auto
next
  case 0
  then show ?case by (subst words_zero.simps) auto
qed

lemma page_start:
  assumes "p + n \<le> length mem" "0 < n"
  shows "store_word p 1 mem = Some (mem[p := 1])" "words_zero (mem[p := 1]) (Suc p) (p + n) = Some (\<not> dirty n p mem)"
  using assms words_zero_all [of "p + n" "mem[p := 1]" "Suc p"] by (auto simp: store_word_def dirty_def Suc_le_eq)

interpretation zero_pages: page_checker page_is_zero "Suc (Suc n)"
  "\<lambda>p mem. if dirty (Suc (Suc n)) p mem then mem[p := 1] else mem[p := 1, Suc p := 2]" "\<lambda>_. True" for n
proof unfold_locales
  fix p and mem :: "u64 list"
  assume b: "p + Suc (Suc n) \<le> length mem"
  note page_start [OF b]
  then show "page_is_zero (Suc (Suc n)) p mem = Some (\<not> dirty (Suc (Suc n)) p mem,
      if dirty (Suc (Suc n)) p mem then mem[p := 1] else mem[p := 1, Suc p := 2])"
    using b by (simp add: page_is_zero_def store_word_def)
  have "mem[p := 1, Suc p := 2] ! Suc p = (2::u64)" using b by simp
  then have "dirty (Suc (Suc n)) p (mem[p := 1, Suc p := 2])" unfolding dirty_def by (intro exI [of _ "Suc p"]) simp
  then show "dirty (Suc (Suc n)) p (if dirty (Suc (Suc n)) p mem then mem[p := 1] else mem[p := 1, Suc p := 2]) = True"
    by (auto simp: dirty_def)
qed auto

interpretation checked_pages: page_checker page_check "Suc n" "\<lambda>p mem. mem[p := 1]" "\<lambda>d. d" for n
proof unfold_locales
  fix p and mem :: "u64 list"
  assume b: "p + Suc n \<le> length mem"
  note page_start [OF b]
  then show "page_check (Suc n) p mem = Some (\<not> dirty (Suc n) p mem, mem[p := 1])"
    by (simp add: page_check_def)
  show "dirty (Suc n) p (mem[p := 1]) = dirty (Suc n) p mem" by (auto simp: dirty_def)
qed auto


lemma word_div_mult_less: "unat ((x::u32) div y * y) = unat x div unat y * unat y"
proof -
  have "unat x div unat y * unat y < 2 ^ 32"
    by (rule le_less_trans [OF div_times_less_eq_dividend]) (use unsigned_less [of x] in simp)
  then show ?thesis by (simp only: unat_word_ariths(2) unat_div) simp
qed

text \<open>Rounding up to whole pages, when the sum fits, and when it does not.\<close>

lemma round_size_fits:
  assumes "0 < pgsize" "unat sz + unat pgsize \<le> 2 ^ 32"
  shows "unat (round_size pgsize sz) = (unat sz + unat pgsize - 1) div unat pgsize * unat pgsize"
proof -
  have p: "1 \<le> pgsize" using assms(1) by (simp add: word_less_nat_alt word_le_nat_alt Suc_leI)
  have "unat (sz + (pgsize - 1)) = unat sz + (unat pgsize - 1)"
  proof -
    have q: "unat (pgsize - 1) = unat pgsize - 1" using unat_sub [OF p] by simp
    have "unat sz + (unat pgsize - 1) < 2 ^ 32" using assms(2) p by (simp add: word_le_nat_alt)
    then show ?thesis unfolding unat_word_ariths(1) q by simp
  qed
  moreover have e: "sz + pgsize - 1 = sz + (pgsize - 1)" by simp
  moreover have "0 < unat pgsize" using assms(1) by (simp add: word_less_nat_alt)
  ultimately show ?thesis unfolding round_size_def word_div_mult_less e by simp
qed

lemma round_size_wraps:
  assumes "2 ^ 32 < unat sz + unat pgsize"
  shows "round_size pgsize sz = 0"
proof -
  have u: "unat sz < 2 ^ 32" "unat pgsize < 2 ^ 32" using unsigned_less [of sz] unsigned_less [of pgsize] by simp_all
  have "sz + pgsize - 1 = of_nat (unat sz + unat pgsize - 1 - 2 ^ 32)"
  proof -
    have "(of_nat (unat sz + unat pgsize - 1 - 2 ^ 32) :: u32) = of_nat (unat sz + unat pgsize) - of_nat (1 + 2 ^ 32)"
      using assms by (subst of_nat_diff [symmetric]) auto
    also have "\<dots> = sz + pgsize - 1" by simp
    finally show ?thesis by simp
  qed
  then have "unat (sz + pgsize - 1) = (unat sz + unat pgsize - 1 - 2 ^ 32) mod 2 ^ 32" by (simp only: unat_of_nat) simp
  also have "\<dots> = unat sz + unat pgsize - 1 - 2 ^ 32" using u by (intro mod_less) linarith
  finally have "unat (sz + pgsize - 1) < unat pgsize" using u assms by linarith
  then show ?thesis by (simp add: round_size_def word_less_nat_alt word_arith_nat_div)
qed


lemma test_pages_runs:
  assumes "page_checker check w mark again" "unat pgsize = 8 * w" "unat sz + unat pgsize \<le> 2 ^ 32"
    and "m = (unat sz + unat pgsize - 1) div unat pgsize" "alloc (round_size pgsize sz) = Some mem" "length mem = m * w"
  shows "test_pages check pgsize alloc sz = Some (0, Some (of_nat (length (filter (\<lambda>i. dirty w (i * w) mem) [0..<m]))),
    page_checker.marked w mark 0 m mem)"
proof -
  have w: "0 < w" using assms(1) by (simp add: page_checker_def)
  then have p: "0 < pgsize" "pgsize \<noteq> 0" using assms(2) by (auto simp: word_less_nat_alt)
  have "unat (round_size pgsize sz) div 8 = m * w"
    using round_size_fits [OF p(1) assms(3)] by (simp add: assms(2,4) mult.assoc mult.commute [of 8])
  moreover have "unat pgsize div 8 = w" by (simp add: assms(2))
  ultimately show ?thesis using page_checker.loop_counts [OF assms(1), of 0 m mem 0] assms(5,6) p by (simp add: test_pages_def)
qed

subsection \<open>Properties\<close>

text \<open>With pages of at least two words and a size whose rounding does not wrap, the malloc test stays inside its block
  and prints the number of pages that have a non-zero word after their first; it leaves a mark on every page, so that on
  the same memory, if the system hands it out again uncleared, it counts all of them. The check of \<^verbatim>\<open>smiffy\<close> prints the same number,
  unless it is zero, but leaves no mark: on the same memory it counts the same pages again.\<close>

theorem page_tests_count:
  fixes mem :: "u64 list"
  assumes "unat pgsize = 8 * w" "2 \<le> w" "unat sz + unat pgsize \<le> 2 ^ 32" "length mem = m * w"
    and m: "m = (unat sz + unat pgsize - 1) div unat pgsize" and c: "c = of_nat (length (filter (\<lambda>i. dirty w (i * w) mem) [0..<m]))"
  shows "(\<exists>mem' mem''. test_malloc pgsize (\<lambda>_. Some mem) sz = Some (0, Some c, mem') \<and> length mem' = length mem
      \<and> test_malloc pgsize (\<lambda>_. Some mem') sz = Some (0, Some (of_nat m), mem''))
    \<and> (\<exists>mem' mem''. smiffy_test pgsize (\<lambda>_ _. Some mem) sz = Some (0, if c = 0 then None else Some c, mem')
      \<and> smiffy_test pgsize (\<lambda>_ _. Some mem') sz = Some (0, if c = 0 then None else Some c, mem''))"
proof -
  obtain n where n: "w = Suc (Suc n)" using assms(2) by (metis Suc_le_D numeral_2_eq_2 Suc_le_mono)
  note run = test_pages_runs [OF _ assms(1,3) m]
  let ?z = "zero_pages.marked n 0 m mem" and ?k = "checked_pages.marked (Suc n) 0 m mem"
  have lz: "length ?z = m * w" "length ?k = m * w" using assms(4) by (simp_all add: zero_pages.length_marked checked_pages.length_marked)
  have dz: "filter (\<lambda>i. dirty w (i * w) ?z) [0..<m] = [0..<m]"
    using zero_pages.dirty_marked [of m n mem] assms(4) by (auto simp: n intro: filter_True)
  have dk: "filter (\<lambda>i. dirty w (i * w) ?k) [0..<m] = filter (\<lambda>i. dirty w (i * w) mem) [0..<m]"
    using checked_pages.dirty_marked [of m "Suc n" mem] assms(4) by (intro filter_cong) (auto simp: n)
  have zp: "page_checker page_is_zero w (\<lambda>p mem. if dirty w p mem then mem[p := 1] else mem[p := 1, Suc p := 2]) (\<lambda>_. True)"
    unfolding n by (rule zero_pages.page_checker_axioms)
  have kp: "page_checker page_check w (\<lambda>p mem. mem[p := 1]) (\<lambda>d. d)" unfolding n by (rule checked_pages.page_checker_axioms)
  have z: "test_malloc pgsize (\<lambda>_. Some mem) sz = Some (0, Some c, ?z)"
    using run [OF zp, of "\<lambda>_. Some mem"] assms(4) by (simp add: test_malloc_def c n)
  have z2: "\<exists>mem''. test_malloc pgsize (\<lambda>_. Some ?z) sz = Some (0, Some (of_nat m), mem'')"
    using run [OF zp, of "\<lambda>_. Some ?z"] lz(1) dz by (simp add: test_malloc_def)
  have k: "smiffy_test pgsize (\<lambda>_ _. Some mem) sz = Some (0, if c = 0 then None else Some c, ?k)"
    using run [OF kp, of "\<lambda>_. Some mem"] assms(4) by (simp add: smiffy_test_def c n)
  have k2: "\<exists>mem''. smiffy_test pgsize (\<lambda>_ _. Some ?k) sz = Some (0, if c = 0 then None else Some c, mem'')"
    using run [OF kp, of "\<lambda>_. Some ?k"] lz(2) dk by (simp add: smiffy_test_def c)
  have l: "length ?z = length mem" using lz(1) assms(4) by simp
  show ?thesis by (rule conjI) (use z z2 l in blast, use k k2 in blast)
qed

text \<open>A size within one page of 4 GiB, as \<^verbatim>\<open>-s -1\<close> gives, wraps to zero when it is rounded up: a block of no
  bytes is asked for and the test reports no uncleared page, whatever the system does.\<close>

theorem page_size_wraps:
  assumes "2 ^ 32 < unat sz + unat pgsize" "alloc 0 = Some mem"
  shows "round_size pgsize sz = 0 \<and> test_malloc pgsize alloc sz = Some (0, Some 0, mem)
    \<and> nzmalloc_main 4096 alloc [NzSize (bytes ''-1'')] = Some (0, Some 0)"
proof -
  have r: "round_size pgsize sz = 0" "round_size 4096 0xFFFFFFFF = 0"
    using round_size_wraps [OF assms(1)] round_size_wraps [of "0xFFFFFFFF" 4096] by simp_all
  have t: "test_malloc p alloc s = Some (0, Some 0, mem)" if "round_size p s = 0" "p \<noteq> 0" for p s
    using that assms(2) by (simp add: test_malloc_def test_pages_def pages_loop.simps)
  have "unat sz < 2 ^ 32" using unsigned_less [of sz] by simp
  then have "pgsize \<noteq> 0" using assms(1) by auto
  moreover have "nzmalloc_options (4096 * 64) [NzSize (bytes ''-1'')] = 0xFFFFFFFF"
    by code_simp
  ultimately show ?thesis using r t by (simp add: nzmalloc_main_def)
qed

end
