(* ===== verification/Timers.thy ===== *)
theory Timers
  imports Prelude
begin

text \<open>
  \<^verbatim>\<open>timerfd-test.c\<close> and \<^verbatim>\<open>timerfd-test2.c\<close>: timers on a descriptor are armed with relative, absolute and periodic expiries for two
  clocks, and what the descriptor reports is printed. The kernel is a parameter: a record of the system calls, each from the state of
  the kernel to its answer and its next state. A program state adds what has been asked of the kernel, the timers armed
  so far, and what has been printed.
\<close>

record timespec =
  tv_sec :: int
  tv_nsec :: int

record itimerspec =
  it_interval :: timespec
  it_value :: timespec

definition TFD_TIMER_ABSTIME :: int where "TFD_TIMER_ABSTIME = 1"
definition CLOCK_MONOTONIC :: int where "CLOCK_MONOTONIC = 1"
definition CLOCK_REALTIME :: int where "CLOCK_REALTIME = 0"
definition EAGAIN :: int where "EAGAIN = 11"

text \<open>A \<^verbatim>\<open>read\<close> gives a number of bytes, never zero for a timer, and the counter in them, or an error number.\<close>

datatype tread = RdTicks nat u64 | RdErr int

record 'k tmr_kernel =
  clock_gettime :: "int \<Rightarrow> 'k \<Rightarrow> timespec option \<times> 'k"
  timerfd :: "int \<Rightarrow> int \<Rightarrow> int \<Rightarrow> itimerspec \<Rightarrow> 'k \<Rightarrow> int \<times> 'k"
  timerfd_create :: "int \<Rightarrow> int \<Rightarrow> 'k \<Rightarrow> int \<times> 'k"
  timerfd_settime :: "int \<Rightarrow> int \<Rightarrow> itimerspec \<Rightarrow> 'k \<Rightarrow> int \<times> 'k"
  timerfd_gettime :: "int \<Rightarrow> 'k \<Rightarrow> int \<times> 'k"
  tk_poll :: "int \<Rightarrow> 'k \<Rightarrow> (int \<times> bool) \<times> 'k"
  tk_read :: "int \<Rightarrow> nat \<Rightarrow> 'k \<Rightarrow> tread \<times> 'k"
  tk_nonblock :: "int \<Rightarrow> bool \<Rightarrow> 'k \<Rightarrow> 'k"
  tk_sleep :: "nat \<Rightarrow> 'k \<Rightarrow> 'k"
  tk_close :: "int \<Rightarrow> 'k \<Rightarrow> 'k"

datatype report = NoTimer | GotTicks int u64 | TicksLeft | BadErrno int | NonblockOk

record 'k tst =
  kern :: 'k
  arms :: "(int \<times> itimerspec) list"
  reports :: "report list"

definition getustime :: "'k tmr_kernel \<Rightarrow> int \<Rightarrow> 'k \<Rightarrow> u64 \<times> 'k" where
  "getustime K clockid k = (case clock_gettime K clockid k of
     (None, k) \<Rightarrow> (0, k)
   | (Some tp, k) \<Rightarrow> (1000000 * of_int (tv_sec tp) + of_int (tv_nsec tp div 1000), k))"

definition set_timespec :: "u64 \<Rightarrow> timespec" where
  "set_timespec ustime = \<lparr>tv_sec = sint (ustime div 1000000), tv_nsec = sint (1000 * (ustime mod 1000000))\<rparr>"

text \<open>\<open>sz\<close> is the size of \<^verbatim>\<open>ticks\<close>: 4 bytes in the first program, 8 in the second.\<close>

definition waittmr :: "'k tmr_kernel \<Rightarrow> nat \<Rightarrow> int \<Rightarrow> 'k \<Rightarrow> int \<times> 'k" where
  "waittmr K sz tfd k =
     (let ((r, pollin), k) = tk_poll K tfd k in
      if r < 0 then (-1, k)
      else if \<not> pollin then (-1, k)
      else case tk_read K tfd sz k of
        (RdTicks n t, k) \<Rightarrow> (if n \<noteq> sz then -1 else if sz = 4 then uint (ucast t :: u32) else sint t, k)
      | (RdErr _, k) \<Rightarrow> (-1, k))"

text \<open>The steps the tests are made of: the timer of the test, armed with \<open>set\<close>; the wait and its report; the test of
  \<^verbatim>\<open>O_NONBLOCK\<close>. \<open>None\<close> is the return of \<^verbatim>\<open>main\<close> with 1.\<close>

definition tmr_spec :: "u64 \<Rightarrow> u64 \<Rightarrow> itimerspec" where
  "tmr_spec v i = \<lparr>it_interval = set_timespec i, it_value = set_timespec v\<rparr>"

definition now :: "'k tmr_kernel \<Rightarrow> int \<Rightarrow> 'k tst \<Rightarrow> u64 \<times> 'k tst" where
  "now K clk s = (let (t, k) = getustime K clk (kern s) in (t, s\<lparr>kern := k\<rparr>))"

definition wait_report :: "'k tmr_kernel \<Rightarrow> nat \<Rightarrow> int \<Rightarrow> int \<Rightarrow> u64 \<Rightarrow> 'k tst \<Rightarrow> 'k tst" where
  "wait_report K sz clk tfd tnow s =
     (let (ticks, k) = waittmr K sz tfd (kern s);
          (ttmr, k) = getustime K clk k
      in s\<lparr>kern := k, reports := reports s @ [if ticks \<le> 0 then NoTimer else GotTicks ticks ((ttmr - tnow) div 1000)]\<rparr>)"

definition nonblock_test :: "'k tmr_kernel \<Rightarrow> nat \<Rightarrow> int \<Rightarrow> 'k tst \<Rightarrow> 'k tst" where
  "nonblock_test K sz tfd s =
     (let k = tk_nonblock K tfd True (kern s);
          (r, k) = tk_read K tfd sz k;
          rep = (case r of RdTicks _ _ \<Rightarrow> TicksLeft
                 | RdErr e \<Rightarrow> if e \<noteq> EAGAIN then BadErrno e else NonblockOk);
          k = tk_close K tfd (tk_nonblock K tfd False k)
      in s\<lparr>kern := k, reports := reports s @ [rep]\<rparr>)"

text \<open>\<^verbatim>\<open>timerfd-test.c\<close>: one call makes the timer or changes it and returns its descriptor.\<close>

definition arm :: "'k tmr_kernel \<Rightarrow> int \<Rightarrow> int \<Rightarrow> int \<Rightarrow> itimerspec \<Rightarrow> 'k tst \<Rightarrow> (int \<times> 'k tst) option" where
  "arm K tfd clk flags tmr s =
     (let (tfd, k) = timerfd K tfd clk flags tmr (kern s);
          s = s\<lparr>kern := k, arms := arms s @ [(flags, tmr)]\<rparr>
      in if tfd = -1 then None else Some (tfd, s))"

definition clock_test :: "'k tmr_kernel \<Rightarrow> int \<Rightarrow> 'k tst \<Rightarrow> 'k tst option" where
  "clock_test K clk s = do {
     let (tnow, s) = now K clk s;
     (tfd, s) \<leftarrow> arm K (-1) clk 0 (tmr_spec (500 * 1000) 0) s;
     let s = wait_report K 4 clk tfd tnow s;
     let (tnow, s) = now K clk s;
     (tfd, s) \<leftarrow> arm K tfd clk TFD_TIMER_ABSTIME (tmr_spec (tnow + 500 * 1000) 0) s;
     let s = wait_report K 4 clk tfd tnow s;
     let (tnow, s) = now K clk s;
     (tfd, s) \<leftarrow> arm K tfd clk TFD_TIMER_ABSTIME (tmr_spec (tnow + 100 * 1000) (100 * 1000)) s;
     let s = s\<lparr>kern := tk_sleep K 2 (kern s)\<rparr>;
     let s = wait_report K 4 clk tfd tnow s;
     let (tnow, s) = now K clk s;
     (tfd, s) \<leftarrow> arm K tfd clk 0 (tmr_spec (100 * 1000) 0) s;
     let s = wait_report K 4 clk tfd tnow s;
     Some (nonblock_test K 4 tfd s) }"

definition tst_init :: "'k \<Rightarrow> 'k tst" where
  "tst_init k = \<lparr>kern = k, arms = [], reports = []\<rparr>"

text \<open>The exit status and, when it is 0, what has been armed and printed.\<close>

definition timerfd_test_main :: "'k tmr_kernel \<Rightarrow> 'k \<Rightarrow> int \<times> 'k tst option" where
  "timerfd_test_main K k = (case foldM (clock_test K) [CLOCK_MONOTONIC, CLOCK_REALTIME] (tst_init k) of
     None \<Rightarrow> (1, None) | Some s \<Rightarrow> (0, Some s))"

text \<open>\<^verbatim>\<open>timerfd-test2.c\<close>: the descriptor is made once and armed by a call of its own, and the periodic timer is asked for its state
  after the first of two seconds.\<close>

definition settime :: "'k tmr_kernel \<Rightarrow> int \<Rightarrow> int \<Rightarrow> itimerspec \<Rightarrow> 'k tst \<Rightarrow> 'k tst option" where
  "settime K tfd flags tmr s =
     (let (r, k) = timerfd_settime K tfd flags tmr (kern s);
          s = s\<lparr>kern := k, arms := arms s @ [(flags, tmr)]\<rparr>
      in if r \<noteq> 0 then None else Some s)"

definition clock_test2 :: "'k tmr_kernel \<Rightarrow> int \<Rightarrow> 'k tst \<Rightarrow> 'k tst option" where
  "clock_test2 K clk s = do {
     let (tnow, s) = now K clk s;
     let (tfd, k) = timerfd_create K clk 0 (kern s);
     let s = s\<lparr>kern := k\<rparr>;
     s \<leftarrow> (if tfd = -1 then None else Some s);
     s \<leftarrow> settime K tfd 0 (tmr_spec (500 * 1000) 0) s;
     let s = wait_report K 8 clk tfd tnow s;
     let (tnow, s) = now K clk s;
     s \<leftarrow> settime K tfd TFD_TIMER_ABSTIME (tmr_spec (tnow + 500 * 1000) 0) s;
     let s = wait_report K 8 clk tfd tnow s;
     let (tnow, s) = now K clk s;
     s \<leftarrow> settime K tfd TFD_TIMER_ABSTIME (tmr_spec (tnow + 100 * 1000) (100 * 1000)) s;
     let (r, k) = timerfd_gettime K tfd (tk_sleep K 1 (kern s));
     s \<leftarrow> (if r \<noteq> 0 then None else Some (s\<lparr>kern := tk_sleep K 1 k\<rparr>));
     let s = wait_report K 8 clk tfd tnow s;
     let (tnow, s) = now K clk s;
     s \<leftarrow> settime K tfd 0 (tmr_spec (100 * 1000) 0) s;
     let s = wait_report K 8 clk tfd tnow s;
     Some (nonblock_test K 8 tfd s) }"

definition timerfd_test2_main :: "'k tmr_kernel \<Rightarrow> 'k \<Rightarrow> int \<times> 'k tst option" where
  "timerfd_test2_main K k = (case foldM (clock_test2 K) [CLOCK_MONOTONIC, CLOCK_REALTIME] (tst_init k) of
     None \<Rightarrow> (1, None) | Some s \<Rightarrow> (0, Some s))"


subsection \<open>What the kernel is asked for\<close>

definition valid_timespec :: "timespec \<Rightarrow> bool" where
  "valid_timespec ts \<longleftrightarrow> 0 \<le> tv_sec ts \<and> 0 \<le> tv_nsec ts \<and> tv_nsec ts < 1000000000"

text \<open>The time it stands for, in nanoseconds.\<close>

definition timespec_ns :: "timespec \<Rightarrow> int" where
  "timespec_ns ts = tv_sec ts * 1000000000 + tv_nsec ts"

lemma set_timespec_fields:
  "tv_sec (set_timespec us) = uint us div 1000000" "tv_nsec (set_timespec us) = 1000 * (uint us mod 1000000)"
proof -
  have u: "0 \<le> uint us" "uint us < 2 ^ 64" using uint_bounded [of us] by simp_all
  have d: "uint (us div 1000000) = uint us div 1000000" "uint (us mod 1000000) = uint us mod 1000000"
    by (simp_all add: uint_div uint_mod)
  have m: "uint us mod 1000000 < 1000000" "0 \<le> uint us mod 1000000" by simp_all
  have p: "uint (1000 * (us mod 1000000)) = 1000 * (uint us mod 1000000)"
    unfolding uint_word_ariths(3) d using m by (simp add: mod_pos_pos_trivial)
  have s: "sint w = uint w" if "uint w < 2 ^ 63" for w :: u64
    using sint64_of_int [of "uint w", OF order_trans [of _ 0]] that by simp
  have "uint us div 1000000 < 2 ^ 63" using u by (intro le_less_trans [OF zdiv_mono1 [OF less_imp_le [OF u(2)]]]) simp_all
  then show "tv_sec (set_timespec us) = uint us div 1000000" using s [of "us div 1000000"] by (simp add: set_timespec_def d)
  show "tv_nsec (set_timespec us) = 1000 * (uint us mod 1000000)"
    using s [of "1000 * (us mod 1000000)"] m unfolding p by (simp add: set_timespec_def)
qed

lemma set_timespec_valid: "valid_timespec (set_timespec us)"
  by (simp add: valid_timespec_def set_timespec_fields pos_imp_zdiv_nonneg_iff)

lemma set_timespec_ns: "timespec_ns (set_timespec us) = 1000 * uint us"
  using div_mult_mod_eq [of "uint us" 1000000] unfolding timespec_ns_def set_timespec_fields by linarith

lemma now_keeps: "now K clk s = (t, s') \<Longrightarrow> arms s' = arms s \<and> reports s' = reports s"
  by (auto simp: now_def split: prod.splits)

lemma wait_report_adds: "arms (wait_report K sz clk tfd t s) = arms s \<and> length (reports (wait_report K sz clk tfd t s)) = Suc (length (reports s))"
  by (simp add: wait_report_def split: prod.splits)

lemma nonblock_test_adds: "arms (nonblock_test K sz tfd s) = arms s \<and> length (reports (nonblock_test K sz tfd s)) = Suc (length (reports s))"
  by (simp add: nonblock_test_def Let_def split: prod.splits)

lemma arm_adds: "arm K tfd clk fl sp s = Some (tfd', s') \<Longrightarrow> arms s' = arms s @ [(fl, sp)] \<and> reports s' = reports s"
  by (auto simp: arm_def Let_def split: prod.splits if_splits)

lemma settime_adds: "settime K tfd fl sp s = Some s' \<Longrightarrow> arms s' = arms s @ [(fl, sp)] \<and> reports s' = reports s"
  by (auto simp: settime_def Let_def split: prod.splits if_splits)

text \<open>What a test of one clock arms, for some readings of the clock.\<close>

definition clock_arms :: "u64 \<Rightarrow> u64 \<Rightarrow> (int \<times> itimerspec) list" where
  "clock_arms t1 t2 = [(0, tmr_spec 500000 0), (TFD_TIMER_ABSTIME, tmr_spec (t1 + 500000) 0),
     (TFD_TIMER_ABSTIME, tmr_spec (t2 + 100000) 100000), (0, tmr_spec 100000 0)]"

lemma clock_test_adds:
  assumes "clock_test K clk s = Some s'"
  shows "\<exists>t1 t2. arms s' = arms s @ clock_arms t1 t2 \<and> length (reports s') = length (reports s) + 5"
  using assms unfolding clock_test_def clock_arms_def Let_def
  by (auto split: prod.splits bind_splits simp: wait_report_adds nonblock_test_adds dest!: now_keeps arm_adds)

lemma clock_test2_adds:
  assumes "clock_test2 K clk s = Some s'"
  shows "\<exists>t1 t2. arms s' = arms s @ clock_arms t1 t2 \<and> length (reports s') = length (reports s) + 5"
  using assms unfolding clock_test2_def clock_arms_def Let_def
  by (auto split: prod.splits bind_splits if_splits simp: wait_report_adds nonblock_test_adds dest!: now_keeps settime_adds)


lemma clock_arms_valid:
  "(fl, sp) \<in> set (clock_arms t1 t2) \<Longrightarrow> valid_timespec (it_value sp) \<and> valid_timespec (it_interval sp)"
  by (auto simp: clock_arms_def tmr_spec_def set_timespec_valid)

lemma two_clocks:
  assumes "\<And>clk s s'. test clk s = Some s' \<Longrightarrow> \<exists>t1 t2. arms s' = arms s @ clock_arms t1 t2 \<and> length (reports s') = length (reports s) + 5"
    and "foldM test [c1, c2] (tst_init k) = Some s"
  shows "\<exists>t1 t2 t3 t4. arms s = clock_arms t1 t2 @ clock_arms t3 t4 \<and> length (reports s) = 10"
proof -
  obtain s1 where s1: "test c1 (tst_init k) = Some s1" "test c2 s1 = Some s" using assms(2) by (auto split: bind_splits)
  from assms(1) [OF s1(1)] obtain t1 t2 where 1: "arms s1 = clock_arms t1 t2" "length (reports s1) = 5" by (auto simp: tst_init_def)
  from assms(1) [OF s1(2)] obtain t3 t4 where "arms s = clock_arms t1 t2 @ clock_arms t3 t4" "length (reports s) = 10" using 1 by auto
  then show ?thesis by blast
qed

subsection \<open>A kernel\<close>

text \<open>A kernel with one timer that does what the manual page says and takes no time of its own: a wait advances the time to the
  expiry. Times are in microseconds.\<close>

record tk_state =
  tk_now :: int
  tk_expiry :: int
  tk_interval :: int
  tk_armed :: bool

definition us_timespec :: "int \<Rightarrow> timespec" where
  "us_timespec t = \<lparr>tv_sec = t div 1000000, tv_nsec = 1000 * (t mod 1000000)\<rparr>"

definition tk_arm :: "int \<Rightarrow> itimerspec \<Rightarrow> tk_state \<Rightarrow> tk_state" where
  "tk_arm fl sp k = (let us = (\<lambda>ts. timespec_ns ts div 1000) in
     k\<lparr>tk_expiry := us (it_value sp) + (if fl = TFD_TIMER_ABSTIME then 0 else tk_now k), tk_interval := us (it_interval sp), tk_armed := True\<rparr>)"

definition tk_ticks :: "tk_state \<Rightarrow> int" where
  "tk_ticks k = (if \<not> tk_armed k \<or> tk_now k < tk_expiry k then 0
     else if tk_interval k = 0 then 1 else 1 + (tk_now k - tk_expiry k) div tk_interval k)"

definition ideal_kernel :: "tk_state tmr_kernel" where
  "ideal_kernel = \<lparr>clock_gettime = (\<lambda>_ k. (Some (us_timespec (tk_now k)), k)),
     timerfd = (\<lambda>fd _ fl sp k. (3, tk_arm fl sp k)), timerfd_create = (\<lambda>_ _ k. (3, k)),
     timerfd_settime = (\<lambda>fd fl sp k. (0, tk_arm fl sp k)), timerfd_gettime = (\<lambda>_ k. (0, k)),
     tk_poll = (\<lambda>_ k. ((1, True), k\<lparr>tk_now := max (tk_now k) (tk_expiry k)\<rparr>)),
     tk_read = (\<lambda>_ sz k. if tk_ticks k = 0 then (RdErr EAGAIN, k)
       else (RdTicks sz (of_int (tk_ticks k)), k\<lparr>tk_expiry := tk_expiry k + tk_ticks k * tk_interval k, tk_armed := tk_interval k \<noteq> 0\<rparr>)),
     tk_nonblock = (\<lambda>_ _ k. k), tk_sleep = (\<lambda>n k. k\<lparr>tk_now := tk_now k + int n * 1000000\<rparr>), tk_close = (\<lambda>_ k. k)\<rparr>"

definition good_reports :: "report list" where
  "good_reports = [GotTicks 1 500, GotTicks 1 500, GotTicks 20 2000, GotTicks 1 100, NonblockOk]"

lemma ideal_time: "getustime ideal_kernel clk k = (of_int (tk_now k), k)"
proof -
  have "(1000 * (t mod 1000000)) div 1000 = t mod 1000000" for t :: int by simp
  moreover have "(1000000 * of_int (t div 1000000) + of_int (t mod 1000000) :: u64) = of_int t" for t :: int
    by (metis of_int_add of_int_mult of_int_numeral mult_div_mod_eq)
  ultimately show ?thesis by (simp add: getustime_def ideal_kernel_def us_timespec_def)
qed

lemma ideal_arm:
  "tk_arm fl (tmr_spec v i) k = k\<lparr>tk_expiry := uint v + (if fl = TFD_TIMER_ABSTIME then 0 else tk_now k), tk_interval := uint i, tk_armed := True\<rparr>"
  by (simp add: tk_arm_def tmr_spec_def set_timespec_ns)

lemma ideal_calls [simp]:
  "timerfd ideal_kernel fd clk fl sp k = (3, tk_arm fl sp k)" "timerfd_create ideal_kernel clk fl k = (3, k)"
  "timerfd_settime ideal_kernel fd fl sp k = (0, tk_arm fl sp k)" "timerfd_gettime ideal_kernel fd k = (0, k)"
  "tk_sleep ideal_kernel n k = k\<lparr>tk_now := tk_now k + int n * 1000000\<rparr>"
  by (simp_all add: ideal_kernel_def)

lemma ideal_now [simp]: "now ideal_kernel clk s = (of_int (tk_now (kern s)), s)"
  by (simp add: now_def ideal_time)

text \<open>A wait for a timer that expires \<open>n\<close> times by then.\<close>

lemma ideal_wait:
  assumes "tk_ticks (k\<lparr>tk_now := t\<rparr>) = n" "t = max (tk_now k) (tk_expiry k)" "kern s = k" "sz = 4 \<or> sz = 8" "0 < n" "n < 100"
  shows "wait_report ideal_kernel sz clk tfd t0 s = s\<lparr>kern := k\<lparr>tk_now := t, tk_expiry := tk_expiry k + n * tk_interval k,
    tk_armed := tk_interval k \<noteq> 0\<rparr>, reports := reports s @ [GotTicks n ((of_int t - t0) div 1000)]\<rparr>"
proof -
  have u: "uint (of_int n :: u32) = n" "uint (of_int n :: u64) = n" using assms(5,6) by (simp_all add: uint_word_of_int)
  have "(ucast (of_int n :: u64) :: u32) = of_int n" by (metis u of_int_uint ucast_eq word_of_int_uint)
  moreover have "sint (of_int n :: u64) = n" using assms(5,6) by (intro sint64_of_int) auto
  ultimately have "waittmr ideal_kernel sz tfd k = (n, k\<lparr>tk_now := t, tk_expiry := tk_expiry k + n * tk_interval k, tk_armed := tk_interval k \<noteq> 0\<rparr>)"
    using assms u by (auto simp: waittmr_def ideal_kernel_def)
  then show ?thesis using assms(3,5) by (simp add: wait_report_def ideal_time)
qed

lemma ideal_nonblock: "\<not> tk_armed (kern s) \<Longrightarrow> nonblock_test ideal_kernel sz tfd s = s\<lparr>reports := reports s @ [NonblockOk]\<rparr>"
  by (simp add: nonblock_test_def ideal_kernel_def tk_ticks_def EAGAIN_def)

text \<open>A timer of the tests: armed \<open>d\<close> microseconds ahead of the time \<open>t\<close>, relative or absolute, once or every \<open>i\<close>, and waited for after a
  sleep of \<open>z\<close> microseconds.\<close>

lemma uint_ahead: "0 \<le> t \<Longrightarrow> t < 2 ^ 62 \<Longrightarrow> 0 \<le> d \<Longrightarrow> d < 2 ^ 62 \<Longrightarrow> uint (of_int t + of_int d :: u64) = t + d"
  by (simp flip: of_int_add add: uint_word_of_int)

definition shot :: "int \<Rightarrow> int \<Rightarrow> int \<Rightarrow> int \<Rightarrow> (int \<times> itimerspec) list \<Rightarrow> tk_state tst \<Rightarrow> tk_state tst" where
  "shot d z i n A s = (let t = tk_now (kern s) in
     s\<lparr>kern := kern s\<lparr>tk_now := t + max z d, tk_expiry := t + d + n * i, tk_interval := i, tk_armed := i \<noteq> 0\<rparr>, arms := A,
       reports := reports s @ [GotTicks n (of_int (max z d) div 1000)]\<rparr>)"

lemma shot_now [simp]: "tk_now (kern (shot d z i n A s)) = tk_now (kern s) + max z d" "tk_armed (kern (shot d z i n A s)) = (i \<noteq> 0)"
  "reports (shot d z i n A s) = reports s @ [GotTicks n (of_int (max z d) div 1000)]"
  by (simp_all add: shot_def Let_def)

lemma ideal_shot:
  assumes "fl = 0 \<and> v = of_int d \<or> fl = TFD_TIMER_ABSTIME \<and> v = of_int (tk_now (kern s)) + of_int d"
    and "0 \<le> tk_now (kern s)" "tk_now (kern s) < 2 ^ 62" "0 < d" "d < 1000000" "0 \<le> i" "i < 1000000" "sz = 4 \<or> sz = 8"
    and "n = (if i = 0 then 1 else 1 + (max z d - d) div i)" "0 < n" "n < 100" "t0 = of_int (tk_now (kern s))" "0 \<le> z"
  shows "wait_report ideal_kernel sz clk tfd t0
      (s\<lparr>kern := tk_arm fl (tmr_spec v (of_int i)) (kern s)\<lparr>tk_now := tk_now (kern s) + z\<rparr>, arms := A\<rparr>) = shot d z i n A s"
proof -
  let ?t = "tk_now (kern s)"
  have k: "tk_arm fl (tmr_spec v (of_int i)) (kern s) = kern s\<lparr>tk_expiry := ?t + d, tk_interval := i, tk_armed := True\<rparr>"
    using assms(1-7) uint_ahead [of ?t d] by (auto simp: ideal_arm TFD_TIMER_ABSTIME_def uint_word_of_int)
  let ?k = "kern s\<lparr>tk_expiry := ?t + d, tk_interval := i, tk_armed := True, tk_now := ?t + z\<rparr>"
  have w: "wait_report ideal_kernel sz clk tfd t0 (s\<lparr>kern := ?k, arms := A\<rparr>)
    = s\<lparr>kern := ?k\<lparr>tk_now := ?t + max z d, tk_expiry := tk_expiry ?k + n * tk_interval ?k, tk_armed := tk_interval ?k \<noteq> 0\<rparr>, arms := A,
        reports := reports s @ [GotTicks n ((of_int (?t + max z d) - t0) div 1000)]\<rparr>"
    by (subst ideal_wait [where t = "?t + max z d" and n = n and k = ?k]) (use assms in \<open>auto simp: tk_ticks_def\<close>)
  show ?thesis unfolding k using w by (simp add: shot_def Let_def assms(12))
qed

lemma tk_arm_now [simp]: "tk_now (tk_arm fl sp k) = tk_now k" "(tk_arm fl sp k)\<lparr>tk_now := tk_now k\<rparr> = tk_arm fl sp k"
  by (simp_all add: tk_arm_def Let_def)

lemma tst_swap: "s\<lparr>arms := A, kern := k\<rparr> = s\<lparr>kern := k, arms := A\<rparr>" for s :: "'k tst"
  by simp

text \<open>The four shots of a test, in the terms of the program.\<close>

lemma test_shots:
  fixes t :: int
  assumes t: "tk_now (kern s) = t" "0 \<le> t" "t < 2 ^ 61" and sz: "sz = 4 \<or> sz = 8"
  shows "wait_report ideal_kernel sz clk tfd (of_int t) (s\<lparr>kern := tk_arm 0 (tmr_spec 500000 0) (kern s), arms := A\<rparr>) = shot 500000 0 0 1 A s"
    "wait_report ideal_kernel sz clk tfd (of_int t) (s\<lparr>kern := tk_arm TFD_TIMER_ABSTIME (tmr_spec (of_int t + 500000) 0) (kern s), arms := A\<rparr>)
      = shot 500000 0 0 1 A s"
    "wait_report ideal_kernel sz clk tfd (of_int t) (s\<lparr>arms := A, kern := tk_arm TFD_TIMER_ABSTIME (tmr_spec (of_int t + 100000) 100000) (kern s)
        \<lparr>tk_now := t + 2000000\<rparr>\<rparr>) = shot 100000 2000000 100000 20 A s"
    "wait_report ideal_kernel sz clk tfd (of_int t) (s\<lparr>kern := tk_arm 0 (tmr_spec 100000 0) (kern s), arms := A\<rparr>) = shot 100000 0 0 1 A s"
  using t sz ideal_shot [of 0 500000 500000 s 0 sz 1 0 "of_int t" clk tfd A]
    ideal_shot [of TFD_TIMER_ABSTIME "of_int t + 500000" 500000 s 0 sz 1 0 "of_int t" clk tfd A]
    ideal_shot [of TFD_TIMER_ABSTIME "of_int t + 100000" 100000 s 100000 sz 20 2000000 "of_int t" clk tfd A]
    ideal_shot [of 0 100000 100000 s 0 sz 1 0 "of_int t" clk tfd A]
  by (auto simp: tst_swap simp flip: t(1))

lemma four_shots:
  assumes t: "tk_now (kern s) = t" "0 \<le> t" "t < 2 ^ 60" and sz: "sz = 4 \<or> sz = 8"
  obtains s1 s2 s3 s4 t1 t2 t3 where
    "wait_report ideal_kernel sz clk tfd (of_int t) (s\<lparr>kern := tk_arm 0 (tmr_spec 500000 0) (kern s), arms := arms s @ [(0, tmr_spec 500000 0)]\<rparr>) = s1"
    "tk_now (kern s1) = t1"
    "wait_report ideal_kernel sz clk tfd (of_int t1) (s1\<lparr>kern := tk_arm TFD_TIMER_ABSTIME (tmr_spec (of_int t1 + 500000) 0) (kern s1),
       arms := arms s1 @ [(TFD_TIMER_ABSTIME, tmr_spec (of_int t1 + 500000) 0)]\<rparr>) = s2"
    "tk_now (kern s2) = t2"
    "wait_report ideal_kernel sz clk tfd (of_int t2) (s2\<lparr>arms := arms s2 @ [(TFD_TIMER_ABSTIME, tmr_spec (of_int t2 + 100000) 100000)],
       kern := tk_arm TFD_TIMER_ABSTIME (tmr_spec (of_int t2 + 100000) 100000) (kern s2)\<lparr>tk_now := t2 + 2000000\<rparr>\<rparr>) = s3"
    "tk_now (kern s3) = t3"
    "wait_report ideal_kernel sz clk tfd (of_int t3) (s3\<lparr>kern := tk_arm 0 (tmr_spec 100000 0) (kern s3), arms := arms s3 @ [(0, tmr_spec 100000 0)]\<rparr>) = s4"
    "tk_now (kern s4) = t + 3100000" "\<not> tk_armed (kern s4)" "reports s4 @ [NonblockOk] = reports s @ good_reports"
proof -
  define s1 where "s1 = shot 500000 0 0 1 (arms s @ [(0, tmr_spec 500000 0)]) s"
  define t1 where "t1 = t + 500000"
  have 1: "tk_now (kern s1) = t1" "0 \<le> t1" "t1 < 2 ^ 61" using t by (simp_all add: s1_def t1_def)
  define s2 where "s2 = shot 500000 0 0 1 (arms s1 @ [(TFD_TIMER_ABSTIME, tmr_spec (of_int t1 + 500000) 0)]) s1"
  define t2 where "t2 = t1 + 500000"
  have 2: "tk_now (kern s2) = t2" "0 \<le> t2" "t2 < 2 ^ 61" using t 1 by (simp_all add: s2_def t1_def t2_def)
  define s3 where "s3 = shot 100000 2000000 100000 20 (arms s2 @ [(TFD_TIMER_ABSTIME, tmr_spec (of_int t2 + 100000) 100000)]) s2"
  define t3 where "t3 = t2 + 2000000"
  have 3: "tk_now (kern s3) = t3" "0 \<le> t3" "t3 < 2 ^ 61" using t 2 by (simp_all add: s3_def t1_def t2_def t3_def)
  define s4 where "s4 = shot 100000 0 0 1 (arms s3 @ [(0, tmr_spec 100000 0)]) s3"
  have "t < 2 ^ 61" using t(3) by simp
  from test_shots(1) [OF t(1,2) this sz, of clk tfd "arms s @ [(0, tmr_spec 500000 0)]", folded s1_def]
  have e1: "wait_report ideal_kernel sz clk tfd (of_int t) (s\<lparr>kern := tk_arm 0 (tmr_spec 500000 0) (kern s),
    arms := arms s @ [(0, tmr_spec 500000 0)]\<rparr>) = s1" .
  note e2 = test_shots(2) [OF 1 sz, of clk tfd "arms s1 @ [(TFD_TIMER_ABSTIME, tmr_spec (of_int t1 + 500000) 0)]", folded s2_def]
  note e3 = test_shots(3) [OF 2 sz, of clk tfd "arms s2 @ [(TFD_TIMER_ABSTIME, tmr_spec (of_int t2 + 100000) 100000)]", folded s3_def]
  note e4 = test_shots(4) [OF 3 sz, of clk tfd "arms s3 @ [(0, tmr_spec 100000 0)]", folded s4_def]
  have r: "tk_now (kern s4) = t + 3100000" "\<not> tk_armed (kern s4)" "reports s4 @ [NonblockOk] = reports s @ good_reports"
    using 3(1) by (simp_all add: s4_def t3_def t2_def t1_def) (simp add: s3_def s2_def s1_def good_reports_def)
  show thesis by (rule that [OF e1 1(1) e2 2(1) e3 3(1) e4 r])
qed

lemma ideal_clock_test:
  assumes "tk_now (kern s) = t" "0 \<le> t" "t < 2 ^ 60"
  shows "\<exists>s'. clock_test ideal_kernel clk s = Some s' \<and> reports s' = reports s @ good_reports \<and> tk_now (kern s') = t + 3100000"
  by (rule four_shots [OF assms, of 4 clk 3]) (simp_all add: clock_test_def arm_def Let_def assms(1) ideal_nonblock)

lemma ideal_clock_test2:
  assumes "tk_now (kern s) = t" "0 \<le> t" "t < 2 ^ 60"
  shows "\<exists>s'. clock_test2 ideal_kernel clk s = Some s' \<and> reports s' = reports s @ good_reports \<and> tk_now (kern s') = t + 3100000"
  by (rule four_shots [OF assms, of 8 clk 3]) (simp_all add: clock_test2_def settime_def Let_def assms(1) ideal_nonblock add.commute [of "2000000 :: int"])

lemma ideal_both_clocks:
  assumes "\<And>clk s t. tk_now (kern s) = t \<Longrightarrow> 0 \<le> t \<Longrightarrow> t < 2 ^ 60 \<Longrightarrow>
      \<exists>s'. test clk s = Some s' \<and> reports s' = reports s @ good_reports \<and> tk_now (kern s') = t + 3100000"
    and "0 \<le> tk_now k" "tk_now k < 2 ^ 59"
  shows "\<exists>s. foldM test [c1, c2] (tst_init k) = Some s \<and> reports s = good_reports @ good_reports"
proof -
  obtain s1 where 1: "test c1 (tst_init k) = Some s1" "reports s1 = good_reports" "tk_now (kern s1) = tk_now k + 3100000"
    using assms(1) [of "tst_init k" "tk_now k" c1] assms(2,3) by (auto simp: tst_init_def)
  obtain s2 where "test c2 s1 = Some s2" "reports s2 = good_reports @ good_reports"
    using assms(1) [OF 1(3), of c2] assms(2,3) 1(2) by auto
  then show ?thesis using 1(1) by simp
qed

subsection \<open>Properties\<close>



text \<open>On a kernel that keeps the contract of timer descriptors and starts at any time before the year 20000 or so, both programs
  exit with 0 and print the results they are meant to: one tick after 500 ms, twice, 20 ticks of the 100 ms timer after the two seconds
  of sleep, one tick after 100 ms, and then an empty descriptor.\<close>

theorem timers_pass:
  assumes "0 \<le> tk_now k" "tk_now k < 2 ^ 59"
  shows "(\<exists>s. timerfd_test_main ideal_kernel k = (0, Some s) \<and> reports s = good_reports @ good_reports)
    \<and> (\<exists>s. timerfd_test2_main ideal_kernel k = (0, Some s) \<and> reports s = good_reports @ good_reports)"
  using ideal_both_clocks [of "clock_test ideal_kernel" k CLOCK_MONOTONIC CLOCK_REALTIME, OF ideal_clock_test assms]
    ideal_both_clocks [of "clock_test2 ideal_kernel" k CLOCK_MONOTONIC CLOCK_REALTIME, OF ideal_clock_test2 assms]
  by (auto simp: timerfd_test_main_def timerfd_test2_main_def simp del: foldM.simps)

end
