(* ===== verification/SigTest.thy ===== *)
theory SigTest
  imports Systems
begin

text \<open>
  \<^verbatim>\<open>signalfd-test.c\<close>: signals are blocked and read from descriptors. Modelled are the wrappers, the loop that reads the descriptors an epoll
  descriptor reports, the eight threads that pass a signal on to each other and what follows them in \<^verbatim>\<open>main\<close>. The signals
  pending for the process are kept by the kernel as a set: one that is sent while it is pending is not queued a second time.
\<close>

definition SIGUSR2 :: int where "SIGUSR2 = 12"
definition TEST_SIG :: int where "TEST_SIG = SIGUSR2"
definition SIG_EAGAIN :: int where "SIG_EAGAIN = 11"

subsection \<open>Wrappers\<close>

text \<open>Given the answers of the kernel, the result, or \<open>Inl\<close> the exit status of the process.\<close>

definition xsignalfd :: "int \<Rightarrow> int + int" where
  "xsignalfd fd = (if fd = -1 then Inl 1 else Inr fd)"

definition xepollfd :: "int \<Rightarrow> int + int" where
  "xepollfd fd = (if fd = -1 then Inl 1 else Inr fd)"

definition xepoll_add :: "int \<Rightarrow> int + unit" where
  "xepoll_add r = (if r = -1 then Inl 1 else Inr ())"

definition xthread_new :: "int \<Rightarrow> int + int" where
  "xthread_new tid = (if tid = 0 then Inl 1 else Inr tid)"

text \<open>The loop that creates the descriptors and adds them; the answers of \<^verbatim>\<open>signalfd\<close> and \<^verbatim>\<open>epoll_ctl\<close> to the \<open>i\<close>-th call are
  \<open>sfd i\<close> and \<open>add i\<close>.\<close>

fun create_loop :: "(nat \<Rightarrow> int) \<Rightarrow> (nat \<Rightarrow> int) \<Rightarrow> nat \<Rightarrow> nat \<Rightarrow> int list \<Rightarrow> int + int list" where
  "create_loop sfd add i 0 sfds = Inr sfds"
| "create_loop sfd add i (Suc n) sfds = (case xsignalfd (sfd i) of Inl e \<Rightarrow> Inl e
     | Inr fd \<Rightarrow> (case xepoll_add (add i) of Inl e \<Rightarrow> Inl e | Inr _ \<Rightarrow> create_loop sfd add (Suc i) n (sfds @ [fd])))"

definition xcreate_epoll_signalfds :: "int \<Rightarrow> (nat \<Rightarrow> int) \<Rightarrow> (nat \<Rightarrow> int) \<Rightarrow> nat \<Rightarrow> int + int \<times> int list" where
  "xcreate_epoll_signalfds efd sfd add n = (case xepollfd efd of Inl e \<Rightarrow> Inl e
     | Inr efd \<Rightarrow> map_sum id (\<lambda>sfds. (efd, sfds)) (create_loop sfd add 0 n []))"

text \<open>The parent's part of \<^verbatim>\<open>run_proc_in_child\<close>: \<open>pid\<close> is the answer of \<^verbatim>\<open>fork\<close>, \<open>pproc\<close> what the procedure of the parent does, an exit or a
  return, \<open>w\<close> the answer of \<^verbatim>\<open>waitpid\<close>.\<close>

definition run_proc_in_child :: "int \<Rightarrow> (int + unit) option \<Rightarrow> int \<Rightarrow> int + unit" where
  "run_proc_in_child pid pproc w =
     (if pid = -1 then Inl 1
      else case (case pproc of None \<Rightarrow> Inr () | Some p \<Rightarrow> p) of Inl e \<Rightarrow> Inl e
        | Inr _ \<Rightarrow> if w \<noteq> pid then Inl 1 else Inr ())"

text \<open>\<open>r\<close> and \<open>pollin\<close> are the answer of \<^verbatim>\<open>poll\<close>, \<open>n\<close> that of \<^verbatim>\<open>read\<close>.\<close>

definition waitsig :: "int \<Rightarrow> bool \<Rightarrow> int \<Rightarrow> int \<Rightarrow> int" where
  "waitsig r pollin n signo =
     (if r < 0 then -1 else if \<not> pollin then -1 else if n < 0 then -1 else if n = 0 then 0 else signo)"

text \<open>\<^verbatim>\<open>waitsig(sfd, 0)\<close> and a read that does not block, on the signals pending in the order the kernel hands them out.\<close>

fun waitsig_poll :: "int list \<Rightarrow> int \<times> int list" where
  "waitsig_poll [] = (waitsig 0 False 0 0, [])"
| "waitsig_poll (x # xs) = (waitsig 1 True 128 x, xs)"

subsection \<open>\<^verbatim>\<open>xepoll_wait_sigs\<close>\<close>

text \<open>All descriptors are ready as long as a signal is pending: the \<open>k\<close>-th call reports \<open>ready k\<close>, some of them, or none when no
  signal is pending. What a read finds is printed: the signal, or that it has been stolen.\<close>

datatype sigread = Read int int | Stolen int

fun read_events :: "int list \<Rightarrow> int list \<Rightarrow> sigread list \<times> int list" where
  "read_events [] pend = ([], pend)"
| "read_events (fd # fds) [] = (let (out, pend) = read_events fds [] in (Stolen fd # out, pend))"
| "read_events (fd # fds) (x # pend) = (let (out, pend) = read_events fds pend in (Read x fd # out, pend))"

partial_function (option) xepoll_loop :: "(nat \<Rightarrow> int list) \<Rightarrow> nat \<Rightarrow> nat \<Rightarrow> int list \<Rightarrow> sigread list \<Rightarrow> (nat \<times> sigread list \<times> int list) option" where
  "xepoll_loop ready k count pend out =
     (let fds = (if pend = [] then [] else ready k) in
      if fds = [] then Some (count, out, pend)
      else let (o1, pend) = read_events fds pend in xepoll_loop ready (Suc k) (count + length fds) pend (out @ o1))"

definition xepoll_wait_sigs :: "(nat \<Rightarrow> int list) \<Rightarrow> int list \<Rightarrow> (nat \<times> sigread list \<times> int list) option" where
  "xepoll_wait_sigs ready pend = xepoll_loop ready 0 0 pend []"

subsection \<open>The threads\<close>

text \<open>A thread waits for a signal, or it has left its loop and is about to send the test signal, or it has returned.\<close>

datatype spos = SWaiting | SQuitting | SGone

record sig_state =
  sig_pend :: "int set"
  sig_threads :: "spos list"

text \<open>The end of a pass of \<^verbatim>\<open>thproc\<close>, with what \<^verbatim>\<open>waitsig\<close> has returned.\<close>

definition thproc_next :: "int \<Rightarrow> spos" where
  "thproc_next sig = (if sig > 0 then if sig = TEST_SIG then SQuitting else SWaiting else SQuitting)"

inductive sig_step :: "sig_state \<Rightarrow> sig_state \<Rightarrow> bool" where
  take: "i < length (sig_threads s) \<Longrightarrow> sig_threads s ! i = SWaiting \<Longrightarrow> x \<in> sig_pend s \<Longrightarrow> 0 < x \<Longrightarrow>
    sig_step s (s\<lparr>sig_pend := sig_pend s - {x}, sig_threads := (sig_threads s)[i := thproc_next (waitsig 1 True 128 x)]\<rparr>)"
| wait_fails: "i < length (sig_threads s) \<Longrightarrow> sig_threads s ! i = SWaiting \<Longrightarrow> r < 0 \<Longrightarrow>
    sig_step s (s\<lparr>sig_threads := (sig_threads s)[i := thproc_next (waitsig r pollin n x)]\<rparr>)"
| quit: "i < length (sig_threads s) \<Longrightarrow> sig_threads s ! i = SQuitting \<Longrightarrow>
    sig_step s (s\<lparr>sig_pend := insert TEST_SIG (sig_pend s), sig_threads := (sig_threads s)[i := SGone]\<rparr>)"

text \<open>\<^verbatim>\<open>main\<close> starts eight threads and sends the test signal.\<close>

definition sig_start :: "int set \<Rightarrow> sig_state" where
  "sig_start pend = \<lparr>sig_pend = insert TEST_SIG pend, sig_threads = replicate 8 SWaiting\<rparr>"

text \<open>After the threads have been joined it flushes what is pending and tests a read that does not block.\<close>

fun flush_loop :: "int list \<Rightarrow> int list" where
  "flush_loop [] = []"
| "flush_loop (x # xs) = (if fst (waitsig_poll (x # xs)) > 0 then flush_loop (snd (waitsig_poll (x # xs))) else xs)"

datatype nb_report = NbRead | NbErrno int | NbSuccess

definition nonblock_read :: "int list \<Rightarrow> int \<Rightarrow> nb_report" where
  "nonblock_read pend errno = (if pend \<noteq> [] then NbRead else if errno \<noteq> SIG_EAGAIN then NbErrno errno else NbSuccess)"

subsection \<open>Reading the descriptors\<close>

lemma read_events_takes:
  "snd (read_events fds pend) = drop (length fds) pend
   \<and> fst (read_events fds pend) = map (\<lambda>(x, fd). Read x fd) (zip pend fds) @ map Stolen (drop (length pend) fds)"
  by (induction fds pend rule: read_events.induct) (simp_all add: split_def Let_def)

definition sigs_read :: "sigread list \<Rightarrow> int list" where
  "sigs_read out = concat (map (\<lambda>r. case r of Read x _ \<Rightarrow> [x] | Stolen _ \<Rightarrow> []) out)"

lemma sigs_read_append [simp]: "sigs_read (xs @ ys) = sigs_read xs @ sigs_read ys"
  by (simp add: sigs_read_def)

lemma sigs_read_events: "sigs_read (fst (read_events fds pend)) = take (length fds) pend"
proof (induction fds pend rule: read_events.induct)
  case (3 fd fds x pend)
  then show ?case by (simp add: split_def Let_def sigs_read_def)
qed (simp_all add: split_def Let_def sigs_read_def)

lemma read_events_length: "length (fst (read_events fds pend)) = length fds"
  by (induction fds pend rule: read_events.induct) (simp_all add: split_def Let_def)

lemma xepoll_loop_reads:
  assumes "\<And>k. ready k \<noteq> []"
  shows "\<exists>c o'. xepoll_loop ready k count pend out = Some (c, out @ o', []) \<and> sigs_read o' = pend \<and> c = count + length o'"
proof (induction "length pend" arbitrary: k count pend out rule: less_induct)
  case less
  show ?case
  proof (cases "pend = []")
    case True
    then show ?thesis by (subst xepoll_loop.simps) (simp add: sigs_read_def)
  next
    case False
    define o1 where "o1 = fst (read_events (ready k) pend)"
    define p1 where "p1 = drop (length (ready k)) pend"
    have e: "read_events (ready k) pend = (o1, p1)" using read_events_takes [of "ready k" pend] by (simp add: o1_def p1_def prod_eq_iff)
    have "length p1 < length pend" using False assms [of k] by (simp add: p1_def)
    from less.hyps [OF this, of "Suc k" "count + length (ready k)" "out @ o1"] obtain c o' where
      r: "xepoll_loop ready (Suc k) (count + length (ready k)) p1 (out @ o1) = Some (c, out @ o1 @ o', [])" "sigs_read o' = p1"
        "c = count + length (ready k) + length o'" by auto
    have "sigs_read (o1 @ o') = pend" using sigs_read_events [of "ready k" pend] r(2) by (simp add: o1_def p1_def)
    moreover have "length o1 = length (ready k)" by (simp add: o1_def read_events_length)
    ultimately show ?thesis
      by (subst xepoll_loop.simps) (use False assms [of k] e r in \<open>auto simp: Let_def intro!: exI [of _ "o1 @ o'"]\<close>)
  qed
qed

subsection \<open>The chain of threads\<close>

definition sig_inv :: "sig_state \<Rightarrow> bool" where
  "sig_inv s \<longleftrightarrow> length (sig_threads s) = 8 \<and> finite (sig_pend s) \<and> (\<forall>x\<in>sig_pend s. 0 < x)
     \<and> (TEST_SIG \<in> sig_pend s \<or> SQuitting \<in> set (sig_threads s))"

fun spos_weight :: "spos \<Rightarrow> nat" where
  "spos_weight SWaiting = 4"
| "spos_weight SQuitting = 2"
| "spos_weight SGone = 0"

definition sig_weight :: "sig_state \<Rightarrow> nat" where
  "sig_weight s = card (sig_pend s) + sum_list (map spos_weight (sig_threads s))"

definition sig_ended :: "sig_state \<Rightarrow> bool" where
  "sig_ended s \<longleftrightarrow> sig_threads s = replicate 8 SGone \<and> TEST_SIG \<in> sig_pend s"

lemma thproc_next_simps [simp]:
  "thproc_next TEST_SIG = SQuitting" "r < 0 \<Longrightarrow> thproc_next (waitsig r p n x) = SQuitting"
  "0 < x \<Longrightarrow> thproc_next (waitsig 1 True 128 x) = (if x = TEST_SIG then SQuitting else SWaiting)"
  by (simp_all add: thproc_next_def waitsig_def TEST_SIG_def SIGUSR2_def)

lemma still_quitting: "i < length ts \<Longrightarrow> ts ! i = SWaiting \<Longrightarrow> SQuitting \<in> set ts \<Longrightarrow> SQuitting \<in> set (ts[i := p])"
  by (metis in_set_conv_nth length_list_update nth_list_update_neq spos.distinct(1))

lemma sig_inv_step: "sig_inv s \<Longrightarrow> sig_step s s' \<Longrightarrow> sig_inv s'"
proof (erule sig_step.cases, goal_cases)
  case (1 i t x)
  then show ?case
    using still_quitting [of i "sig_threads t" SWaiting] by (cases "x = TEST_SIG") (auto simp: sig_inv_def set_update_memI)
qed (auto simp: sig_inv_def set_update_memI TEST_SIG_def SIGUSR2_def)

lemma weight_update:
  "i < length ts \<Longrightarrow> sum_list (map spos_weight (ts[i := p])) + spos_weight (ts ! i) = sum_list (map spos_weight ts) + spos_weight p"
proof -
  assume "i < length ts"
  then have "sum_list (map spos_weight (ts[i := p])) = sum_list (map spos_weight ts) + spos_weight p - spos_weight (ts ! i)"
    by (simp add: map_update sum_list_update)
  moreover have "spos_weight (ts ! i) \<le> sum_list (map spos_weight ts)"
    using \<open>i < length ts\<close> by (intro member_le_sum_list) auto
  ultimately show ?thesis by simp
qed

lemma sig_step_weight: "sig_inv s \<Longrightarrow> sig_step s s' \<Longrightarrow> sig_weight s' < sig_weight s"
proof (erule sig_step.cases, goal_cases)
  case (1 i t x)
  then have "card (sig_pend t - {x}) < card (sig_pend t)" by (intro card_Diff1_less) (auto simp: sig_inv_def)
  then show ?case using weight_update [of i "sig_threads t" "thproc_next (waitsig 1 True 128 x)"] 1
    by (auto simp: sig_weight_def split: if_splits)
next
  case (2 i t r p n x)
  then show ?case using weight_update [of i "sig_threads t" SQuitting] by (simp add: sig_weight_def)
next
  case (3 i t)
  then have "card (insert TEST_SIG (sig_pend t)) \<le> Suc (card (sig_pend t))" by (simp add: card_insert_le_m1 card_insert_if sig_inv_def)
  then show ?case using weight_update [of i "sig_threads t" SGone] 3 by (simp add: sig_weight_def)
qed

lemma sig_moves:
  assumes "sig_inv s" "\<not> sig_ended s"
  shows "\<exists>s'. sig_step s s'"
proof (cases "SQuitting \<in> set (sig_threads s)")
  case True
  then obtain i where "i < length (sig_threads s)" "sig_threads s ! i = SQuitting" by (auto simp: in_set_conv_nth)
  then show ?thesis using sig_step.quit by blast
next
  case False
  then have t: "TEST_SIG \<in> sig_pend s" using assms(1) by (auto simp: sig_inv_def)
  have "\<exists>i<8. sig_threads s ! i = SWaiting"
  proof (rule ccontr)
    assume "\<not> ?thesis"
    moreover have l: "length (sig_threads s) = 8" using assms(1) by (simp add: sig_inv_def)
    ultimately have "sig_threads s ! i = SGone" if "i < 8" for i
      using that False nth_mem [of i "sig_threads s"] by (cases "sig_threads s ! i") auto
    then have "sig_threads s = replicate 8 SGone" using l by (intro nth_equalityI) auto
    then show False using assms(2) t by (simp add: sig_ended_def)
  qed
  then show ?thesis using sig_step.take [of _ s TEST_SIG] t assms(1) by (auto simp: sig_inv_def)
qed

interpretation sig: ending_system sig_step sig_inv sig_weight sig_ended
  by unfold_locales (auto intro: sig_inv_step sig_step_weight sig_moves)

lemma flush_all: "\<forall>x\<in>set xs. 0 < x \<Longrightarrow> flush_loop xs = []"
  by (induction xs) (simp_all add: waitsig_def)

subsection \<open>Properties\<close>

text \<open>C36. Whatever other signals are pending, in whatever order the kernel hands signals out and even if waits fail, the one test
  signal that \<^verbatim>\<open>main\<close> sends ends all eight threads, because each one that takes it sends it again, although the kernel keeps at most
  one of a kind: no run has more steps than four for each thread and one for each signal, and where a run cannot go on
  all threads have returned. The flush loop that follows ends with nothing pending, so that the read without blocking reports success.\<close>

theorem sig_chain_ends:
  assumes "finite pend" "\<forall>x\<in>pend. 0 < x" "(sig_step ^^ k) (sig_start pend) s"
  shows "k \<le> card pend + 33 \<and> (\<exists>s'. sig_step\<^sup>*\<^sup>* s s' \<and> sig_threads s' = replicate 8 SGone)
    \<and> ((\<nexists>s'. sig_step s s') \<longrightarrow> sig_threads s = replicate 8 SGone
        \<and> (\<forall>xs. set xs = sig_pend s \<longrightarrow> nonblock_read (flush_loop xs) SIG_EAGAIN = NbSuccess))"
proof -
  have i0: "sig_inv (sig_start pend)" using assms(1,2) by (simp add: sig_inv_def sig_start_def TEST_SIG_def SIGUSR2_def)
  have "sig_weight (sig_start pend) \<le> card pend + 33" using assms(1)
    by (simp add: sig_weight_def sig_start_def sum_list_replicate card_insert_if numeral_eq_Suc)
  then have b: "k \<le> card pend + 33" using sig.run_bound [OF assms(3) i0] by simp
  have i: "sig_inv s" by (rule sig.run_inv [OF assms(3) i0])
  have f: "nonblock_read (flush_loop xs) SIG_EAGAIN = NbSuccess" if "set xs = sig_pend s" for xs
    using flush_all [of xs] that i by (simp add: sig_inv_def nonblock_read_def)
  have "sig_threads s = replicate 8 SGone" if "\<nexists>s'. sig_step s s'"
    using sig.stuck_ended [OF relpowp_imp_rtranclp [OF assms(3)] i0 that] by (simp add: sig_ended_def)
  moreover have "\<exists>s'. sig_step\<^sup>*\<^sup>* s s' \<and> sig_threads s' = replicate 8 SGone"
    using sig.completes [OF i] by (auto simp: sig_ended_def)
  ultimately show ?thesis using b f by blast
qed

theorem sig_chain_ends_witness:
  "\<exists>s'. sig_step\<^sup>*\<^sup>* (sig_start {17}) s' \<and> sig_threads s' = replicate 8 SGone"
  using sig_chain_ends [of "{17}" 0 "sig_start {17}"] by simp

text \<open>However many of the descriptors each call of \<^verbatim>\<open>epoll_wait\<close> reports, as long as it reports one while a signal is pending,
  the reading loop ends, has read each pending signal exactly once, in order, leaves none, and counts every event reported; the events
  beyond the signals are the reads reported as stolen.\<close>

theorem xepoll_reads_all:
  assumes "\<And>k. ready k \<noteq> []"
  shows "\<exists>c out. xepoll_wait_sigs ready pend = Some (c, out, []) \<and> sigs_read out = pend \<and> c = length out"
  using xepoll_loop_reads [of ready 0 0 pend "[]"] assms by (auto simp: xepoll_wait_sigs_def)

end
