(* ===== verification/ByteTools.thy ===== *)
theory ByteTools
  imports CStr
begin

text \<open>
  Three small programs that move bytes: \<^verbatim>\<open>chexdump.c\<close> prints its input as a C initialiser, \<^verbatim>\<open>xtty.c\<close> copies between a
  device and the terminal, \<^verbatim>\<open>deadconn.c\<close> opens connections and keeps them. The answers of the kernel, what reads return
  and whether connections succeed, are parameters.
\<close>

subsection \<open>\<^verbatim>\<open>chexdump\<close>\<close>

definition indent :: cstr where
  "indent = replicate 4 32"

fun hexdump_loop :: "nat \<Rightarrow> u8 list \<Rightarrow> cstr" where
  "hexdump_loop i [] = []"
| "hexdump_loop i (c # cs) = (if i \<noteq> 0 \<and> i mod 16 = 0 then 10 # indent else []) @ bytes '' 0x'' @ hex02 c @ bytes '','' @ hexdump_loop (Suc i) cs"

definition chexdump_main :: "u8 list \<Rightarrow> cstr" where
  "chexdump_main input = bytes ''{'' @ 10 # indent @ hexdump_loop 0 input @ [10] @ bytes ''};'' @ [10]"

text \<open>What a C compiler makes of it: the values of the constants.\<close>

fun scan_constants :: "cstr \<Rightarrow> u8 list" where
  "scan_constants (z # x # a # b # s) = (case (z = 48 \<and> x = 120, hex_val a, hex_val b) of
     (True, Some h, Some l) \<Rightarrow> of_nat (16 * h + l) # scan_constants s
   | _ \<Rightarrow> scan_constants (x # a # b # s))"
| "scan_constants _ = []"

subsection \<open>\<^verbatim>\<open>xtty\<close>\<close>

fun memchr :: "cstr \<Rightarrow> u8 \<Rightarrow> nat \<Rightarrow> nat option" where
  "memchr _ _ 0 = None"
| "memchr [] _ (Suc n) = None"
| "memchr (x # xs) c (Suc n) = (if x = c then Some 0 else map_option Suc (memchr xs c n))"

text \<open>A loop over the first \<open>n\<close> characters; an index outside the output map is a fault.\<close>

fun xtty_tr :: "cstr \<Rightarrow> nat \<Rightarrow> cstr \<Rightarrow> cstr \<Rightarrow> nat \<Rightarrow> cstr option" where
  "xtty_tr str 0 imap omap mn = Some str"
| "xtty_tr [] (Suc n) imap omap mn = None"
| "xtty_tr (c # str) (Suc n) imap omap mn = (case memchr imap c mn of
     None \<Rightarrow> map_option (Cons c) (xtty_tr str n imap omap mn)
   | Some j \<Rightarrow> if j < length omap then map_option (Cons (omap ! j)) (xtty_tr str n imap omap mn) else None)"

record termios =
  icanon :: bool
  vtime :: nat
  vmin :: nat

text \<open>\<open>tty\<close> is what \<^verbatim>\<open>tcgetattr\<close> gives, \<open>ok\<close> whether \<^verbatim>\<open>tcsetattr\<close> succeeds.\<close>

definition xtty_setnobuf :: "bool \<Rightarrow> termios option \<Rightarrow> int \<times> termios option" where
  "xtty_setnobuf ok tty = (case tty of None \<Rightarrow> (-1, None)
     | Some t \<Rightarrow> if ok then (0, Some (t\<lparr>icanon := False, vtime := 0, vmin := 1\<rparr>)) else (-1, Some t))"

record xtty_opts =
  xt_dev :: "cstr option"
  xt_atmode :: bool
  xt_quiet :: bool
  xt_log :: "cstr option"
  xt_tty :: "termios option"

text \<open>\<open>opens\<close> says which files can be opened. \<open>Inl\<close> is the exit status.\<close>

fun xtty_options :: "(cstr \<Rightarrow> bool) \<Rightarrow> bool \<Rightarrow> cstr list \<Rightarrow> xtty_opts \<Rightarrow> int + xtty_opts" where
  "xtty_options opens setok [] opt = Inr opt"
| "xtty_options opens setok (a # as) opt = (
     if a = bytes ''--dev'' then (case as of [] \<Rightarrow> Inr opt | v # as \<Rightarrow> xtty_options opens setok as (opt\<lparr>xt_dev := Some v\<rparr>))
     else if a = bytes ''--at-mode'' then xtty_options opens setok as (opt\<lparr>xt_atmode := True\<rparr>)
     else if a = bytes ''--unbuf'' then xtty_options opens setok as (opt\<lparr>xt_tty := snd (xtty_setnobuf setok (xt_tty opt))\<rparr>)
     else if a = bytes ''--quiet'' then xtty_options opens setok as (opt\<lparr>xt_quiet := True\<rparr>)
     else if a = bytes ''--logfile'' then (case as of [] \<Rightarrow> Inr opt
       | v # as \<Rightarrow> if opens v then xtty_options opens setok as (opt\<lparr>xt_log := Some v\<rparr>) else Inl 1)
     else if a = bytes ''--help'' then Inl 2
     else xtty_options opens setok as opt)"

text \<open>What is handed to \<^verbatim>\<open>write\<close> for the terminal, the log and the device. A pass of the loop is what the device and the
  terminal have: \<open>None\<close> without \<^verbatim>\<open>POLLIN\<close>, otherwise the bytes read, none at end of file, or \<open>Inl\<close> an error.\<close>

record xtty_io =
  to_term :: cstr
  to_log :: cstr
  to_dev :: cstr

type_synonym pollread = "(int + cstr) option"

definition dev_part :: "xtty_opts \<Rightarrow> pollread \<Rightarrow> xtty_io \<Rightarrow> bool \<times> xtty_io" where
  "dev_part opt r io = (case r of
     Some (Inr bs) \<Rightarrow> if bs = [] then (True, io)
       else (False, io\<lparr>to_term := (if xt_quiet opt then to_term io else to_term io @ bs),
                       to_log := (if xt_log opt = None then to_log io else to_log io @ bs)\<rparr>)
   | _ \<Rightarrow> (False, io))"

definition term_part :: "xtty_opts \<Rightarrow> pollread \<Rightarrow> xtty_io \<Rightarrow> (bool \<times> xtty_io) option" where
  "term_part opt r io = (case r of
     Some (Inr bs) \<Rightarrow> if bs = [] then Some (True, io)
       else do { bs \<leftarrow> (if xt_atmode opt then xtty_tr bs (length bs) [10] [13] 1 else Some bs);
                 Some (False, io\<lparr>to_dev := to_dev io @ bs\<rparr>) }
   | _ \<Rightarrow> Some (False, io))"

text \<open>The passes up to the end of file; the result says whether it was reached.\<close>

fun xtty_loop :: "xtty_opts \<Rightarrow> (pollread \<times> pollread) list \<Rightarrow> xtty_io \<Rightarrow> (bool \<times> xtty_io) option" where
  "xtty_loop opt [] io = Some (False, io)"
| "xtty_loop opt ((d, t) # ps) io =
     (case dev_part opt d io of (True, io) \<Rightarrow> Some (True, io)
      | (False, io) \<Rightarrow> do { (stop, io) \<leftarrow> term_part opt t io; if stop then Some (True, io) else xtty_loop opt ps io })"

text \<open>The exit status, or the passes so far when no end of file has come yet.\<close>

definition xtty_main :: "(cstr \<Rightarrow> bool) \<Rightarrow> bool \<Rightarrow> termios option \<Rightarrow> cstr list \<Rightarrow> (pollread \<times> pollread) list \<Rightarrow> (int option \<times> xtty_io) option" where
  "xtty_main opens setok tty av ps =
     (let none = \<lparr>to_term = [], to_log = [], to_dev = []\<rparr> in
      case xtty_options opens setok av \<lparr>xt_dev = None, xt_atmode = False, xt_quiet = False, xt_log = None, xt_tty = tty\<rparr> of
        Inl e \<Rightarrow> Some (Some e, none)
      | Inr opt \<Rightarrow> (case xt_dev opt of None \<Rightarrow> Some (Some 3, none)
          | Some dev \<Rightarrow> if \<not> opens dev then Some (Some 4, none)
              else map_option (\<lambda>(eof, io). (if eof then Some 0 else None, io)) (xtty_loop opt ps none)))"

subsection \<open>\<^verbatim>\<open>deadconn\<close>\<close>

definition MAX_CONNECT_ERRORS :: nat where "MAX_CONNECT_ERRORS = 4"

definition tconnect :: "int \<times> int \<Rightarrow> int" where
  "tconnect a = (case a of (sock, conn) \<Rightarrow> if sock = -1 then -1 else if conn < 0 then -1 else sock)"

record dc_opts =
  dc_server :: "cstr option"
  dc_port :: int
  dc_nconns :: int
  dc_req :: "cstr option"

fun dc_options :: "cstr list \<Rightarrow> dc_opts \<Rightarrow> dc_opts option" where
  "dc_options [] opt = Some opt"
| "dc_options (a # as) opt = (
     if a = bytes ''-s'' then (case as of [] \<Rightarrow> Some opt | v # as \<Rightarrow> dc_options as (opt\<lparr>dc_server := Some v\<rparr>))
     else if a = bytes ''-p'' then (case as of [] \<Rightarrow> Some opt | v # as \<Rightarrow> dc_options as (opt\<lparr>dc_port := atoi v\<rparr>))
     else if a = bytes ''-n'' then (case as of [] \<Rightarrow> Some opt | v # as \<Rightarrow> dc_options as (opt\<lparr>dc_nconns := atoi v\<rparr>))
     else if a = bytes ''-R'' then (case as of [] \<Rightarrow> Some opt | v # as \<Rightarrow> dc_options as (opt\<lparr>dc_req := Some v\<rparr>))
     else if a = bytes ''-h'' then None
     else dc_options as opt)"

text \<open>The attempts from number \<open>k\<close> for one connection, after \<open>errors\<close> failures: whether one succeeds and the next number.\<close>

function retry :: "(nat \<Rightarrow> int \<times> int) \<Rightarrow> nat \<Rightarrow> nat \<Rightarrow> bool \<times> nat" where
  "retry conn k errors = (if tconnect (conn k) \<noteq> -1 then (True, Suc k)
     else if errors + 1 < MAX_CONNECT_ERRORS then retry conn (Suc k) (errors + 1) else (False, Suc k))"
  by auto
termination by (relation "measure (\<lambda>(conn, k, errors). MAX_CONNECT_ERRORS - errors)") auto

text \<open>The number of connections made and the number of attempts.\<close>

function conn_loop :: "(nat \<Rightarrow> int \<times> int) \<Rightarrow> int \<Rightarrow> int \<Rightarrow> nat \<Rightarrow> int \<times> nat" where
  "conn_loop conn i nconns k = (if i < nconns then
     (case retry conn k 0 of (True, k) \<Rightarrow> conn_loop conn (i + 1) nconns k | (False, k) \<Rightarrow> (i, k)) else (i, k))"
  by auto
termination by (relation "measure (\<lambda>(conn, i, nconns, k). nat (nconns - i))") auto

text \<open>\<open>resolves\<close> says whether the name of the server has an address. \<open>Inl\<close> is the exit status; otherwise the program prints the number of
  connections and sleeps for ever.\<close>

definition deadconn_main :: "(cstr \<Rightarrow> bool) \<Rightarrow> (nat \<Rightarrow> int \<times> int) \<Rightarrow> cstr list \<Rightarrow> int + int" where
  "deadconn_main resolves conn av =
     (case dc_options av \<lparr>dc_server = None, dc_port = -1, dc_nconns = -1, dc_req = None\<rparr> of None \<Rightarrow> Inl 1
      | Some opt \<Rightarrow> (case dc_server opt of None \<Rightarrow> Inl 1
          | Some server \<Rightarrow> if dc_port opt < 0 \<or> dc_nconns opt < 0 then Inl 1
              else if \<not> resolves server then Inl 2
              else Inr (fst (conn_loop conn 0 (dc_nconns opt) 0))))"

declare retry.simps [simp del] conn_loop.simps [simp del]

subsection \<open>Reading the dump back\<close>

lemma scan_skip: "c \<noteq> 48 \<Longrightarrow> scan_constants (c # s) = scan_constants s"
proof -
  assume c: "c \<noteq> 48"
  consider "s = []" | a where "s = [a]" | a b where "s = [a, b]" | x a b r where "s = x # a # b # r"
    by (metis neq_Nil_conv)
  then show ?thesis by cases (use c in simp_all)
qed

lemma scan_hex: "scan_constants (48 # 120 # hex02 b @ s) = b # scan_constants s"
proof -
  have "hex_val (hex_digit (unat b div 16)) = Some (unat b div 16)" "hex_val (hex_digit (unat b mod 16)) = Some (unat b mod 16)"
    using hex_val_digit unat8_less [of b] by simp_all
  then show ?thesis by (simp add: hex02_def)
qed

lemma indent_bytes: "indent = [32, 32, 32, 32]"
  by (simp add: indent_def numeral_eq_Suc)

lemma dump_bytes: "bytes '' 0x'' = [32, 48, 120]" "bytes '','' = [44]" "bytes ''{'' = [123]" "bytes ''};'' = [125, 59]"
  by code_simp+

lemma scan_dump: "scan_constants (hexdump_loop i bs @ s) = bs @ scan_constants s"
proof (induction bs arbitrary: i)
  case (Cons b bs)
  have "scan_constants (bytes '' 0x'' @ hex02 b @ bytes '','' @ hexdump_loop (Suc i) bs @ s) = b # bs @ scan_constants s"
    using Cons [of "Suc i"] by (simp add: dump_bytes scan_skip scan_hex)
  then show ?case by (simp add: indent_bytes scan_skip)
qed simp

lemma hex02_no_newline: "count_list (hex02 b) 10 = 0"
proof -
  have "hex_val 10 = None" by code_simp
  then have "hex_digit d \<noteq> 10" if "d < 16" for d using hex_val_digit [OF that] by auto
  then show ?thesis using unat8_less [of b] by (auto simp: hex02_def)
qed

lemma count_list_app: "count_list (xs @ ys) c = count_list xs c + count_list ys c"
  by (induction xs) simp_all

lemma dump_lines: "count_list (hexdump_loop (Suc i) bs) 10 + i div 16 = (i + length bs) div 16"
proof (induction bs arbitrary: i)
  case (Cons b bs)
  from Cons [of "Suc i"] show ?case
    by (auto simp: count_list_app hex02_no_newline dump_bytes indent_bytes div_Suc split: if_splits)
qed simp

subsection \<open>The bridge\<close>

lemma xtty_tr_newline: "xtty_tr bs (length bs) [10] [13] 1 = Some (map (\<lambda>c. if c = 10 then 13 else c) bs)"
  by (induction bs) simp_all

definition read_data :: "pollread \<Rightarrow> cstr" where
  "read_data r = (case r of Some (Inr bs) \<Rightarrow> bs | _ \<Rightarrow> [])"

definition goes_on :: "pollread \<times> pollread \<Rightarrow> bool" where
  "goes_on p \<longleftrightarrow> fst p \<noteq> Some (Inr []) \<and> snd p \<noteq> Some (Inr [])"

text \<open>What the device sent and what was typed before the first end of file, and in its pass what the device sent.\<close>

definition from_dev :: "(pollread \<times> pollread) list \<Rightarrow> cstr" where
  "from_dev ps = concat (map (read_data \<circ> fst) (takeWhile goes_on ps)) @ concat (map (read_data \<circ> fst) (take 1 (dropWhile goes_on ps)))"

definition from_term :: "(pollread \<times> pollread) list \<Rightarrow> cstr" where
  "from_term ps = concat (map (read_data \<circ> snd) (takeWhile goes_on ps))"

lemma dev_part_reads:
  "dev_part opt r io = (r = Some (Inr []), io\<lparr>to_term := to_term io @ (if xt_quiet opt then [] else read_data r),
     to_log := to_log io @ (if xt_log opt = None then [] else read_data r)\<rparr>)"
  by (auto simp: dev_part_def read_data_def split: option.splits sum.splits)

lemma term_part_reads:
  "term_part opt r io = Some (r = Some (Inr []), io\<lparr>to_dev := to_dev io @ map (\<lambda>c. if xt_atmode opt \<and> c = 10 then 13 else c) (read_data r)\<rparr>)"
  by (auto simp: term_part_def read_data_def xtty_tr_newline [simplified] split: option.splits sum.splits)

lemma xtty_loop_reads:
  "xtty_loop opt ps io = Some (\<exists>p\<in>set ps. \<not> goes_on p, io\<lparr>
     to_term := to_term io @ (if xt_quiet opt then [] else from_dev ps),
     to_log := to_log io @ (if xt_log opt = None then [] else from_dev ps),
     to_dev := to_dev io @ map (\<lambda>c. if xt_atmode opt \<and> c = 10 then 13 else c) (from_term ps)\<rparr>)"
proof (induction opt ps io rule: xtty_loop.induct)
  case (2 opt d t ps io)
  then show ?case
    by (cases "d = Some (Inr [])"; cases "t = Some (Inr [])")
      (simp_all add: dev_part_reads term_part_reads goes_on_def from_dev_def from_term_def read_data_def)
qed (simp add: from_dev_def from_term_def)


subsection \<open>The connections\<close>

abbreviation succeeds :: "(nat \<Rightarrow> int \<times> int) \<Rightarrow> nat \<Rightarrow> bool" where
  "succeeds conn k \<equiv> tconnect (conn k) \<noteq> -1"

lemma retry_attempts:
  assumes "retry conn k errors = (ok, k')" "errors < MAX_CONNECT_ERRORS"
  shows "k < k' \<and> k' + errors \<le> k + MAX_CONNECT_ERRORS \<and> (\<forall>j. k \<le> j \<and> Suc j < k' \<longrightarrow> \<not> succeeds conn j) \<and> ok = succeeds conn (k' - 1)
    \<and> (\<not> ok \<longrightarrow> k' + errors = k + MAX_CONNECT_ERRORS)"
  using assms
proof (induction conn k errors rule: retry.induct)
  case (1 conn k errors)
  show ?case
  proof (cases "\<not> succeeds conn k \<and> errors + 1 < MAX_CONNECT_ERRORS")
    case True
    then have r: "retry conn (Suc k) (errors + 1) = (ok, k')" using 1(2) by (subst (asm) retry.simps) simp
    from 1(1) [OF _ _ r] True show ?thesis by (auto simp: less_Suc_eq_le Suc_le_eq dest: le_neq_implies_less)
  next
    case False
    then show ?thesis using 1(2,3) by (subst (asm) retry.simps) (auto split: if_splits)
  qed
qed


lemma successes_retry:
  assumes "k < k'" "\<forall>j. k \<le> j \<and> Suc j < k' \<longrightarrow> \<not> succeeds conn j"
  shows "{j. k \<le> j \<and> j < k' \<and> succeeds conn j} = (if succeeds conn (k' - 1) then {k' - 1} else {})"
proof -
  have "j = k' - 1" if "k \<le> j" "j < k'" "succeeds conn j" for j
    using assms(2) that by (metis Suc_lessI diff_Suc_1)
  then show ?thesis using assms(1) by auto
qed

lemma conn_loop_counts:
  assumes "conn_loop conn i nconns k = (n, k')" "i \<le> nconns"
  shows "i \<le> n \<and> n \<le> nconns \<and> k \<le> k' \<and> int (card {j. k \<le> j \<and> j < k' \<and> succeeds conn j}) = n - i \<and> int (k' - k) \<le> 4 * (nconns - i)
    \<and> (n < nconns \<longrightarrow> k + 4 \<le> k' \<and> (\<forall>j. k' - 4 \<le> j \<and> j < k' \<longrightarrow> \<not> succeeds conn j))"
  using assms
proof (induction conn i nconns k arbitrary: n k' rule: conn_loop.induct)
  case (1 conn i nconns k)
  show ?case
  proof (cases "i < nconns")
    case False
    then show ?thesis using 1(2,3) by (subst (asm) conn_loop.simps) simp
  next
    case True
    obtain ok k1 where r: "retry conn k 0 = (ok, k1)" by (rule prod.exhaust)
    have a: "k < k1 \<and> k1 \<le> k + 4 \<and> (\<forall>j. k \<le> j \<and> Suc j < k1 \<longrightarrow> \<not> succeeds conn j) \<and> ok = succeeds conn (k1 - 1) \<and> (\<not> ok \<longrightarrow> k1 = k + 4)"
      using retry_attempts [OF r, unfolded MAX_CONNECT_ERRORS_def] unfolding add_0_right by (metis zero_less_numeral)
    then have k1: "k < k1" "k1 \<le> k + 4" "\<forall>j. k \<le> j \<and> Suc j < k1 \<longrightarrow> \<not> succeeds conn j"
      "ok = succeeds conn (k1 - 1)" "\<not> ok \<longrightarrow> k1 = k + 4" by blast+
    have s: "{j. k \<le> j \<and> j < k1 \<and> succeeds conn j} = (if ok then {k1 - 1} else {})" using successes_retry [OF k1(1,3)] k1(4) by simp
    show ?thesis
    proof (cases ok)
      case False
      then have e: "n = i" "k' = k1" using 1(2) True r by (subst (asm) conn_loop.simps, simp)+
      have k4: "k1 = k + 4" using k1(5) False by simp
      have c: "{j. k \<le> j \<and> j < k1 \<and> succeeds conn j} = {}" using s False by simp
      then have nf: "\<forall>j. k1 - 4 \<le> j \<and> j < k1 \<longrightarrow> \<not> succeeds conn j" using k4 by auto
      show ?thesis unfolding e c by (intro conjI impI nf) (use True k4 in simp_all)
    next
      case ok: True
      then have c: "conn_loop conn (i + 1) nconns k1 = (n, k')" using 1(2) True r by (subst (asm) conn_loop.simps) simp
      have ih: "i + 1 \<le> n \<and> n \<le> nconns \<and> k1 \<le> k' \<and> int (card {j. k1 \<le> j \<and> j < k' \<and> succeeds conn j}) = n - (i + 1)
        \<and> int (k' - k1) \<le> 4 * (nconns - (i + 1))
        \<and> (n < nconns \<longrightarrow> k1 + 4 \<le> k' \<and> (\<forall>j. k' - 4 \<le> j \<and> j < k' \<longrightarrow> \<not> succeeds conn j))"
        by (rule 1(1) [OF True r [symmetric] _ c]) (use ok True in simp_all)
      have "{j. k \<le> j \<and> j < k' \<and> succeeds conn j} = insert (k1 - 1) {j. k1 \<le> j \<and> j < k' \<and> succeeds conn j}"
      proof -
        have "{j. k \<le> j \<and> j < k' \<and> succeeds conn j} = {j. k \<le> j \<and> j < k1 \<and> succeeds conn j} \<union> {j. k1 \<le> j \<and> j < k' \<and> succeeds conn j}"
          using ih k1(1) by auto
        then show ?thesis using s ok by simp
      qed
      moreover have "finite {j. k1 \<le> j \<and> j < k' \<and> succeeds conn j}" by (rule finite_subset [of _ "{..<k'}"]) auto
      moreover have "k1 - 1 \<notin> {j. k1 \<le> j \<and> j < k' \<and> succeeds conn j}" using k1(1) by auto
      ultimately have "int (card {j. k \<le> j \<and> j < k' \<and> succeeds conn j}) = n - i" using ih by simp
      moreover have "int (k' - k) \<le> 4 * (nconns - i)"
      proof -
        have "int (k' - k1) \<le> 4 * (nconns - (i + 1))" using ih by blast
        moreover have "int (k' - k) \<le> int (k' - k1) + 4" using k1(2) by arith
        ultimately show ?thesis by (simp add: algebra_simps)
      qed
      moreover have "n < nconns \<longrightarrow> k + 4 \<le> k' \<and> (\<forall>j. k' - 4 \<le> j \<and> j < k' \<longrightarrow> \<not> succeeds conn j)"
      proof
        assume "n < nconns"
        then have "k1 + 4 \<le> k'" "\<forall>j. k' - 4 \<le> j \<and> j < k' \<longrightarrow> \<not> succeeds conn j" using ih by blast+
        then show "k + 4 \<le> k' \<and> (\<forall>j. k' - 4 \<le> j \<and> j < k' \<longrightarrow> \<not> succeeds conn j)" using k1(1) by (intro conjI) simp_all
      qed
      moreover have "i \<le> n" "n \<le> nconns" "k \<le> k'" using ih k1(1) by linarith+
      ultimately show ?thesis by blast
    qed
  qed
qed

subsection \<open>Properties\<close>

text \<open>The constants in the output of \<^verbatim>\<open>chexdump\<close>, read as C constants, are the bytes of its input, for every input; sixteen of them
  stand on a line.\<close>

theorem chexdump_roundtrip:
  "scan_constants (chexdump_main bs) = bs \<and> count_list (chexdump_main bs) 10 = 3 + (length bs - 1) div 16"
proof
  have "scan_constants (10 # bytes ''};'' @ [10]) = []" by code_simp
  then show "scan_constants (chexdump_main bs) = bs"
    using scan_dump [of 0 bs "10 # bytes ''};'' @ [10]"] by (simp add: chexdump_main_def dump_bytes indent_bytes scan_skip)
  have "count_list (hexdump_loop 0 bs) 10 = (length bs - 1) div 16"
  proof (cases bs)
    case (Cons b cs)
    then show ?thesis using dump_lines [of 0 cs] by (simp add: count_list_app hex02_no_newline dump_bytes)
  qed simp
  then show "count_list (chexdump_main bs) 10 = 3 + (length bs - 1) div 16"
    by (simp add: chexdump_main_def count_list_app dump_bytes indent_bytes)
qed

text \<open>Once its options are read and the device is open, \<^verbatim>\<open>xtty\<close> hands to the terminal, unless it is quiet, and to the log, if there
  is one, exactly the bytes the device has sent, and to the device exactly the bytes typed, with newlines turned into carriage returns in
  AT mode, up to the first end of file on either side; it exits with 0 when that has come.\<close>

theorem xtty_bridges:
  assumes "xtty_options opens setok av \<lparr>xt_dev = None, xt_atmode = False, xt_quiet = False, xt_log = None, xt_tty = tty\<rparr> = Inr opt"
    and "xt_dev opt = Some dev" "opens dev"
  shows "xtty_main opens setok tty av ps = Some (if \<exists>p\<in>set ps. \<not> goes_on p then Some 0 else None,
    \<lparr>to_term = (if xt_quiet opt then [] else from_dev ps), to_log = (if xt_log opt = None then [] else from_dev ps),
     to_dev = map (\<lambda>c. if xt_atmode opt \<and> c = 10 then 13 else c) (from_term ps)\<rparr>)"
  using assms by (simp add: xtty_main_def Let_def xtty_loop_reads)

text \<open>With a server that resolves, the program ends its connecting phase after at most four attempts for each connection
  asked for; the number it prints is the number of attempts that succeeded, and it is less than asked for only when the last four attempts
  failed one after another.\<close>

theorem deadconn_counts:
  assumes "conn_loop conn 0 nconns 0 = (n, k)" "0 \<le> nconns"
  shows "0 \<le> n \<and> n \<le> nconns \<and> n = int (card {j. j < k \<and> succeeds conn j}) \<and> int k \<le> 4 * nconns
    \<and> (n < nconns \<longrightarrow> 4 \<le> k \<and> (\<forall>j. k - 4 \<le> j \<and> j < k \<longrightarrow> \<not> succeeds conn j))"
  using conn_loop_counts [OF assms] by simp

end
