(* ===== verification/XGsmTop.thy ===== *)
theory XGsmTop
  imports XGsmModem ByteTools
begin

text \<open>
  The rest of \<^verbatim>\<open>xgsm.c\<close>: the dumps on the terminal, the time stamp, the options and the whole program, and what a modem that
  acknowledges every command receives from it.
\<close>

subsection \<open>Dumps\<close>

text \<open>A cell of the line for up to sixteen bytes, and the line.\<close>

definition dump_cell :: "u8 list \<Rightarrow> nat \<Rightarrow> cstr" where
  "dump_cell bs j = (if j = 8 then [32] else []) @ (if j < length bs then 32 # hex02 (bs ! j) else [32, 32, 32])"

definition dump_line :: "u8 list \<Rightarrow> cstr" where
  "dump_line bs = concat (map (dump_cell bs) [0..<16]) @ [32, 124]
     @ map (\<lambda>c. if isprint8 c then c else 46) bs @ replicate (16 - length bs) 32 @ [124, 10]"

fun xgsm_hexdump :: "u8 list \<Rightarrow> cstr" where
  "xgsm_hexdump data = (if data = [] then [] else dump_line (take 16 data) @ xgsm_hexdump (drop 16 data))"

declare xgsm_hexdump.simps [simp del]

text \<open>How a reader gets the bytes back: the pairs of digits of a line up to the bar, and lines of 69 characters.\<close>

fun scan_cells :: "cstr \<Rightarrow> u8 list" where
  "scan_cells (a # b # s) = (if a = 124 then [] else if a = 32 then scan_cells (b # s)
     else (case (hex_val a, hex_val b) of (Some h, Some l) \<Rightarrow> of_nat (16 * h + l) # scan_cells s | _ \<Rightarrow> []))"
| "scan_cells _ = []"

fun scan_dump :: "cstr \<Rightarrow> u8 list" where
  "scan_dump s = (if s = [] then [] else scan_cells (take 69 s) @ scan_dump (drop 69 s))"

declare scan_dump.simps [simp del]

lemma hex_digit_visible: "d < 16 \<Longrightarrow> hex_digit d \<noteq> 32 \<and> hex_digit d \<noteq> 124"
  by (cases "d < 10") (auto simp: hex_digit_def word_unat_eq_iff unat_word_ariths unat_of_nat)

lemma scan_cells_hex: "scan_cells (hex02 b @ s) = b # scan_cells s"
proof -
  have "unat b < 256" by (rule order_less_le_trans [OF unsigned_less]) simp
  then have "unat b div 16 < 16" by simp
  then show ?thesis
    using hex_digit_visible [of "unat b div 16"] hex_val_digit [of "unat b div 16"] hex_val_digit [of "unat b mod 16"]
    by (simp add: hex02_def mult.commute [of 16])
qed

lemma scan_cells_blank: "s \<noteq> [] \<Longrightarrow> scan_cells (32 # s) = scan_cells s"
  by (cases s) auto

lemma scan_cells_bar [simp]: "scan_cells (124 # s) = []"
  by (cases s) auto

lemma scan_cells_map:
  "s \<noteq> [] \<Longrightarrow> scan_cells (concat (map (dump_cell bs) js) @ s) = map ((!) bs) (filter (\<lambda>j. j < length bs) js) @ scan_cells s"
proof (induction js)
  case (Cons j js)
  then show ?case by (simp add: dump_cell_def scan_cells_blank scan_cells_hex)
qed simp

lemma filter_less_upt: "n \<le> m \<Longrightarrow> filter (\<lambda>j. j < n) [0..<m] = [0..<n]"
  by (induction m) (auto simp: le_Suc_eq)

lemma dump_cell_length: "length (dump_cell bs j) = 3 + of_bool (j = 8)"
  by (simp add: dump_cell_def hex02_def)

lemma dump_line_length: "length bs \<le> 16 \<Longrightarrow> length (dump_line bs) = 69"
  by (simp add: dump_line_def length_concat comp_def dump_cell_length upt_rec)

lemma scan_cells_line: "length bs \<le> 16 \<Longrightarrow> scan_cells (dump_line bs) = bs"
  by (simp add: dump_line_def scan_cells_map filter_less_upt map_nth del: upt_conv_Cons)

text \<open>A dump shows exactly the bytes that were sent or received, for any number of them, in lines of one width.\<close>

lemma xgsm_hexdump_reads_back: "scan_dump (xgsm_hexdump data) = data"
proof (induction data rule: xgsm_hexdump.induct)
  case (1 data)
  show ?case
  proof (cases "data = []")
    case False
    let ?l = "dump_line (take 16 data)"
    have l: "length ?l = 69" by (simp add: dump_line_length)
    have "scan_dump (?l @ xgsm_hexdump (drop 16 data)) = scan_cells ?l @ scan_dump (xgsm_hexdump (drop 16 data))"
      using l by (subst scan_dump.simps) auto
    with 1 False show ?thesis by (subst xgsm_hexdump.simps) (simp add: scan_cells_line)
  qed (simp add: xgsm_hexdump.simps scan_dump.simps)
qed

subsection \<open>The time stamp\<close>

record tm =
  tm_year :: int
  tm_mon :: int
  tm_mday :: int
  tm_hour :: int
  tm_min :: int
  tm_sec :: int
  tm_gmtoff :: int

definition stamp_octet :: "int \<Rightarrow> u8" where
  "stamp_octet v = of_int (xgsm_swap_nibble v)"

text \<open>The octets that are stored, or \<open>None\<close> for -1; \<open>t\<close> is what \<^verbatim>\<open>localtime_r\<close> gives. The division of C truncates.\<close>

definition xgsm_get_timestamp :: "tm option \<Rightarrow> nat \<Rightarrow> u8 list option" where
  "xgsm_get_timestamp t n = (if n < 7 then None else case t of None \<Rightarrow> None | Some tm \<Rightarrow>
     let gmtoff = sgn (tm_gmtoff tm) * (\<bar>tm_gmtoff tm\<bar> div (15 * 60)) in
     Some (map stamp_octet [tm_year tm, tm_mon tm, tm_mday tm, tm_hour tm, tm_min tm, tm_sec tm]
       @ [if gmtoff < 0 then stamp_octet (- gmtoff) OR 0x80 else stamp_octet gmtoff]))"

text \<open>The reader of an octet: the first digit is in the low half. Numbers below a hundred are read as they were; a year from 2000
  on, which \<^verbatim>\<open>tm_year\<close> counts from 1900, has a first digit that is none.\<close>

definition read_octet :: "u8 \<Rightarrow> nat \<times> nat" where
  "read_octet b = (unat b mod 16, unat b div 16)"

lemma stamp_octet_digits:
  assumes "0 \<le> v" "v < 160"
  shows "read_octet (stamp_octet v) = (nat v div 10, nat v mod 10)"
proof -
  have "\<forall>w \<in> set [0..<160]. read_octet (stamp_octet (int w)) = (w div 10, w mod 10)"
    by code_simp
  moreover have "nat v \<in> set [0..<160]" using assms by simp
  ultimately have "read_octet (stamp_octet (int (nat v))) = (nat v div 10, nat v mod 10)" by blast
  then show ?thesis using assms by simp
qed

lemma timestamp_digits:
  assumes "xgsm_get_timestamp (Some t) n = Some ts" "\<forall>v \<in> {tm_year t, tm_mon t, tm_mday t, tm_hour t, tm_min t, tm_sec t}. 0 \<le> v \<and> v < 160"
  shows "map read_octet (take 6 ts) =
    map (\<lambda>v. (nat v div 10, nat v mod 10)) [tm_year t, tm_mon t, tm_mday t, tm_hour t, tm_min t, tm_sec t]"
  using assms by (auto simp: xgsm_get_timestamp_def Let_def stamp_octet_digits split: if_splits)

lemma timestamp_2000:
  assumes "xgsm_get_timestamp (Some t) n = Some ts" "100 \<le> tm_year t" "tm_year t < 160"
  shows "fst (read_octet (hd ts)) \<ge> 10"
  using assms by (auto simp: xgsm_get_timestamp_def Let_def stamp_octet_digits split: if_splits)

subsection \<open>The options and the program\<close>

text \<open>\<open>tio\<close> is what \<^verbatim>\<open>tcgetattr\<close> gives, \<open>ok\<close> whether \<^verbatim>\<open>tcsetattr\<close> succeeds: the same code as in \<^verbatim>\<open>xtty.c\<close>.\<close>

definition xgsm_setnobuf :: "bool \<Rightarrow> termios option \<Rightarrow> int \<times> termios option" where
  "xgsm_setnobuf ok tio = (case tio of None \<Rightarrow> (-1, None)
     | Some t \<Rightarrow> if ok then (0, Some (t\<lparr>icanon := False, vtime := 0, vmin := 1\<rparr>)) else (-1, Some t))"

text \<open>The options as \<^verbatim>\<open>getopt\<close> yields them, \<open>Xh\<close> also for one that is unknown, and the variables of \<^verbatim>\<open>main\<close> with the terminal on
  the standard input.\<close>

datatype xg_opt = Xd cstr | Xu | XU | Xv | Xl | Xt | XR cstr | XD cstr | XC cstr | Xm cstr | Xn cstr | Xh

record xg_line =
  xl_dev :: "cstr option"
  xl_stdin :: "termios option"
  xl_canon :: bool
  xl_verbose :: bool
  xl_mlist :: bool
  xl_txt :: bool
  xl_mdel :: int
  xl_debug :: int
  xl_scnbr :: "cstr option"
  xl_msg :: "cstr option"
  xl_nbr :: "cstr option"

fun xgsm_option :: "bool \<Rightarrow> xg_opt \<Rightarrow> xg_line \<Rightarrow> xg_line" where
  "xgsm_option ok (Xd arg) l = l\<lparr>xl_dev := Some arg\<rparr>"
| "xgsm_option ok Xu l = l\<lparr>xl_stdin := snd (xgsm_setnobuf ok (xl_stdin l))\<rparr>"
| "xgsm_option ok XU l = l\<lparr>xl_canon := False\<rparr>"
| "xgsm_option ok Xv l = l\<lparr>xl_verbose := True\<rparr>"
| "xgsm_option ok Xl l = l\<lparr>xl_mlist := True\<rparr>"
| "xgsm_option ok Xt l = l\<lparr>xl_txt := True\<rparr>"
| "xgsm_option ok (XR arg) l = l\<lparr>xl_mdel := atoi arg\<rparr>"
| "xgsm_option ok (XD arg) l = l\<lparr>xl_debug := atoi arg\<rparr>"
| "xgsm_option ok (XC arg) l = l\<lparr>xl_scnbr := Some arg\<rparr>"
| "xgsm_option ok (Xm arg) l = l\<lparr>xl_msg := Some arg\<rparr>"
| "xgsm_option ok (Xn arg) l = l\<lparr>xl_nbr := Some arg\<rparr>"
| "xgsm_option ok Xh l = l"

definition xg_line0 :: "termios option \<Rightarrow> xg_line" where
  "xg_line0 stdin = \<lparr>xl_dev = None, xl_stdin = stdin, xl_canon = True, xl_verbose = False, xl_mlist = False, xl_txt = False,
     xl_mdel = -1, xl_debug = 0, xl_scnbr = None, xl_msg = None, xl_nbr = None\<rparr>"

text \<open>The whole program: the exit status, the terminal settings of the device and the device; \<open>opens\<close> says which devices can be
  opened.\<close>

definition xgsm_program ::
  "(cstr \<Rightarrow> bool) \<Rightarrow> bool \<Rightarrow> 'd tty \<Rightarrow> (nat \<Rightarrow> bool) \<Rightarrow> xg_opt list \<Rightarrow> termios option \<Rightarrow> termios option \<Rightarrow> 'd
   \<Rightarrow> (int \<times> termios option \<times> 'd) option" where
  "xgsm_program opens ok tty alloc args stdin tio d = (
     let l = fold (xgsm_option ok) args (xg_line0 stdin) in
     case (xl_dev l, xl_msg l, xl_nbr l) of
       (Some dev, Some msg, Some nbr) \<Rightarrow>
         if \<not> opens dev then Some (2, tio, d)
         else map_option (\<lambda>d. (0, if xl_canon l then tio else snd (xgsm_setnobuf ok tio), d))
           (xgsm_main tty alloc \<lparr>o_txt = xl_txt l, o_verbose = xl_verbose l, o_mlist = xl_mlist l, o_mdel = xl_mdel l,
              o_scnbr = xl_scnbr l, o_msg = msg, o_nbr = nbr\<rparr> d)
     | _ \<Rightarrow> Some (1, tio, d))"

text \<open>Without a device, a message and a number the program ends with status 1 and touches nothing; the option for help, and one that
  is unknown, change nothing of what is done.\<close>

lemma options_dev: "xl_dev (fold (xgsm_option ok) args l) = None \<longleftrightarrow> xl_dev l = None \<and> (\<forall>a. Xd a \<notin> set args)"
proof (induction args arbitrary: l)
  case (Cons x xs)
  then show ?case by (cases x) auto
qed simp

lemma options_msg: "xl_msg (fold (xgsm_option ok) args l) = None \<longleftrightarrow> xl_msg l = None \<and> (\<forall>a. Xm a \<notin> set args)"
proof (induction args arbitrary: l)
  case (Cons x xs)
  then show ?case by (cases x) auto
qed simp

lemma options_nbr: "xl_nbr (fold (xgsm_option ok) args l) = None \<longleftrightarrow> xl_nbr l = None \<and> (\<forall>a. Xn a \<notin> set args)"
proof (induction args arbitrary: l)
  case (Cons x xs)
  then show ?case by (cases x) auto
qed simp

lemma xgsm_incomplete:
  assumes "(\<forall>a. Xd a \<notin> set args) \<or> (\<forall>a. Xm a \<notin> set args) \<or> (\<forall>a. Xn a \<notin> set args)"
  shows "xgsm_program opens ok tty alloc args stdin tio d = Some (1, tio, d)"
  using assms options_dev [of ok args "xg_line0 stdin"] options_msg [of ok args "xg_line0 stdin"] options_nbr [of ok args "xg_line0 stdin"]
  by (auto simp: xgsm_program_def Let_def xg_line0_def split: option.splits)

lemma options_skip_help: "fold (xgsm_option ok) args l = fold (xgsm_option ok) (filter (\<lambda>x. x \<noteq> Xh) args) l"
  by (induction args arbitrary: l) auto

lemma xgsm_help_goes_on:
  "xgsm_program opens ok tty alloc args stdin tio d = xgsm_program opens ok tty alloc (filter (\<lambda>x. x \<noteq> Xh) args) stdin tio d"
  by (simp add: xgsm_program_def options_skip_help [of ok args])

subsection \<open>What the modem receives\<close>

text \<open>A modem that answers a command with \<^verbatim>\<open>OK\<close>, \<^verbatim>\<open>AT+CMGS\<close> with the prompt and what follows the prompt with \<^verbatim>\<open>OK\<close>: what it has
  received, the answer that waits to be read, and whether it waits for a message.\<close>

record modem =
  heard :: "cstr list"
  answer :: cstr
  prompted :: bool

definition ok_line :: cstr where
  "ok_line = [13, 10] @ bytes ''OK'' @ [13, 10]"

definition is_cmgs :: "cstr \<Rightarrow> bool" where
  "is_cmgs c \<longleftrightarrow> take 7 c = bytes ''AT+CMGS''"

definition modem_write :: "u8 list \<Rightarrow> modem \<Rightarrow> int \<times> modem" where
  "modem_write c m = (int (length c), if \<not> prompted m \<and> is_cmgs c
     then m\<lparr>heard := heard m @ [c], answer := [13, 10, 62, 32], prompted := True\<rparr>
     else m\<lparr>heard := heard m @ [c], answer := ok_line, prompted := False\<rparr>)"

definition modem_tty :: "modem tty" where
  "modem_tty = \<lparr>tty_read = (\<lambda>n m. (Some (take n (answer m)), m\<lparr>answer := drop n (answer m)\<rparr>)), tty_write = modem_write,
     tty_pollin = (\<lambda>timeo m. (if answer m = [] then None else Some True, m)), tty_pollout = (\<lambda>timeo m. (Some True, m))\<rparr>"

definition idle :: "cstr list \<Rightarrow> modem" where
  "idle h = \<lparr>heard = h, answer = [], prompted = False\<rparr>"

lemma modem_flushin: "xgsm_flushin modem_tty t m = Some (m\<lparr>answer := []\<rparr>)"
proof (induction "length (answer m)" arbitrary: m rule: less_induct)
  case less
  show ?case
  proof (cases "answer m = []")
    case False
    with less [of "m\<lparr>answer := drop 64 (answer m)\<rparr>"] show ?thesis
      by (subst xgsm_flushin.simps) (simp add: xgsm_read_def modem_tty_def)
  qed (subst xgsm_flushin.simps, simp add: xgsm_read_def modem_tty_def)
qed

lemma modem_readresp:
  assumes "\<forall>n. alloc n"
  shows "xgsm_readresp modem_tty alloc (m\<lparr>answer := ok_line\<rparr>) = Some (Some ok_line, m\<lparr>answer := []\<rparr>)"
proof -
  have eoc: "xgsm_eoc ok_line" and len: "length ok_line = 6" by code_simp+
  have "readresp_loop modem_tty alloc [] 128 (m\<lparr>answer := ok_line\<rparr>) = Some (Some ok_line, m\<lparr>answer := []\<rparr>)"
    using eoc len by (subst readresp_loop.simps) (simp add: modem_tty_def Let_def)
  with assms show ?thesis by (simp add: xgsm_readresp_def modem_flushin)
qed

lemma modem_sendcmd:
  assumes "\<forall>n. alloc n" "prompted m \<or> \<not> is_cmgs c"
  shows "xgsm_sendcmd modem_tty alloc c m = Some (Some ok_line, m\<lparr>heard := heard m @ [c], answer := [], prompted := False\<rparr>)"
  using assms(2) modem_readresp [OF assms(1), of "m\<lparr>heard := heard m @ [c], prompted := False\<rparr>"]
  by (cases m) (auto simp: xgsm_sendcmd_def xgsm_write_def modem_tty_def modem_write_def)

lemma modem_prompt:
  "xgsm_want_reply modem_tty [13, 10, 62, 32] t (m\<lparr>answer := [13, 10, 62, 32]\<rparr>) = (1, m\<lparr>answer := []\<rparr>)"
  by (simp add: xgsm_want_reply_def want_reply_loop.simps xgsm_read_def modem_tty_def)

lemma modem_send_with_prompt:
  assumes "\<forall>n. alloc n" "is_cmgs cmd"
  shows "send_with_prompt modem_tty alloc cmd body (idle h) = Some (Some ok_line, idle (h @ [cmd, body @ [0x1a]]))"
proof -
  let ?m = "\<lparr>heard = h @ [cmd], answer = [], prompted = True\<rparr>"
  have "xgsm_write modem_tty cmd (-1) (idle h) = (int (length cmd), ?m\<lparr>answer := [13, 10, 62, 32]\<rparr>)"
    using assms(2) by (simp add: xgsm_write_def modem_tty_def modem_write_def idle_def)
  moreover have "xgsm_sendcmd modem_tty alloc (body @ [0x1a]) ?m = Some (Some ok_line, idle (h @ [cmd, body @ [0x1a]]))"
    by (subst modem_sendcmd [OF assms(1)]) (simp_all add: idle_def)
  ultimately show ?thesis
    using assms(1) modem_prompt [of 2000 ?m] by (simp add: send_with_prompt_def xgsm_vsendcmd_def)
qed

text \<open>What a step of \<^verbatim>\<open>main\<close> is to bring to the modem: a command, or the announcement of the message and its body.\<close>

definition step_sends :: "(nat \<Rightarrow> bool) \<Rightarrow> xgsm_opts \<Rightarrow> step \<Rightarrow> cstr list" where
  "step_sends alloc opt st = (case st of Cmd c \<Rightarrow> [c] | VCmd c \<Rightarrow> [c]
     | SendMsg \<Rightarrow> if o_txt opt then [bytes ''AT+CMGS='' @ [34] @ o_nbr opt @ [34] @ bytes '',145'' @ [13], o_msg opt @ [0x1a]]
         else case xgsm_create_hexPDU alloc (o_nbr opt) (o_scnbr opt) (o_msg opt) of
           Some (Some hpdu) \<Rightarrow> [bytes ''AT+CMGS='' @ fmt_d (xgsm_CMGS_PDU_length hpdu) @ [13], hpdu @ [0x1a]] | _ \<Rightarrow> [])"

fun plain_step :: "step \<Rightarrow> bool" where
  "plain_step (Cmd c) = (\<not> is_cmgs c)"
| "plain_step (VCmd c) = (\<not> is_cmgs c)"
| "plain_step SendMsg = True"

lemma is_cmgs_pre: "is_cmgs (bytes ''AT+CMGS='' @ s)"
  by (simp add: is_cmgs_def bytes_def)

lemma modem_step:
  assumes "\<forall>n. alloc n" "plain_step st"
    and "o_txt opt \<or> xgsm_create_hexPDU alloc (o_nbr opt) (o_scnbr opt) (o_msg opt) \<noteq> None"
  shows "run_step modem_tty alloc opt st (idle h) = Some (idle (h @ step_sends alloc opt st))"
proof (cases st)
  case SendMsg
  with assms show ?thesis
    by (auto simp: run_step_def step_sends_def xgsm_send_txt_sms_def xgsm_send_sms_def modem_send_with_prompt is_cmgs_pre split: option.splits)
qed (use assms in \<open>simp_all add: run_step_def step_sends_def xgsm_vsendcmd_def modem_sendcmd [OF assms(1)] idle_def\<close>)

lemma modem_steps:
  assumes "\<forall>n. alloc n" "\<forall>st \<in> set sts. plain_step st"
    and "o_txt opt \<or> xgsm_create_hexPDU alloc (o_nbr opt) (o_scnbr opt) (o_msg opt) \<noteq> None"
  shows "foldM (run_step modem_tty alloc opt) sts (idle h) = Some (idle (h @ concat (map (step_sends alloc opt) sts)))"
  using assms(2) by (induction sts arbitrary: h) (simp_all add: modem_step [OF assms(1) _ assms(3)])

lemma verbose_plain: "\<forall>c \<in> set verbose_cmds. \<not> is_cmgs (bytes c @ [13])"
  by code_simp

lemma main_steps_plain: "\<forall>st \<in> set (main_steps opt). plain_step st"
  using verbose_plain by (auto simp: main_steps_def is_cmgs_def bytes_def)


definition demo_sms :: xgsm_opts where
  "demo_sms = \<lparr>o_txt = False, o_verbose = False, o_mlist = False, o_mdel = 3, o_scnbr = None, o_msg = bytes ''hello'', o_nbr = bytes ''+123''\<rparr>"

lemma demo_sms_pdu: "xgsm_create_hexPDU (\<lambda>n. True) (o_nbr demo_sms) (o_scnbr demo_sms) (o_msg demo_sms) \<noteq> None"
  by code_simp


end
