(* ===== verification/ReadBench.thy ===== *)
theory ReadBench
  imports CStr
begin

text \<open>
  \<^verbatim>\<open>fget-light-test.c\<close> times reads of a file in blocks, \<^verbatim>\<open>ztest.c\<close> the decompression of a file with zlib. What the kernel, the clock
  and zlib answer are parameters. A loop that does not end is \<open>None\<close>.
\<close>

subsection \<open>\<^verbatim>\<open>fget-light-test\<close>\<close>

definition DEF_BUFSIZE :: int where "DEF_BUFSIZE = 1024"
definition DEF_READSIZE :: int where "DEF_READSIZE = 1024 * 1024"

text \<open>\<open>rd k cnt\<close> is the answer to the \<open>k\<close>-th read, of \<open>cnt\<close> bytes.\<close>

partial_function (option) read_loop :: "(nat \<Rightarrow> int \<Rightarrow> int) \<Rightarrow> int \<Rightarrow> int \<Rightarrow> nat \<Rightarrow> int \<Rightarrow> int option" where
  "read_loop rd bufsize sz k rsize =
     (if rsize < sz then
        let cnt = (if sz - rsize > bufsize then bufsize else sz - rsize) in
        if rd k cnt \<noteq> cnt then Some rsize else read_loop rd bufsize sz (Suc k) (rsize + cnt)
      else Some rsize)"

definition read_test :: "(nat \<Rightarrow> int \<Rightarrow> int) \<Rightarrow> int \<Rightarrow> int \<Rightarrow> int option" where
  "read_test rd bufsize sz = read_loop rd bufsize sz 0 0"

datatype fg_opt = FgFile cstr | FgBuf cstr | FgRead cstr | FgUnshared | FgShared | FgOther

record fg_opts =
  fg_name :: cstr
  bufsize :: int
  fg_size :: int
  run_shared :: bool
  run_unshared :: bool

fun fg_options :: "fg_opt list \<Rightarrow> fg_opts \<Rightarrow> fg_opts option" where
  "fg_options [] opt = Some opt"
| "fg_options (FgFile a # os) opt = fg_options os (opt\<lparr>fg_name := a\<rparr>)"
| "fg_options (FgBuf a # os) opt = fg_options os (opt\<lparr>bufsize := atoi a\<rparr>)"
| "fg_options (FgRead a # os) opt = fg_options os (opt\<lparr>fg_size := atol a\<rparr>)"
| "fg_options (FgUnshared # os) opt = fg_options os (opt\<lparr>run_unshared := False\<rparr>)"
| "fg_options (FgShared # os) opt = fg_options os (opt\<lparr>run_shared := False\<rparr>)"
| "fg_options (FgOther # os) opt = None"

definition fg_defaults :: fg_opts where
  "fg_defaults = \<lparr>fg_name = bytes ''/dev/zero'', bufsize = DEF_BUFSIZE, fg_size = DEF_READSIZE, run_shared = True, run_unshared = True\<rparr>"

text \<open>\<open>alloc\<close> says whether \<^verbatim>\<open>malloc\<close> gives so many bytes, \<open>opens\<close> which files can be opened, \<open>thr\<close> whether the thread can be created. The
  result is the exit status and what the tests that were run returned.\<close>

definition fget_main :: "(int \<Rightarrow> bool) \<Rightarrow> (cstr \<Rightarrow> bool) \<Rightarrow> bool \<Rightarrow> (nat \<Rightarrow> int \<Rightarrow> int) \<Rightarrow> fg_opt list \<Rightarrow> (int \<times> int list) option" where
  "fget_main alloc opens thr rd os = (case fg_options os fg_defaults of None \<Rightarrow> Some (1, [])
     | Some opt \<Rightarrow>
         if \<not> alloc (bufsize opt) then Some (2, [])
         else if \<not> opens (fg_name opt) then Some (2, [])
         else do {
           let test = (\<lambda>on rs. if on then map_option (\<lambda>r. rs @ [r]) (read_test rd (bufsize opt) (fg_size opt)) else Some rs);
           rs \<leftarrow> test (run_shared opt \<and> run_unshared opt) [];
           rs \<leftarrow> test (run_unshared opt) rs;
           if run_shared opt \<and> \<not> thr then Some (2, rs)
           else do { rs \<leftarrow> test (run_shared opt) rs; Some (0, rs) } })"

subsection \<open>\<^verbatim>\<open>ztest\<close>\<close>

definition Z_OK :: int where "Z_OK = 0"
definition Z_STREAM_END :: int where "Z_STREAM_END = 1"
definition MIN_TESTIME :: u64 where "MIN_TESTIME = 2 * 1000000"
definition INNER_CYCLES :: nat where "INNER_CYCLES = 32"

text \<open>zlib: the return codes, and for the input and the room for the output of a call its return code and its output.\<close>

record zlib =
  deflateInit :: int
  deflate :: "u8 list \<Rightarrow> nat \<Rightarrow> int \<times> u8 list"
  deflateEnd :: int
  inflateInit :: int
  inflate :: "u8 list \<Rightarrow> nat \<Rightarrow> int \<times> u8 list"
  inflateEnd :: int

text \<open>The lengths given to zlib are 32 bits wide.\<close>

definition uInt :: "nat \<Rightarrow> nat" where
  "uInt n = n mod 2 ^ 32"

definition do_defl :: "zlib \<Rightarrow> nat \<Rightarrow> u8 list \<Rightarrow> int + u8 list" where
  "do_defl Z clen udata =
     (if deflateInit Z \<noteq> Z_OK then Inl 1
      else let (err, out) = deflate Z (take (uInt (length udata)) udata) (uInt clen) in
        if err \<noteq> Z_STREAM_END then Inl 1
        else if deflateEnd Z \<noteq> Z_OK then Inl 1 else Inr out)"

definition do_infl :: "zlib \<Rightarrow> u8 list \<Rightarrow> nat \<Rightarrow> int + u8 list" where
  "do_infl Z cdata uclen =
     (if inflateInit Z \<noteq> Z_OK then Inl 1
      else let (err, out) = inflate Z (take (uInt (length cdata)) cdata) (uInt uclen) in
        if err \<noteq> Z_STREAM_END then Inl 1
        else if inflateEnd Z \<noteq> Z_OK then Inl 1 else Inr out)"

fun infl_cycles :: "zlib \<Rightarrow> u8 list \<Rightarrow> nat \<Rightarrow> nat \<Rightarrow> int + unit" where
  "infl_cycles Z cdata sz 0 = Inr ()"
| "infl_cycles Z cdata sz (Suc i) = (case do_infl Z cdata sz of Inl e \<Rightarrow> Inl e | Inr _ \<Rightarrow> infl_cycles Z cdata sz i)"

text \<open>\<open>clk k\<close> is the \<open>k\<close>-th reading of the clock. \<open>Inr\<close> is the time printed.\<close>

partial_function (option) bench_loop :: "zlib \<Rightarrow> u8 list \<Rightarrow> nat \<Rightarrow> (nat \<Rightarrow> u64) \<Rightarrow> nat \<Rightarrow> u64 \<Rightarrow> (int + u64) option" where
  "bench_loop Z cdata sz clk k n =
     (case infl_cycles Z cdata sz INNER_CYCLES of Inl e \<Rightarrow> Some (Inl e)
      | Inr _ \<Rightarrow> let n = n + of_nat INNER_CYCLES; te = clk k in
          if te - clk 0 < MIN_TESTIME then bench_loop Z cdata sz clk (Suc k) n else Some (Inr ((te - clk 0) div n)))"

record fb_env =
  fb_opens :: bool
  fb_maps :: bool
  fb_allocs :: "nat \<Rightarrow> bool"

text \<open>The exit status of the process, or the return value and the time printed.\<close>

definition do_filebench :: "zlib \<Rightarrow> fb_env \<Rightarrow> (nat \<Rightarrow> u64) \<Rightarrow> u8 list \<Rightarrow> (int + int \<times> u64 option) option" where
  "do_filebench Z e clk ubuf =
     (let sz = length ubuf in
      if \<not> fb_opens e then Some (Inr (-1, None))
      else if \<not> fb_maps e then Some (Inr (-1, None))
      else if \<not> fb_allocs e (sz + (sz + 4096)) then Some (Inr (-1, None))
      else case do_defl Z (sz + 4096) ubuf of Inl x \<Rightarrow> Some (Inl x)
        | Inr cdata \<Rightarrow> (case do_infl Z cdata sz of Inl x \<Rightarrow> Some (Inl x)
            | Inr tbuf \<Rightarrow>
                if length tbuf \<noteq> sz then Some (Inr (-1, None))
                else if tbuf \<noteq> ubuf then Some (Inr (-1, None))
                else map_option (\<lambda>r. case r of Inl x \<Rightarrow> Inl x | Inr t \<Rightarrow> Inr (0, Some t)) (bench_loop Z cdata sz clk 1 0)))"

text \<open>\<^verbatim>\<open>main\<close> runs the benchmark on each file, with the clock of that run, and does not look at its result.\<close>

fun ztest_main :: "zlib \<Rightarrow> (fb_env \<times> (nat \<Rightarrow> u64) \<times> u8 list) list \<Rightarrow> int option" where
  "ztest_main Z [] = Some 0"
| "ztest_main Z ((e, clk, d) # fs) = (case do_filebench Z e clk d of None \<Rightarrow> None | Some (Inl x) \<Rightarrow> Some x | Some (Inr _) \<Rightarrow> ztest_main Z fs)"

subsection \<open>Reading in blocks\<close>

lemma read_loop_full:
  assumes "0 < b" "\<And>k c. 0 < c \<Longrightarrow> c \<le> b \<Longrightarrow> rd k c = c"
  shows "read_loop rd b sz k r = Some (max r sz)"
proof (induction "nat (sz - r)" arbitrary: k r rule: less_induct)
  case less
  let ?c = "if sz - r > b then b else sz - r"
  show ?case
  proof (cases "r < sz")
    case True
    then have c: "0 < ?c" "?c \<le> b" "r + ?c \<le> sz" using assms(1) by auto
    have "read_loop rd b sz (Suc k) (r + ?c) = Some (max (r + ?c) sz)" by (rule less) (use c True in auto)
    then show ?thesis using True c assms(2) [OF c(1,2)] by (subst read_loop.simps) (simp add: Let_def max_def)
  next
    case False
    then show ?thesis by (subst read_loop.simps) (simp add: max_def)
  qed
qed

lemma read_loop_bound:
  assumes "0 < b"
  shows "\<exists>r'. read_loop rd b sz k r = Some r' \<and> r \<le> r' \<and> r' \<le> max r sz"
proof (induction "nat (sz - r)" arbitrary: k r rule: less_induct)
  case less
  let ?c = "if sz - r > b then b else sz - r"
  show ?case
  proof (cases "r < sz \<and> rd k ?c = ?c")
    case True
    then have c: "0 < ?c" "r + ?c \<le> sz" using assms(1) by auto
    have "\<exists>r'. read_loop rd b sz (Suc k) (r + ?c) = Some r' \<and> r + ?c \<le> r' \<and> r' \<le> max (r + ?c) sz" by (rule less) (use c True in auto)
    then show ?thesis using True c by (subst read_loop.simps) (auto simp: Let_def max_def split: if_splits)
  next
    case False
    then show ?thesis by (subst read_loop.simps) (auto simp: Let_def max_def)
  qed
qed

text \<open>With a buffer of no bytes the loop asks for no bytes, gets none and is content.\<close>

lemma read_loop_zero:
  assumes "read_loop rd 0 sz k r = Some y" "\<And>k. rd k 0 = 0"
  shows "sz \<le> r"
proof -
  let ?P = "\<lambda>rd b sz (k::nat) r (y::int). b = (0::int) \<and> (\<forall>k. rd k 0 = (0::int)) \<longrightarrow> sz \<le> (r::int)"
  have "?P rd 0 sz k r y"
    by (rule read_loop.raw_induct [of ?P, OF _ assms(1)]) (fastforce simp: Let_def split: if_splits)
  then show ?thesis using assms(2) by simp
qed

subsection \<open>Compressing and back\<close>

text \<open>What zlib promises, for data that compresses to \<open>cz d\<close>.\<close>

definition zlib_contract :: "zlib \<Rightarrow> (u8 list \<Rightarrow> u8 list) \<Rightarrow> bool" where
  "zlib_contract Z cz \<longleftrightarrow> deflateInit Z = Z_OK \<and> deflateEnd Z = Z_OK \<and> inflateInit Z = Z_OK \<and> inflateEnd Z = Z_OK
     \<and> (\<forall>d room. length (cz d) \<le> room \<longrightarrow> deflate Z d room = (Z_STREAM_END, cz d))
     \<and> (\<forall>d room. length d \<le> room \<longrightarrow> inflate Z (cz d) room = (Z_STREAM_END, d))"

lemma defl_infl:
  assumes "zlib_contract Z cz" "length d + 4096 < 2 ^ 32" "length (cz d) \<le> length d + 4096"
  shows "do_defl Z (length d + 4096) d = Inr (cz d)" "do_infl Z (cz d) (length d) = Inr d"
  using assms by (simp_all add: zlib_contract_def do_defl_def do_infl_def uInt_def)

lemma infl_cycles_ok: "do_infl Z c n = Inr d \<Longrightarrow> infl_cycles Z c n k = Inr ()"
  by (induction k) simp_all

lemma bench_loop_runs:
  assumes "do_infl Z c sz = Inr d" "clk (k + j) - clk 0 \<ge> MIN_TESTIME" "\<And>i. i < j \<Longrightarrow> clk (k + i) - clk 0 < MIN_TESTIME"
  shows "bench_loop Z c sz clk k n = Some (Inr ((clk (k + j) - clk 0) div (n + 32 * of_nat (Suc j))))"
  using assms
proof (induction j arbitrary: k n)
  case 0
  then show ?case by (subst bench_loop.simps) (simp add: infl_cycles_ok Let_def leD INNER_CYCLES_def)
next
  case (Suc j)
  have "bench_loop Z c sz clk (Suc k) (n + 32) = Some (Inr ((clk (Suc k + j) - clk 0) div (n + 32 + 32 * of_nat (Suc j))))"
    by (rule Suc.IH) (use Suc.prems in \<open>force simp: add.commute\<close>)+
  moreover have "clk k - clk 0 < MIN_TESTIME" using Suc.prems(3) [of 0] by simp
  ultimately show ?case
    using Suc.prems(1) by (subst bench_loop.simps) (simp add: infl_cycles_ok Let_def INNER_CYCLES_def algebra_simps)
qed

subsection \<open>Properties\<close>

text \<open>With a positive block size the read test ends whatever the kernel answers and returns no more than was asked for; on a file that
  gives all that is asked for it returns exactly that. With a block size of zero, which \<^verbatim>\<open>-b 0\<close> gives, and anything to read it never
  returns, as a read of no bytes returns zero, which is what it expects.\<close>

theorem fget_reads:
  "(0 < b \<longrightarrow> (\<exists>r. read_test rd b sz = Some r \<and> 0 \<le> r \<and> r \<le> max 0 sz))
   \<and> (0 < b \<and> (\<forall>k c. 0 < c \<and> c \<le> b \<longrightarrow> rd k c = c) \<longrightarrow> read_test rd b sz = Some (max 0 sz))
   \<and> (0 < sz \<and> (\<forall>k. rd k 0 = 0) \<longrightarrow> read_test rd 0 sz = None)"
proof -
  have "read_test rd 0 sz = None" if "0 < sz" "\<forall>k. rd k 0 = 0"
    using that read_loop_zero [of rd sz 0 0] by (cases "read_test rd 0 sz") (auto simp: read_test_def)
  then show ?thesis using read_loop_bound [of b rd sz 0 0] read_loop_full [of b rd sz 0 0] by (auto simp: read_test_def)
qed

text \<open>On a file below 4 GiB whose compressed form fits into its own length and 4096 bytes, with a zlib that keeps its contract
  and a clock that reaches two seconds at some reading and not before, the benchmark gets back what it compressed, ends and returns 0; the
  time it prints is the elapsed time divided by 32 decompressions for each reading of the clock.\<close>

theorem ztest_benches:
  assumes "zlib_contract Z cz" "length d + 4096 < 2 ^ 32" "length (cz d) \<le> length d + 4096"
    and "fb_opens e" "fb_maps e" "fb_allocs e (2 * length d + 4096)"
    and "clk (Suc j) - clk 0 \<ge> MIN_TESTIME" "\<And>i. i < j \<Longrightarrow> clk (Suc i) - clk 0 < MIN_TESTIME"
  shows "do_filebench Z e clk d = Some (Inr (0, Some ((clk (Suc j) - clk 0) div (32 * of_nat (Suc j)))))"
proof -
  note di = defl_infl [OF assms(1-3)]
  have "bench_loop Z (cz d) (length d) clk 1 0 = Some (Inr ((clk (1 + j) - clk 0) div (0 + 32 * of_nat (Suc j))))"
    by (rule bench_loop_runs [OF di(2)]) (use assms(7,8) in simp_all)
  moreover have "length d + (length d + 4096) = 2 * length d + 4096" by simp
  ultimately show ?thesis using di assms(4-6) by (simp only: do_filebench_def Let_def) simp
qed

end
