(* ===== verification/EpollChain.thy ===== *)
theory EpollChain
  imports Prelude
begin

text \<open>
  \<^verbatim>\<open>epoll_test.c\<close>: eight tests of \<^verbatim>\<open>epoll\<close>, each in a process of its own, that watch the terminal or chains of \<^verbatim>\<open>epoll\<close> descriptors
  watching each other. The kernel is a parameter, a record of the system calls over a state of its own. The code of a child that a
  test forks is data for the kernel, which runs it beside the test. A program either exits with a code (\<open>Inl\<close>) or goes on (\<open>Inr\<close>).
\<close>

definition POLLIN :: u16 where "POLLIN = 1"
definition POLLOUT :: u16 where "POLLOUT = 4"
definition EPOLLIN :: u32 where "EPOLLIN = 1"
definition EPOLLOUT :: u32 where "EPOLLOUT = 4"
definition EPOLL_CTL_ADD :: int where "EPOLL_CTL_ADD = 1"
definition EPOLL_MAX_CHAIN :: nat where "EPOLL_MAX_CHAIN = 100"
definition EPOLL_TF_LOOP :: u64 where "EPOLL_TF_LOOP = push_bit 0 1"

record epoll_test_cfg =
  cfg_size :: nat
  cfg_flags :: u64

datatype child_op = CSleep nat | CPrint string | CWrite int string

datatype wstatus = WFailed | WExited u8 | WSignaled

record 's epk =
  sys_epoll_create :: "int \<Rightarrow> 's \<Rightarrow> int \<times> 's"
  sys_epoll_ctl :: "int \<Rightarrow> int \<Rightarrow> int \<Rightarrow> u32 \<Rightarrow> 's \<Rightarrow> int \<times> 's"
  sys_pipe :: "'s \<Rightarrow> (int \<times> int) option \<times> 's"
  sys_fork :: "child_op list \<Rightarrow> 's \<Rightarrow> int \<times> 's"
  sys_waitpid :: "int \<Rightarrow> 's \<Rightarrow> int \<times> 's"
  sys_poll :: "int \<Rightarrow> u16 \<Rightarrow> int \<Rightarrow> 's \<Rightarrow> int \<times> u16 \<times> 's"
  sys_epoll_wait :: "int \<Rightarrow> int \<Rightarrow> int \<Rightarrow> 's \<Rightarrow> int \<times> 's"
  sys_sleep :: "nat \<Rightarrow> 's \<Rightarrow> 's"
  sys_gettimeofday :: "'s \<Rightarrow> u64 \<times> u64"
  sys_reap :: "int \<Rightarrow> 's \<Rightarrow> 's \<Rightarrow> wstatus \<times> 's"

type_synonym ('s, 'a) prog = "'s \<Rightarrow> (int + 'a) \<times> 's"

definition pbind :: "('s, 'a) prog \<Rightarrow> ('a \<Rightarrow> ('s, 'b) prog) \<Rightarrow> ('s, 'b) prog" where
  "pbind m f s = (case m s of (Inl code, s) \<Rightarrow> (Inl code, s) | (Inr a, s) \<Rightarrow> f a s)"

definition getustime :: "'s epk \<Rightarrow> 's \<Rightarrow> u64" where
  "getustime K s = (let (sec, usec) = sys_gettimeofday K s in sec * 1000000 + usec)"

definition xepoll_create :: "'s epk \<Rightarrow> int \<Rightarrow> ('s, int) prog" where
  "xepoll_create K n s = (let (epfd, s) = sys_epoll_create K n s in (if epfd = -1 then Inl 2 else Inr epfd, s))"

definition xepoll_ctl :: "'s epk \<Rightarrow> int \<Rightarrow> int \<Rightarrow> int \<Rightarrow> u32 \<Rightarrow> ('s, unit) prog" where
  "xepoll_ctl K epfd cmd fd evt s = (let (r, s) = sys_epoll_ctl K epfd cmd fd evt s in (if r < 0 then Inl 3 else Inr (), s))"

definition xpipe :: "'s epk \<Rightarrow> ('s, int \<times> int) prog" where
  "xpipe K s = (case sys_pipe K s of (None, s) \<Rightarrow> (Inl 4, s) | (Some fds, s) \<Rightarrow> (Inr fds, s))"

definition xfork :: "'s epk \<Rightarrow> child_op list \<Rightarrow> ('s, int) prog" where
  "xfork K child s = (let (pid, s) = sys_fork K child s in (if pid = -1 then Inl 5 else Inr pid, s))"

text \<open>The lines that \<^verbatim>\<open>check_events\<close> prints are left out.\<close>

definition check_events :: "'s epk \<Rightarrow> int \<Rightarrow> int \<Rightarrow> ('s, u16) prog" where
  "check_events K fd timeo s =
     (let (r, revents, s) = sys_poll K fd (POLLIN OR POLLOUT) timeo s in (Inr (if r < 0 then 0 else revents), s))"

definition epoll_test_tty :: "'s epk \<Rightarrow> ('s, int) prog" where
  "epoll_test_tty K =
     pbind (check_events K 0 0) (\<lambda>ev.
     if ev \<noteq> POLLOUT then Pair (Inr 1)
     else pbind (xepoll_create K 1) (\<lambda>epfd.
     pbind (xepoll_ctl K epfd EPOLL_CTL_ADD 0 EPOLLIN) (\<lambda>_.
     pbind (check_events K epfd 0) (\<lambda>ev.
     if ev AND POLLIN \<noteq> 0 then (\<lambda>s. let (res, s) = sys_epoll_wait K epfd 1 0 s in (Inr (if res = 0 then 2 else 0), s))
     else Pair (Inr 0)))))"

definition epoll_test_tty2 :: "'s epk \<Rightarrow> ('s, int) prog" where
  "epoll_test_tty2 K =
     pbind (xepoll_create K 1) (\<lambda>epfd.
     pbind (xepoll_ctl K epfd EPOLL_CTL_ADD 0 EPOLLIN) (\<lambda>_.
     pbind (xfork K [CSleep 1, CPrint ''Child stuff!'']) (\<lambda>pid s.
       let ts = getustime K s;
           (res, s) = sys_epoll_wait K epfd 1 2500 s;
           te = getustime K s;
           (w, s) = sys_waitpid K pid s
       in (Inr (if w \<noteq> pid then 1 else if res \<noteq> 0 then 2 else if te - ts < 2000000 then 3 else 0), s))))"

text \<open>The chain: \<open>n\<close> more descriptors, each watched by the one before.\<close>

primrec chain_loop :: "'s epk \<Rightarrow> nat \<Rightarrow> int \<Rightarrow> ('s, int) prog" where
  "chain_loop K 0 bfd = Pair (Inr bfd)"
| "chain_loop K (Suc n) bfd =
     pbind (xepoll_create K 1) (\<lambda>nfd.
     pbind (xepoll_ctl K bfd EPOLL_CTL_ADD nfd EPOLLIN) (\<lambda>_.
     chain_loop K n nfd))"

text \<open>What both chain tests begin with: the chain, its end watching the pipe and, in the loop tests, its start. The result is the
  start and the write side of the pipe.\<close>

definition chain_set_up :: "'s epk \<Rightarrow> epoll_test_cfg \<Rightarrow> ('s, int \<times> int) prog" where
  "chain_set_up K tcfg =
     pbind (xepoll_create K 1) (\<lambda>epfd.
     pbind (chain_loop K (cfg_size tcfg) epfd) (\<lambda>bfd.
     pbind (xpipe K) (\<lambda>(rfd, wfd).
     pbind (if cfg_flags tcfg AND EPOLL_TF_LOOP \<noteq> 0
            then pbind (xepoll_ctl K bfd EPOLL_CTL_ADD epfd EPOLLIN) (\<lambda>_. Pair (Inr EPOLLOUT))
            else Pair (Inr EPOLLIN)) (\<lambda>evt.
     pbind (xepoll_ctl K bfd EPOLL_CTL_ADD rfd evt) (\<lambda>_. Pair (Inr (epfd, wfd)))))))"

definition chain_result :: "'s epk \<Rightarrow> int \<Rightarrow> u16 \<Rightarrow> ('s, int) prog" where
  "chain_result K pid ev s = (let (w, s) = sys_waitpid K pid s in (Inr (if w \<noteq> pid then -1 else uint (ev AND POLLIN)), s))"

definition epoll_wakeup_chain :: "'s epk \<Rightarrow> epoll_test_cfg \<Rightarrow> ('s, int) prog" where
  "epoll_wakeup_chain K tcfg =
     pbind (chain_set_up K tcfg) (\<lambda>(epfd, wfd).
     pbind (xfork K [CSleep 1, CWrite wfd ''w'']) (\<lambda>pid.
     pbind (check_events K epfd 2000) (chain_result K pid)))"

definition epoll_poll_chain :: "'s epk \<Rightarrow> epoll_test_cfg \<Rightarrow> ('s, int) prog" where
  "epoll_poll_chain K tcfg =
     pbind (chain_set_up K tcfg) (\<lambda>(epfd, wfd).
     pbind (xfork K [CWrite wfd ''w'']) (\<lambda>pid.
     pbind (\<lambda>s. (Inr (), sys_sleep K 1 s)) (\<lambda>_.
     pbind (check_events K epfd 1000) (chain_result K pid))))"

text \<open>The test runs in a child with a copy of the state. The kernel makes a status of its exit code; \<open>sys_fork\<close> with no
  code of its own says whether the child could be made.\<close>

definition run_forked_proc :: "'s epk \<Rightarrow> ('s, int) prog \<Rightarrow> ('s, int) prog" where
  "run_forked_proc K proc = pbind (xfork K []) (\<lambda>pid s.
     let (code, c) = proc s;
         (status, s) = sys_reap K (case code of Inl e \<Rightarrow> e | Inr r \<Rightarrow> r) c s
     in (Inr (case status of WFailed \<Rightarrow> -1 | WExited n \<Rightarrow> uint n | WSignaled \<Rightarrow> -2), s))"

datatype ep_verdict = OK | FAIL int

definition verdict :: "int \<Rightarrow> int \<Rightarrow> ep_verdict" where
  "verdict expected error = (if error = expected then OK else FAIL error)"

definition ep_tests :: "'s epk \<Rightarrow> (int \<times> ('s, int) prog) list" where
  "ep_tests K =
     [(0, epoll_test_tty K),
      (0, epoll_test_tty2 K),
      (uint POLLIN, epoll_wakeup_chain K \<lparr>cfg_size = 3, cfg_flags = 0\<rparr>),
      (0, epoll_wakeup_chain K \<lparr>cfg_size = EPOLL_MAX_CHAIN, cfg_flags = 0\<rparr>),
      (uint POLLIN, epoll_poll_chain K \<lparr>cfg_size = 3, cfg_flags = 0\<rparr>),
      (0, epoll_poll_chain K \<lparr>cfg_size = EPOLL_MAX_CHAIN, cfg_flags = 0\<rparr>),
      (0, epoll_wakeup_chain K \<lparr>cfg_size = 3, cfg_flags = EPOLL_TF_LOOP\<rparr>),
      (0, epoll_poll_chain K \<lparr>cfg_size = 3, cfg_flags = EPOLL_TF_LOOP\<rparr>)]"

text \<open>\<^verbatim>\<open>main\<close>: the verdicts printed, up to a test for which no process can be made, and the exit code.\<close>

primrec run_tests :: "'s epk \<Rightarrow> (int \<times> ('s, int) prog) list \<Rightarrow> 's \<Rightarrow> ep_verdict list \<times> int" where
  "run_tests K [] s = ([], 0)"
| "run_tests K (t # ts) s = (case run_forked_proc K (snd t) s of
     (Inl code, s) \<Rightarrow> ([], code)
   | (Inr error, s) \<Rightarrow> (let (vs, code) = run_tests K ts s in (verdict (fst t) error # vs, code)))"

definition epoll_test_main :: "'s epk \<Rightarrow> 's \<Rightarrow> ep_verdict list \<times> int" where
  "epoll_test_main K s = run_tests K (ep_tests K) s"

subsection \<open>A kernel with nested \<^verbatim>\<open>epoll\<close>\<close>

text \<open>Descriptor 0 is an idle terminal, the read side of a pipe is ready for reading when the pipe is not empty, an \<^verbatim>\<open>epoll\<close>
  descriptor when something it watches is, where no more than \<open>lim\<close> of them are followed. A process forked is the writes it will
  make, with their times in milliseconds.\<close>

record epst =
  ep_now :: nat
  ep_next :: int
  ep_watch :: "int \<Rightarrow> (int \<times> u32) list option"
  ep_pipe :: "int \<Rightarrow> nat option"
  ep_due :: "(nat \<times> int) list"

definition base_mask :: "epst \<Rightarrow> int \<Rightarrow> u32" where
  "base_mask s fd = (if fd = 0 then EPOLLOUT
     else case ep_pipe s fd of Some n \<Rightarrow> if n = 0 then 0 else EPOLLIN
     | None \<Rightarrow> if ep_pipe s (fd - 1) = None then 0 else EPOLLOUT)"

fun ep_mask :: "nat \<Rightarrow> epst \<Rightarrow> int \<Rightarrow> u32" where
  "ep_mask n s fd = (case ep_watch s fd of
     None \<Rightarrow> base_mask s fd
   | Some ws \<Rightarrow> (case n of 0 \<Rightarrow> 0
       | Suc n \<Rightarrow> if list_ex (\<lambda>(f, e). ep_mask n s f AND e \<noteq> 0) ws then EPOLLIN else 0))"

declare ep_mask.simps [simp del]

definition ep_write :: "nat \<Rightarrow> int \<Rightarrow> epst \<Rightarrow> epst" where
  "ep_write t r s = s\<lparr>ep_now := max (ep_now s) t, ep_pipe := (ep_pipe s)(r := map_option Suc (ep_pipe s r))\<rparr>"

text \<open>Waiting until something of \<open>m\<close> is ready at \<open>fd\<close>, or until the deadline.\<close>

primrec ep_wait :: "nat \<Rightarrow> int \<Rightarrow> u32 \<Rightarrow> nat \<Rightarrow> (nat \<times> int) list \<Rightarrow> epst \<Rightarrow> epst" where
  "ep_wait lim fd m deadline [] s =
     (if ep_mask lim s fd AND m \<noteq> 0 then s\<lparr>ep_due := []\<rparr> else s\<lparr>ep_due := [], ep_now := max (ep_now s) deadline\<rparr>)"
| "ep_wait lim fd m deadline (d # ds) s =
     (if ep_mask lim s fd AND m \<noteq> 0 then s\<lparr>ep_due := d # ds\<rparr>
      else if fst d \<le> deadline then ep_wait lim fd m deadline ds (ep_write (fst d) (snd d) s)
      else s\<lparr>ep_due := d # ds, ep_now := max (ep_now s) deadline\<rparr>)"

definition ep_poll :: "nat \<Rightarrow> int \<Rightarrow> u32 \<Rightarrow> int \<Rightarrow> epst \<Rightarrow> u32 \<times> epst" where
  "ep_poll lim fd m timeo s = (let s = ep_wait lim fd m (ep_now s + nat timeo) (ep_due s) s in (ep_mask lim s fd AND m, s))"

fun ep_child :: "nat \<Rightarrow> child_op list \<Rightarrow> (nat \<times> int) list" where
  "ep_child t [] = []"
| "ep_child t (CSleep n # ops) = ep_child (t + 1000 * n) ops"
| "ep_child t (CPrint _ # ops) = ep_child t ops"
| "ep_child t (CWrite fd _ # ops) = (t, fd - 1) # ep_child t ops"

definition ep_add :: "int \<Rightarrow> int \<Rightarrow> u32 \<Rightarrow> epst \<Rightarrow> int \<times> epst" where
  "ep_add epfd fd ev s = (case ep_watch s epfd of None \<Rightarrow> (-1, s)
     | Some ws \<Rightarrow> (0, s\<lparr>ep_watch := (ep_watch s)(epfd \<mapsto> ws @ [(fd, ev)])\<rparr>))"

definition epoll_kernel :: "nat \<Rightarrow> epst epk" where
  "epoll_kernel lim = \<lparr>
     sys_epoll_create = (\<lambda>n s. (ep_next s, s\<lparr>ep_next := ep_next s + 1, ep_watch := (ep_watch s)(ep_next s \<mapsto> [])\<rparr>)),
     sys_epoll_ctl = (\<lambda>epfd cmd fd ev s. if cmd = EPOLL_CTL_ADD then ep_add epfd fd ev s else (-1, s)),
     sys_pipe = (\<lambda>s. (Some (ep_next s, ep_next s + 1), s\<lparr>ep_next := ep_next s + 2, ep_pipe := (ep_pipe s)(ep_next s \<mapsto> 0)\<rparr>)),
     sys_fork = (\<lambda>ops s. (100, s\<lparr>ep_due := ep_child (ep_now s) ops\<rparr>)),
     sys_waitpid = (\<lambda>pid s. (pid, s\<lparr>ep_due := []\<rparr>)),
     sys_poll = (\<lambda>fd ev timeo s. let (m, s) = ep_poll lim fd (ucast ev) timeo s in (if m = 0 then 0 else 1, ucast m, s)),
     sys_epoll_wait = (\<lambda>epfd n timeo s. let (m, s) = ep_poll lim epfd EPOLLIN timeo s in (if m = 0 then 0 else 1, s)),
     sys_sleep = (\<lambda>n s. snd (ep_poll lim 0 0 (1000 * int n) s)),
     sys_gettimeofday = (\<lambda>s. (of_nat (ep_now s div 1000), of_nat (ep_now s mod 1000 * 1000))),
     sys_reap = (\<lambda>code c s. (WExited (of_int code), s\<lparr>ep_now := ep_now c\<rparr>))\<rparr>"

definition ep_start :: epst where
  "ep_start = \<lparr>ep_now = 0, ep_next = 3, ep_watch = Map.empty, ep_pipe = Map.empty, ep_due = []\<rparr>"

subsection \<open>Chains\<close>

text \<open>From \<open>e\<close> it is \<open>n\<close> watches to \<open>b\<close>, and the descriptors before \<open>b\<close> watch nothing else.\<close>

primrec path :: "(int \<Rightarrow> (int \<times> u32) list option) \<Rightarrow> int \<Rightarrow> nat \<Rightarrow> int \<Rightarrow> bool" where
  "path w e 0 b \<longleftrightarrow> e = b"
| "path w e (Suc n) b \<longleftrightarrow> (\<exists>e'. w e = Some [(e', EPOLLIN)] \<and> path w e' n b)"

lemma path_snoc: "path w e n b \<Longrightarrow> w b = Some [(c, EPOLLIN)] \<Longrightarrow> path w e (Suc n) c"
  by (induction n arbitrary: e) auto

lemma path_upd: "path w e n b \<Longrightarrow> w x = None \<or> w x = Some [] \<Longrightarrow> path (w(x := v)) e n b"
  by (induction n arbitrary: e) auto

text \<open>An \<^verbatim>\<open>epoll\<close> descriptor is ready at most for reading, and along a chain readiness is that of its end, as far as the kernel goes.\<close>

lemma mask_epoll: "ep_watch s e = Some ws \<Longrightarrow> ep_mask d s e = (if ep_mask d s e AND EPOLLIN \<noteq> 0 then EPOLLIN else 0)"
  by (subst (1 2) ep_mask.simps) (simp add: EPOLLIN_def split: nat.split)

lemma mask_path:
  assumes "path (ep_watch s) e n b" "ep_watch s b = Some ws"
  shows "ep_mask lim s e AND EPOLLIN \<noteq> 0 \<longleftrightarrow> n < lim \<and> ep_mask (lim - n) s b AND EPOLLIN \<noteq> 0"
  using assms(1)
proof (induction n arbitrary: e lim)
  case 0
  then show ?case using assms(2) by (subst (1 2) ep_mask.simps) (auto split: nat.split)
next
  case (Suc n)
  then obtain e' where e: "ep_watch s e = Some [(e', EPOLLIN)]" "path (ep_watch s) e' n b" by auto
  show ?case using e(1) Suc.IH [OF e(2)] by (subst ep_mask.simps) (auto simp: EPOLLIN_def split: nat.split)
qed

text \<open>If all that is watched is other \<^verbatim>\<open>epoll\<close> descriptors and a pipe that is to become writable at its read side, nothing is ready.\<close>

lemma mask_loop:
  assumes w: "\<And>x ws f ev. ep_watch s x = Some ws \<Longrightarrow> (f, ev) \<in> set ws \<Longrightarrow> ep_watch s f \<noteq> None \<or> f = r \<and> ev = EPOLLOUT"
    and r: "ep_watch s r = None" "ep_pipe s r \<noteq> None" "r \<noteq> 0"
  shows "ep_watch s x \<noteq> None \<Longrightarrow> ep_mask d s x = 0"
proof (induction d arbitrary: x)
  case 0
  then show ?case by (subst ep_mask.simps) auto
next
  case (Suc d)
  then obtain ws where ws: "ep_watch s x = Some ws" by auto
  have "ep_mask d s f AND ev = 0" if "(f, ev) \<in> set ws" for f ev
  proof (cases "ep_watch s f = None")
    case True
    then have "f = r" "ev = EPOLLOUT" using w [OF ws that] by auto
    then show ?thesis using r by (subst ep_mask.simps) (auto simp: base_mask_def EPOLLIN_def EPOLLOUT_def)
  qed (simp add: Suc.IH)
  then show ?case using ws by (subst ep_mask.simps) (auto simp: list_ex_iff)
qed

subsection \<open>The chain tests on this kernel\<close>

lemma create_kernel: "xepoll_create (epoll_kernel lim) n s =
    (if ep_next s = -1 then Inl 2 else Inr (ep_next s), s\<lparr>ep_next := ep_next s + 1, ep_watch := (ep_watch s)(ep_next s \<mapsto> [])\<rparr>)"
  by (simp add: xepoll_create_def epoll_kernel_def)

lemma ctl_kernel: "ep_watch s e = Some ws \<Longrightarrow>
    xepoll_ctl (epoll_kernel lim) e EPOLL_CTL_ADD f ev s = (Inr (), s\<lparr>ep_watch := (ep_watch s)(e \<mapsto> ws @ [(f, ev)])\<rparr>)"
  by (simp add: xepoll_ctl_def epoll_kernel_def ep_add_def Let_def)

lemma pipe_kernel: "xpipe (epoll_kernel lim) s =
    (Inr (ep_next s, ep_next s + 1), s\<lparr>ep_next := ep_next s + 2, ep_pipe := (ep_pipe s)(ep_next s \<mapsto> 0)\<rparr>)"
  by (simp add: xpipe_def epoll_kernel_def)

lemma fork_kernel: "xfork (epoll_kernel lim) ops s = (Inr 100, s\<lparr>ep_due := ep_child (ep_now s) ops\<rparr>)"
  by (simp add: xfork_def epoll_kernel_def)

lemma check_kernel: "check_events (epoll_kernel lim) fd timeo s =
    (let (m, s) = ep_poll lim fd (EPOLLIN OR EPOLLOUT) timeo s in (Inr (ucast m), s))"
  by (auto simp: check_events_def epoll_kernel_def POLLIN_def POLLOUT_def EPOLLIN_def EPOLLOUT_def Let_def split: prod.split)

lemma result_kernel: "chain_result (epoll_kernel lim) pid ev s = (Inr (uint (ev AND POLLIN)), s\<lparr>ep_due := []\<rparr>)"
  by (simp add: chain_result_def epoll_kernel_def)

lemmas kernel_calls = create_kernel ctl_kernel pipe_kernel fork_kernel check_kernel result_kernel

text \<open>While a chain is built: its end watches nothing, everything watched is an \<^verbatim>\<open>epoll\<close> descriptor, numbers not yet given are free.\<close>

definition chained :: "epst \<Rightarrow> int \<Rightarrow> nat \<Rightarrow> int \<Rightarrow> bool" where
  "chained s e n b \<longleftrightarrow> path (ep_watch s) e n b \<and> ep_watch s b = Some [] \<and> ep_watch s e \<noteq> None \<and> 3 \<le> ep_next s
     \<and> (\<forall>x ws f ev. ep_watch s x = Some ws \<longrightarrow> (f, ev) \<in> set ws \<longrightarrow> ep_watch s f \<noteq> None) \<and> (\<forall>x \<ge> ep_next s. ep_watch s x = None)"

lemma chained_grow:
  assumes "chained s e n b"
  shows "chained (s\<lparr>ep_next := ep_next s + 1, ep_watch := (ep_watch s)(ep_next s \<mapsto> [], b \<mapsto> [(ep_next s, EPOLLIN)])\<rparr>) e (Suc n) (ep_next s)"
proof -
  have "ep_next s \<noteq> b" using assms by (auto simp: chained_def)
  moreover have "path ((ep_watch s)(ep_next s \<mapsto> [], b \<mapsto> [(ep_next s, EPOLLIN)])) e (Suc n) (ep_next s)"
    using assms \<open>ep_next s \<noteq> b\<close> by (intro path_snoc) (auto simp: chained_def intro!: path_upd)
  ultimately show ?thesis using assms unfolding chained_def by (auto split: if_splits)
qed

lemma chain_loop_chains:
  "chained s e k b \<Longrightarrow> \<exists>s' b'. chain_loop (epoll_kernel lim) n b s = (Inr b', s') \<and> chained s' e (k + n) b' \<and> ep_now s' = ep_now s"
proof (induction n arbitrary: s k b)
  case (Suc n)
  then have "ep_watch s b = Some []" "ep_next s \<noteq> -1" "ep_next s \<noteq> b" by (auto simp: chained_def)
  then show ?case using Suc.IH [OF chained_grow [OF Suc.prems]] by (simp add: pbind_def kernel_calls)
qed simp

text \<open>The chain with its pipe: whatever happens to the pipe afterwards, the start of a chain that is not a loop is ready exactly when
  the pipe has something and the kernel follows all of the chain; a loop is never ready.\<close>

definition chain_ready :: "nat \<Rightarrow> epoll_test_cfg \<Rightarrow> nat \<Rightarrow> bool" where
  "chain_ready lim tcfg k \<longleftrightarrow> cfg_flags tcfg AND EPOLL_TF_LOOP = 0 \<and> cfg_size tcfg < lim \<and> 0 < k"

definition chain_value :: "nat \<Rightarrow> epoll_test_cfg \<Rightarrow> int" where
  "chain_value lim tcfg = (if chain_ready lim tcfg 1 then 1 else 0)"

definition watches :: "nat \<Rightarrow> epoll_test_cfg \<Rightarrow> int \<Rightarrow> int \<Rightarrow> epst \<Rightarrow> bool" where
  "watches lim tcfg e r s \<longleftrightarrow> (\<forall>u k. ep_watch u = ep_watch s \<longrightarrow> ep_pipe u r = Some k \<longrightarrow>
     ep_mask lim u e = (if chain_ready lim tcfg k then EPOLLIN else 0))"

lemma watches_line:
  assumes c: "chained s e n b" and w: "w = (ep_watch s)(b \<mapsto> [(r, EPOLLIN)])" and r: "ep_next s \<le> r"
    and u: "ep_watch u = w" "ep_pipe u r = Some k"
  shows "ep_mask lim u e = (if n < lim \<and> 0 < k then EPOLLIN else 0)"
proof -
  have b: "ep_watch u b = Some [(r, EPOLLIN)]" "ep_watch u r = None" "r \<noteq> 0" using c r u(1) w by (auto simp: chained_def)
  have "path (ep_watch u) e n b" using c u(1) w by (auto simp: chained_def intro!: path_upd)
  from mask_path [OF this b(1)] have i: "ep_mask lim u e AND EPOLLIN \<noteq> 0 \<longleftrightarrow> n < lim \<and> ep_mask (lim - n) u b AND EPOLLIN \<noteq> 0" .
  have p: "ep_mask d u r AND EPOLLIN \<noteq> 0 \<longleftrightarrow> 0 < k" for d
    using b(2,3) u(2) by (subst ep_mask.simps) (auto simp: base_mask_def EPOLLIN_def)
  have "ep_mask (Suc d) u b AND EPOLLIN \<noteq> 0 \<longleftrightarrow> 0 < k" for d
    using b(1) p [of d] by (subst ep_mask.simps) (auto simp: EPOLLIN_def)
  then have "ep_mask (lim - n) u b AND EPOLLIN \<noteq> 0 \<longleftrightarrow> 0 < k" if "n < lim" using that by (cases "lim - n") auto
  moreover have "ep_watch u e \<noteq> None" using c u(1) w by (auto simp: chained_def)
  then have "ep_mask lim u e = (if ep_mask lim u e AND EPOLLIN \<noteq> 0 then EPOLLIN else 0)" using mask_epoll by blast
  ultimately show ?thesis using i by auto
qed

lemma watches_loop:
  assumes c: "chained s e n b" and w: "w = (ep_watch s)(b \<mapsto> [(e, EPOLLIN), (r, EPOLLOUT)])" and r: "ep_next s \<le> r"
    and u: "ep_watch u = w" "ep_pipe u r = Some k"
  shows "ep_mask lim u e = 0"
proof (rule mask_loop [of _ r])
  show "ep_watch u f \<noteq> None \<or> f = r \<and> ev = EPOLLOUT" if "ep_watch u x = Some ws" "(f, ev) \<in> set ws" for x ws f ev
    using that c unfolding u(1) w chained_def by (auto split: if_splits)
  show "ep_watch u r = None" "r \<noteq> 0" "ep_watch u e \<noteq> None" using c r unfolding u(1) w by (auto simp: chained_def)
qed (simp add: u(2))

lemma set_up_kernel:
  assumes "ep_watch s = Map.empty" "3 \<le> ep_next s"
  shows "\<exists>s' e r. chain_set_up (epoll_kernel lim) tcfg s = (Inr (e, r + 1), s') \<and> ep_pipe s' r = Some 0 \<and> ep_now s' = ep_now s
    \<and> watches lim tcfg e r s'"
proof -
  let ?e = "ep_next s"
  let ?s = "s\<lparr>ep_next := ep_next s + 1, ep_watch := (ep_watch s)(?e \<mapsto> [])\<rparr>"
  have "chained ?s ?e 0 ?e" using assms by (simp add: chained_def)
  from chain_loop_chains [OF this] obtain t b where t: "chain_loop (epoll_kernel lim) (cfg_size tcfg) ?e ?s = (Inr b, t)"
    "chained t ?e (cfg_size tcfg) b" "ep_now t = ep_now s" by fastforce
  have b: "ep_watch t b = Some []" "ep_next t \<noteq> b" using t(2) by (auto simp: chained_def)
  let ?r = "ep_next t"
  let ?t = "\<lambda>ws. t\<lparr>ep_next := ?r + 2, ep_pipe := (ep_pipe t)(?r \<mapsto> 0), ep_watch := (ep_watch t)(b \<mapsto> ws)\<rparr>"
  have n: "?e \<noteq> -1" using assms(2) by simp
  show ?thesis
  proof (cases "cfg_flags tcfg AND EPOLL_TF_LOOP = 0")
    case True
    have "chain_set_up (epoll_kernel lim) tcfg s = (Inr (?e, ?r + 1), ?t [(?r, EPOLLIN)])"
      using True n t(1) b(1) by (simp add: chain_set_up_def pbind_def kernel_calls)
    moreover have "watches lim tcfg ?e ?r (?t [(?r, EPOLLIN)])"
      using True watches_line [OF t(2) refl order_refl] by (auto simp: watches_def chain_ready_def)
    ultimately show ?thesis using t(3) by (intro exI) auto
  next
    case False
    have "chain_set_up (epoll_kernel lim) tcfg s = (Inr (?e, ?r + 1), ?t [(?e, EPOLLIN), (?r, EPOLLOUT)])"
      using False n t(1) b(1) by (simp add: chain_set_up_def pbind_def kernel_calls)
    moreover have "watches lim tcfg ?e ?r (?t [(?e, EPOLLIN), (?r, EPOLLOUT)])"
      using False watches_loop [OF t(2) refl order_refl] by (auto simp: watches_def chain_ready_def)
    ultimately show ?thesis using t(3) by (intro exI) auto
  qed
qed

text \<open>The wait for the start of such a chain, with the write of the child to come.\<close>

lemma watches_mask: "watches lim tcfg e r s \<Longrightarrow> ep_watch u = ep_watch s \<Longrightarrow> ep_pipe u r = Some k \<Longrightarrow>
    ep_mask lim u e = (if chain_ready lim tcfg k then EPOLLIN else 0)"
  by (simp add: watches_def)

lemma ready_0 [simp]: "\<not> chain_ready lim tcfg 0"
  by (simp add: chain_ready_def)

lemma event_bits [simp]: "EPOLLIN AND (EPOLLIN OR EPOLLOUT) = EPOLLIN" "EPOLLIN \<noteq> 0" "ucast EPOLLIN = POLLIN" "POLLIN AND POLLIN = POLLIN"
  by (simp_all add: EPOLLIN_def EPOLLOUT_def POLLIN_def)

lemma wait_kernel:
  assumes "watches lim tcfg e r s" "ep_pipe s r = Some 0" "ep_due s = [(t, r)]" "t \<le> ep_now s + nat timeo"
  shows "\<exists>s'. ep_poll lim e (EPOLLIN OR EPOLLOUT) timeo s = (if chain_ready lim tcfg 1 then EPOLLIN else 0, s')"
  using assms watches_mask [OF assms(1)] by (auto simp: ep_poll_def Let_def ep_write_def)

lemma wait_kernel_late:
  assumes "watches lim tcfg e r s" "ep_pipe s r = Some 1" "ep_due s = []"
  shows "\<exists>s'. ep_poll lim e (EPOLLIN OR EPOLLOUT) timeo s = (if chain_ready lim tcfg 1 then EPOLLIN else 0, s')"
  using assms watches_mask [OF assms(1)] by (auto simp: ep_poll_def Let_def)

lemma wakeup_kernel:
  assumes "ep_watch s = Map.empty" "3 \<le> ep_next s"
  shows "\<exists>s'. epoll_wakeup_chain (epoll_kernel lim) tcfg s = (Inr (chain_value lim tcfg), s')"
proof -
  obtain u e r where u: "chain_set_up (epoll_kernel lim) tcfg s = (Inr (e, r + 1), u)" "ep_pipe u r = Some 0" "watches lim tcfg e r u"
    using set_up_kernel [OF assms] by blast
  let ?u = "u\<lparr>ep_due := [(ep_now u + 1000, r)]\<rparr>"
  have "watches lim tcfg e r ?u" using u(3) by (simp add: watches_def)
  from wait_kernel [OF this, of "ep_now u + 1000" 2000] obtain v where
    "ep_poll lim e (EPOLLIN OR EPOLLOUT) 2000 ?u = (if chain_ready lim tcfg 1 then EPOLLIN else 0, v)" using u(2) by auto
  then show ?thesis using u(1) by (simp add: epoll_wakeup_chain_def pbind_def kernel_calls POLLIN_def chain_value_def)
qed

lemma poll_kernel:
  assumes "ep_watch s = Map.empty" "3 \<le> ep_next s"
  shows "\<exists>s'. epoll_poll_chain (epoll_kernel lim) tcfg s = (Inr (chain_value lim tcfg), s')"
proof -
  obtain u e r where u: "chain_set_up (epoll_kernel lim) tcfg s = (Inr (e, r + 1), u)" "ep_pipe u r = Some 0" "watches lim tcfg e r u"
    using set_up_kernel [OF assms] by blast
  let ?u = "sys_sleep (epoll_kernel lim) 1 (u\<lparr>ep_due := [(ep_now u, r)]\<rparr>)"
  have s: "ep_watch ?u = ep_watch u" "ep_pipe ?u r = Some 1" "ep_due ?u = []"
    using u(2) by (simp_all add: epoll_kernel_def ep_poll_def Let_def ep_write_def)
  have "watches lim tcfg e r ?u" using u(3) s(1) by (simp add: watches_def)
  from wait_kernel_late [OF this s(2,3), of 1000] obtain v where
    "ep_poll lim e (EPOLLIN OR EPOLLOUT) 1000 ?u = (if chain_ready lim tcfg 1 then EPOLLIN else 0, v)" by blast
  then show ?thesis using u(1) by (simp add: epoll_poll_chain_def pbind_def kernel_calls POLLIN_def chain_value_def)
qed

subsection \<open>The terminal tests\<close>

lemma tty_mask: "ep_watch s 0 = None \<Longrightarrow> ep_mask d s 0 = EPOLLOUT"
  by (subst ep_mask.simps) (simp add: base_mask_def)

lemma tty_watch: "ep_watch s 0 = None \<Longrightarrow> ep_watch s e = Some [(0, EPOLLIN)] \<Longrightarrow> ep_mask d s e = 0"
  by (subst ep_mask.simps) (auto simp: tty_mask EPOLLIN_def EPOLLOUT_def split: nat.split)

lemma tty_kernel:
  assumes "ep_watch s = Map.empty" "3 \<le> ep_next s" "ep_due s = []"
  shows "\<exists>s'. epoll_test_tty (epoll_kernel lim) s = (Inr 0, s')"
proof -
  have o: "EPOLLOUT AND (EPOLLIN OR EPOLLOUT) = EPOLLOUT" "ucast EPOLLOUT = POLLOUT" "EPOLLOUT \<noteq> 0"
    by (simp_all add: EPOLLIN_def EPOLLOUT_def POLLOUT_def)
  show ?thesis using assms
    by (simp add: epoll_test_tty_def pbind_def kernel_calls ep_poll_def Let_def tty_mask tty_watch o)
qed

lemma tty2_kernel:
  assumes "ep_watch s = Map.empty" "3 \<le> ep_next s" "ep_due s = []"
  shows "\<exists>s'. epoll_test_tty2 (epoll_kernel lim) s = (Inr 0, s')"
proof -
  have us: "getustime (epoll_kernel lim) u = of_nat (1000 * ep_now u)" for u
  proof -
    have "1000 * ep_now u = ep_now u div 1000 * 1000000 + ep_now u mod 1000 * 1000"
      using div_mult_mod_eq [of "ep_now u" 1000] by linarith
    then have "(of_nat (1000 * ep_now u) :: u64) = of_nat (ep_now u div 1000 * 1000000 + ep_now u mod 1000 * 1000)" by (rule arg_cong)
    then show ?thesis by (simp add: getustime_def epoll_kernel_def)
  qed
  have "\<not> of_nat (1000 * (ep_now s + 2500)) - of_nat (1000 * ep_now s) < (2000000::u64)" by simp
  then show ?thesis using assms
    by (simp add: epoll_test_tty2_def pbind_def create_kernel ctl_kernel fork_kernel us)
      (simp add: epoll_kernel_def ep_poll_def Let_def tty_mask tty_watch)
qed

subsection \<open>Properties\<close>

text \<open>The process that runs the tests has no \<^verbatim>\<open>epoll\<close> descriptor of its own.\<close>

definition idle :: "epst \<Rightarrow> bool" where
  "idle s \<longleftrightarrow> ep_watch s = Map.empty \<and> 3 \<le> ep_next s"

definition returns :: "('s, int) prog \<Rightarrow> ('s \<Rightarrow> bool) \<Rightarrow> int \<Rightarrow> bool" where
  "returns proc I v \<longleftrightarrow> (\<forall>s. I s \<longrightarrow> (\<exists>s'. proc s = (Inr v, s')))"

lemma run_tests_idle:
  assumes "list_all2 (\<lambda>t v. returns (snd t) (\<lambda>s. idle s \<and> ep_due s = []) v \<and> 0 \<le> v \<and> v < 256) ts vs" "idle s"
  shows "run_tests (epoll_kernel lim) ts s = (map (\<lambda>(t, v). verdict (fst t) v) (zip ts vs), 0)"
  using assms
proof (induction ts vs arbitrary: s rule: list_all2_induct)
  case (Cons t ts v vs)
  let ?s = "s\<lparr>ep_due := []\<rparr>"
  obtain c where c: "snd t ?s = (Inr v, c)" using Cons.hyps(1) Cons.prems unfolding returns_def
    by (metis (no_types, lifting) epst.ext_inject epst.surjective epst.update_convs(5) idle_def)
  have "uint (word_of_int v :: u8) = v" using Cons.hyps(1) by (simp add: uint_word_of_int)
  then have "run_forked_proc (epoll_kernel lim) (snd t) s = (Inr v, ?s\<lparr>ep_now := ep_now c\<rparr>)"
    using c by (simp add: run_forked_proc_def pbind_def fork_kernel) (simp add: epoll_kernel_def)
  moreover have "idle (?s\<lparr>ep_now := ep_now c\<rparr>)" using Cons.prems by (simp add: idle_def)
  ultimately show ?case using Cons.IH by simp
qed simp



text \<open>On a kernel whose \<^verbatim>\<open>epoll_ctl\<close> refuses loops and chains that are too deep, as it is documented to do since Linux 2.6.38, the set-up of
  a chain exits, and the tests of long chains and of loops report a failure, although the kernel does better than they ask for.\<close>

lemma epoll_test_refused:
  assumes "chain_set_up K tcfg s = (Inl 3, s')"
  shows "epoll_wakeup_chain K tcfg s = (Inl 3, s') \<and> epoll_poll_chain K tcfg s = (Inl 3, s') \<and> verdict 0 3 = FAIL 3"
  using assms by (simp add: epoll_wakeup_chain_def epoll_poll_chain_def pbind_def verdict_def)

end
