(* ===== verification/EpollMess.thy ===== *)
theory EpollMess
  imports Systems CStr
begin

text \<open>
  \<^verbatim>\<open>totalmess.c\<close>: threads share an \<^verbatim>\<open>epoll\<close> descriptor that watches the read sides of pipes. For every event a thread takes the pipe out of
  the set and puts it back, reads a byte without blocking, and writes one to a pipe chosen at random. The step relation interleaves the
  threads system call by system call, with \<^verbatim>\<open>main\<close> and the signal that stops the program. A pipe is the number of its
  bytes, at most \<open>cap\<close>; \<^verbatim>\<open>epoll_wait\<close> reports any pipes that are watched and have something, or none; a random
  number is any pipe. \<open>misses\<close> counts the reads that found nothing, and is no part of the program.
\<close>

datatype tm_opt = TmN cstr | TmA cstr | TmT cstr | TmV cstr | TmE | TmH

record tm_opts =
  num_pipes :: int
  tm_active :: int
  num_threads :: int
  num_evts :: int
  epet :: bool

fun tm_options :: "tm_opt list \<Rightarrow> tm_opts \<Rightarrow> tm_opts option" where
  "tm_options [] opt = Some (if num_evts opt < 0 then opt\<lparr>num_evts := sgn (num_pipes opt) * (\<bar>num_pipes opt\<bar> div 5) + 1\<rparr> else opt)"
| "tm_options (TmN arg # as) opt = tm_options as (opt\<lparr>num_pipes := atoi arg\<rparr>)"
| "tm_options (TmA arg # as) opt = tm_options as (opt\<lparr>tm_active := atoi arg\<rparr>)"
| "tm_options (TmT arg # as) opt = tm_options as (opt\<lparr>num_threads := atoi arg\<rparr>)"
| "tm_options (TmV arg # as) opt = tm_options as (opt\<lparr>num_evts := atoi arg\<rparr>)"
| "tm_options (TmE # as) opt = tm_options as (opt\<lparr>epet := True\<rparr>)"
| "tm_options (TmH # as) opt = None"

definition tm_defaults :: tm_opts where
  "tm_defaults = \<lparr>num_pipes = 100, tm_active = 1, num_threads = 2, num_evts = -1, epet = False\<rparr>"

text \<open>Where a thread is: at the mutex, at the head of its loop, in \<^verbatim>\<open>epoll_wait\<close>, before one of the four calls for a pipe with the
  events that are left, or at its end. For the write it is the pipe to write to.\<close>

datatype tm_pos = TmStart | TmHead | TmWait | TmDel nat "nat list" | TmAdd nat "nat list" | TmRead nat "nat list" | TmWrite nat "nat list" | TmEnd

datatype tm_main = MPut nat | MSleep | MJoin | MDone

record mess =
  pbytes :: "nat list"
  watched :: "bool list"
  thr :: "tm_pos list"
  tmain :: tm_main
  stop :: bool
  misses :: nat

definition next_event :: "nat list \<Rightarrow> tm_pos" where
  "next_event evs = (case evs of [] \<Rightarrow> TmHead | i # js \<Rightarrow> TmDel i js)"

definition set_tm :: "nat \<Rightarrow> tm_pos \<Rightarrow> mess \<Rightarrow> mess" where
  "set_tm t p s = s\<lparr>thr := (thr s)[t := p]\<rparr>"

definition take_byte :: "nat \<Rightarrow> mess \<Rightarrow> mess" where
  "take_byte i s = (if pbytes s ! i = 0 then s\<lparr>misses := misses s + 1\<rparr> else s\<lparr>pbytes := (pbytes s)[i := pbytes s ! i - 1]\<rparr>)"

definition put_byte :: "nat \<Rightarrow> mess \<Rightarrow> mess" where
  "put_byte i s = s\<lparr>pbytes := (pbytes s)[i := pbytes s ! i + 1]\<rparr>"

text \<open>\<^verbatim>\<open>main\<close> has made the pipes and the threads and holds the mutex.\<close>

definition mess_init :: "nat \<Rightarrow> nat \<Rightarrow> mess" where
  "mess_init np nt = \<lparr>pbytes = replicate np 0, watched = replicate np True, thr = replicate nt TmStart, tmain = MPut 0, stop = False, misses = 0\<rparr>"

definition started :: "mess \<Rightarrow> bool" where
  "started s \<longleftrightarrow> (case tmain s of MPut i \<Rightarrow> False | _ \<Rightarrow> True)"

text \<open>\<open>cap\<close> is the capacity of a pipe, \<open>na\<close> the number of active pipes, \<open>nv\<close> the most events of a wait.\<close>

inductive mess_step :: "nat \<Rightarrow> nat \<Rightarrow> nat \<Rightarrow> mess \<Rightarrow> mess \<Rightarrow> bool" for cap na nv where
  main_put: "tmain s = MPut i \<Longrightarrow> i < na \<Longrightarrow> pbytes s ! i < cap \<Longrightarrow> mess_step cap na nv s (put_byte i s\<lparr>tmain := MPut (Suc i)\<rparr>)"
| main_unlock: "tmain s = MPut na \<Longrightarrow> mess_step cap na nv s (s\<lparr>tmain := MSleep\<rparr>)"
| main_stop: "tmain s = MSleep \<Longrightarrow> stop s \<Longrightarrow> mess_step cap na nv s (s\<lparr>tmain := MJoin\<rparr>)"
| main_join: "tmain s = MJoin \<Longrightarrow> \<forall>p \<in> set (thr s). p = TmEnd \<Longrightarrow> mess_step cap na nv s (s\<lparr>tmain := MDone\<rparr>)"
| sig_int: "\<not> stop s \<Longrightarrow> mess_step cap na nv s (s\<lparr>stop := True\<rparr>)"
| begin_thread: "t < length (thr s) \<Longrightarrow> thr s ! t = TmStart \<Longrightarrow> started s \<Longrightarrow> mess_step cap na nv s (set_tm t TmHead s)"
| thr_head: "t < length (thr s) \<Longrightarrow> thr s ! t = TmHead \<Longrightarrow> mess_step cap na nv s (set_tm t (if stop s then TmEnd else TmWait) s)"
| thr_wait: "t < length (thr s) \<Longrightarrow> thr s ! t = TmWait \<Longrightarrow> distinct evs \<Longrightarrow> length evs \<le> nv \<Longrightarrow>
    \<forall>i \<in> set evs. i < length (pbytes s) \<and> watched s ! i \<and> 0 < pbytes s ! i \<Longrightarrow> mess_step cap na nv s (set_tm t (next_event evs) s)"
| thr_del: "t < length (thr s) \<Longrightarrow> thr s ! t = TmDel i js \<Longrightarrow>
    mess_step cap na nv s (set_tm t (TmAdd i js) (s\<lparr>watched := (watched s)[i := False]\<rparr>))"
| thr_add: "t < length (thr s) \<Longrightarrow> thr s ! t = TmAdd i js \<Longrightarrow>
    mess_step cap na nv s (set_tm t (TmRead i js) (s\<lparr>watched := (watched s)[i := True]\<rparr>))"
| thr_read: "t < length (thr s) \<Longrightarrow> thr s ! t = TmRead i js \<Longrightarrow> w < length (pbytes s) \<Longrightarrow> mess_step cap na nv s (set_tm t (TmWrite w js) (take_byte i s))"
| thr_write: "t < length (thr s) \<Longrightarrow> thr s ! t = TmWrite w js \<Longrightarrow> pbytes s ! w < cap \<Longrightarrow>
    mess_step cap na nv s (set_tm t (next_event js) (put_byte w s))"

text \<open>What the calls of the set-up answer, and the status \<^verbatim>\<open>main\<close> returns if one of them fails.\<close>

record tm_env =
  rlimit_ok :: bool
  memory_ok :: bool
  epoll_ok :: bool
  pipe_ok :: "int \<Rightarrow> bool"
  ctl_ok :: "int \<Rightarrow> bool"
  create_ok :: "int \<Rightarrow> bool"

definition tm_setup :: "tm_env \<Rightarrow> tm_opts \<Rightarrow> int option" where
  "tm_setup e opt =
     (if \<not> rlimit_ok e \<or> \<not> memory_ok e then Some 1
      else if \<not> epoll_ok e then Some 2
      else if \<not> list_all (pipe_ok e) [0..num_pipes opt - 1] then Some 3
      else if \<not> list_all (ctl_ok e) [0..num_pipes opt - 1] then Some 4
      else if \<not> list_all (create_ok e) [0..num_threads opt - 1] then Some 5
      else None)"

definition totalmess_main :: "tm_env \<Rightarrow> tm_opt list \<Rightarrow> int + tm_opts \<times> mess" where
  "totalmess_main e opts = (case tm_options opts tm_defaults of
     None \<Rightarrow> Inl 1
   | Some opt \<Rightarrow> (case tm_setup e opt of
       Some st \<Rightarrow> Inl st
     | None \<Rightarrow> Inr (opt, mess_init (nat (num_pipes opt)) (nat (num_threads opt)))))"

subsection \<open>The invariant\<close>

fun holds :: "tm_pos \<Rightarrow> nat" where
  "holds (TmWrite _ _) = 1"
| "holds _ = 0"

fun pipes_of :: "tm_pos \<Rightarrow> nat list" where
  "pipes_of (TmDel i js) = i # js"
| "pipes_of (TmAdd i js) = i # js"
| "pipes_of (TmRead i js) = i # js"
| "pipes_of (TmWrite w js) = w # js"
| "pipes_of _ = []"

definition placed :: "nat \<Rightarrow> mess \<Rightarrow> nat" where
  "placed na s = (case tmain s of MPut i \<Rightarrow> i | _ \<Rightarrow> na)"

text \<open>All indices are those of pipes, no pipe holds more than it can, a pipe that is not watched is about to be put back, and the
  bytes in the pipes and in the hands of threads are those placed at the start and one for each read that found nothing.\<close>

definition mess_inv :: "nat \<Rightarrow> nat \<Rightarrow> nat \<Rightarrow> nat \<Rightarrow> mess \<Rightarrow> bool" where
  "mess_inv np nt cap na s \<longleftrightarrow> length (pbytes s) = np \<and> length (watched s) = np \<and> length (thr s) = nt
     \<and> (\<forall>b \<in> set (pbytes s). b \<le> cap) \<and> (\<forall>p \<in> set (thr s). set (pipes_of p) \<subseteq> {..<np})
     \<and> (\<forall>i < np. watched s ! i \<or> (\<exists>js. TmAdd i js \<in> set (thr s)))
     \<and> sum_list (pbytes s) + sum_list (map holds (thr s)) = placed na s + misses s
     \<and> (\<forall>i. tmain s = MPut i \<longrightarrow> i \<le> na \<and> (\<forall>p \<in> set (thr s). p = TmStart) \<and> (\<forall>j. i \<le> j \<longrightarrow> j < np \<longrightarrow> pbytes s ! j = 0))"

lemma pipes_next [simp]: "pipes_of (next_event evs) = evs" "holds (next_event evs) = 0"
  by (simp_all add: next_event_def split: list.split)

lemma sum_upd: "k < length xs \<Longrightarrow> sum_list (xs[k := (x::nat)]) + xs ! k = sum_list xs + x"
  by (simp add: sum_list_update add.commute) (metis add_diff_inverse_nat add.commute elem_le_sum_list not_less trans_le_add1 le_add_diff_inverse2)

lemma thr_upd: "t < length xs \<Longrightarrow> sum_list (map f (xs[t := p])) + f (xs ! t) = sum_list (map f xs) + (f p :: nat)"
  using sum_upd [of t "map f xs" "f p"] by (simp add: map_update)

lemma in_upd: "p \<in> set (xs[t := q]) \<Longrightarrow> p = q \<or> p \<in> set xs"
  using set_update_subset_insert by fastforce

lemma stays_in_upd: "p \<in> set xs \<Longrightarrow> xs ! t \<noteq> p \<Longrightarrow> p \<in> set (xs[t := q])"
  by (metis in_set_conv_nth length_list_update nth_list_update_neq)

text \<open>One lemma for all steps of a thread: \<open>pb\<close>, \<open>w\<close> and \<open>m\<close> are the pipes, the watched pipes and the misses after it.\<close>

lemma thread_moves:
  assumes inv: "mess_inv np nt cap na s" and st: "started s" and t: "t < length (thr s)"
    and pb: "length pb = np" "\<forall>b \<in> set pb. b \<le> cap" and w: "length w = np" and p: "set (pipes_of p) \<subseteq> {..<np}"
    and watch: "\<And>i. i < np \<Longrightarrow> w ! i \<or> (\<exists>js. p = TmAdd i js) \<or> \<not> watched s ! i \<and> (\<forall>js. thr s ! t \<noteq> TmAdd i js)"
    and bytes: "sum_list pb + holds p + misses s = sum_list (pbytes s) + holds (thr s ! t) + m"
  shows "mess_inv np nt cap na (s\<lparr>pbytes := pb, watched := w, misses := m, thr := (thr s)[t := p]\<rparr>)"
proof -
  have "set (pipes_of q) \<subseteq> {..<np}" if "q \<in> set ((thr s)[t := p])" for q
    using in_upd [OF that] p inv by (auto simp: mess_inv_def)
  moreover have "w ! i \<or> (\<exists>js. TmAdd i js \<in> set ((thr s)[t := p]))" if i: "i < np" for i
  proof -
    consider "w ! i" | js where "p = TmAdd i js" | "\<not> watched s ! i" "\<forall>js. thr s ! t \<noteq> TmAdd i js" using watch [OF i] by blast
    then show ?thesis
    proof cases
      case 2
      then show ?thesis using set_update_memI [OF t] by metis
    next
      case 3
      then show ?thesis using inv i stays_in_upd unfolding mess_inv_def by metis
    qed simp
  qed
  moreover have "sum_list pb + sum_list (map holds ((thr s)[t := p])) = placed na s + m"
    using thr_upd [OF t, of holds p] bytes inv unfolding mess_inv_def by linarith
  moreover have "tmain s \<noteq> MPut i" for i using st by (auto simp: started_def)
  ultimately show ?thesis using inv pb w by (simp add: mess_inv_def placed_def)
qed

lemma thread_started: "mess_inv np nt cap na s \<Longrightarrow> t < length (thr s) \<Longrightarrow> thr s ! t \<noteq> TmStart \<Longrightarrow> started s"
  by (cases "tmain s") (auto simp: mess_inv_def started_def)

lemma bytes_below: "\<forall>b \<in> set xs. b \<le> cap \<Longrightarrow> v \<le> cap \<Longrightarrow> \<forall>b \<in> set (xs[i := v]). b \<le> (cap::nat)"
  using in_upd by fastforce

lemma thr_pipes: "mess_inv np nt cap na s \<Longrightarrow> t < length (thr s) \<Longrightarrow> set (pipes_of (thr s ! t)) \<subseteq> {..<np}"
  by (simp add: mess_inv_def)

lemma main_moves:
  assumes "mess_inv np nt cap na s" "na \<le> np" "tmain s = MPut i" "i < na" "pbytes s ! i < cap"
  shows "mess_inv np nt cap na (put_byte i s\<lparr>tmain := MPut (Suc i)\<rparr>)"
proof -
  have i: "i < length (pbytes s)" "pbytes s ! i = 0" using assms by (auto simp: mess_inv_def)
  have "\<forall>b \<in> set ((pbytes s)[i := 1]). b \<le> cap" using assms i(2) by (intro bytes_below) (auto simp: mess_inv_def)
  then show ?thesis using assms i sum_upd [OF i(1), of 1] by (auto simp: mess_inv_def put_byte_def placed_def)
qed

lemma mess_step_inv:
  assumes inv: "mess_inv np nt cap na s \<and> na \<le> np" and step: "mess_step cap na nv s s'"
  shows "mess_inv np nt cap na s' \<and> na \<le> np"
proof -
  note I = conjunct1 [OF inv] and moves = thread_moves [OF conjunct1 [OF inv]]
  have len: "length (pbytes s) = np" "length (watched s) = np" "\<forall>b \<in> set (pbytes s). b \<le> cap" using I by (auto simp: mess_inv_def)
  from step have "mess_inv np nt cap na s'"
  proof cases
    case (main_put i)
    then show ?thesis using main_moves [OF I conjunct2 [OF inv]] by blast
  next
    case (begin_thread t)
    then show ?thesis using moves [of t "pbytes s" "watched s" TmHead "misses s"] len by (simp add: set_tm_def)
  next
    case (thr_head t)
    then show ?thesis using moves [of t "pbytes s" "watched s" "if stop s then TmEnd else TmWait" "misses s"] len thread_started [OF I, of t]
      by (auto simp: set_tm_def)
  next
    case (thr_wait t evs)
    then show ?thesis using moves [of t "pbytes s" "watched s" "next_event evs" "misses s"] len thread_started [OF I, of t]
      by (auto simp: set_tm_def)
  next
    case (thr_del t i js)
    then show ?thesis using moves [of t "pbytes s" "(watched s)[i := False]" "TmAdd i js" "misses s"] len thread_started [OF I, of t]
        thr_pipes [OF I, of t] by (auto simp: set_tm_def nth_list_update)
  next
    case (thr_add t i js)
    then show ?thesis using moves [of t "pbytes s" "(watched s)[i := True]" "TmRead i js" "misses s"] len thread_started [OF I, of t]
        thr_pipes [OF I, of t] by (auto simp: set_tm_def nth_list_update)
  next
    case (thr_read t i js w)
    then have i: "i < length (pbytes s)" using thr_pipes [OF I, of t] len by auto
    show ?thesis
    proof (cases "pbytes s ! i = 0")
      case True
      then show ?thesis using thr_read moves [of t "pbytes s" "watched s" "TmWrite w js" "misses s + 1"] len thread_started [OF I, of t]
          thr_pipes [OF I, of t] by (auto simp: set_tm_def take_byte_def)
    next
      case False
      have "\<forall>b \<in> set ((pbytes s)[i := pbytes s ! i - 1]). b \<le> cap" using len(3) nth_mem [OF i] by (intro bytes_below) fastforce+
      then show ?thesis using False thr_read moves [of t "(pbytes s)[i := pbytes s ! i - 1]" "watched s" "TmWrite w js" "misses s"] len
          thread_started [OF I, of t] thr_pipes [OF I, of t] sum_upd [OF i, of "pbytes s ! i - 1"]
        by (auto simp: set_tm_def take_byte_def)
    qed
  next
    case (thr_write t w js)
    then have w: "w < length (pbytes s)" using thr_pipes [OF I, of t] len by auto
    have "\<forall>b \<in> set ((pbytes s)[w := pbytes s ! w + 1]). b \<le> cap" using len(3) thr_write by (intro bytes_below) auto
    then show ?thesis using thr_write moves [of t "(pbytes s)[w := pbytes s ! w + 1]" "watched s" "next_event js" "misses s"] len
        thread_started [OF I, of t] thr_pipes [OF I, of t] sum_upd [OF w, of "pbytes s ! w + 1"]
      by (auto simp: set_tm_def put_byte_def)
  qed (use I in \<open>auto simp: mess_inv_def placed_def\<close>)
  then show ?thesis using inv by simp
qed

interpretation mess: step_system "mess_step cap na nv" "\<lambda>s. mess_inv np nt cap na s \<and> na \<le> np" for cap na nv np nt
  by unfold_locales (rule mess_step_inv)

subsection \<open>One thread\<close>

text \<open>A single thread finds in every pipe what \<^verbatim>\<open>epoll_wait\<close> has promised.\<close>

fun to_read :: "tm_pos \<Rightarrow> nat list" where
  "to_read (TmWrite w js) = js"
| "to_read p = pipes_of p"

definition solo_inv :: "mess \<Rightarrow> bool" where
  "solo_inv s \<longleftrightarrow> misses s = 0 \<and> (\<exists>p. thr s = [p] \<and> distinct (to_read p) \<and> (\<forall>j \<in> set (to_read p). 0 < pbytes s ! j))"

lemma solo_step:
  assumes "solo_inv s \<and> mess_inv np nt cap na s \<and> na \<le> np" "mess_step cap na nv s s'"
  shows "solo_inv s' \<and> mess_inv np nt cap na s' \<and> na \<le> np"
proof -
  have one: "length (thr s) = 1" using assms(1) by (auto simp: solo_inv_def)
  have idx: "set (pipes_of (thr s ! 0)) \<subseteq> {..<length (pbytes s)}" using assms(1) one by (auto simp: mess_inv_def)
  from assms(2) have "solo_inv s'"
  proof cases
    case (main_put i)
    then have "thr s = [TmStart]" using assms(1) by (auto simp: solo_inv_def mess_inv_def)
    then show ?thesis using main_put assms(1) by (auto simp: solo_inv_def put_byte_def)
  next
    case (thr_wait t evs)
    then show ?thesis using assms(1) one by (cases evs) (auto simp: solo_inv_def set_tm_def next_event_def)
  next
    case (thr_read t i js w)
    then show ?thesis using assms(1) one idx by (auto simp: solo_inv_def set_tm_def take_byte_def nth_list_update)
  next
    case (thr_write t w js)
    then show ?thesis using assms(1) one idx
      by (cases js) (auto simp: solo_inv_def set_tm_def put_byte_def next_event_def nth_list_update)
  qed (use assms(1) one in \<open>auto simp: solo_inv_def set_tm_def\<close>)
  then show ?thesis using mess_step_inv assms by blast
qed

interpretation solo: step_system "mess_step cap na nv" "\<lambda>s. solo_inv s \<and> mess_inv np nt cap na s \<and> na \<le> np" for cap na nv np nt
  by unfold_locales (rule solo_step)

subsection \<open>After the signal\<close>

fun tm_weight :: "nat \<Rightarrow> tm_pos \<Rightarrow> nat" where
  "tm_weight nv TmEnd = 0"
| "tm_weight nv TmHead = 1"
| "tm_weight nv TmStart = 2"
| "tm_weight nv TmWait = 2 + 4 * nv"
| "tm_weight nv (TmDel i js) = 5 + 4 * length js"
| "tm_weight nv (TmAdd i js) = 4 + 4 * length js"
| "tm_weight nv (TmRead i js) = 3 + 4 * length js"
| "tm_weight nv (TmWrite w js) = 2 + 4 * length js"

definition mess_weight :: "nat \<Rightarrow> nat \<Rightarrow> mess \<Rightarrow> nat" where
  "mess_weight na nv s = sum_list (map (tm_weight nv) (thr s)) + (case tmain s of MPut i \<Rightarrow> na - i + 3 | MSleep \<Rightarrow> 2 | MJoin \<Rightarrow> 1 | MDone \<Rightarrow> 0)"

definition blocked :: "nat \<Rightarrow> mess \<Rightarrow> tm_pos \<Rightarrow> bool" where
  "blocked cap s p \<longleftrightarrow> (case p of TmWrite w js \<Rightarrow> pbytes s ! w = cap | _ \<Rightarrow> False)"

definition mess_ended :: "nat \<Rightarrow> mess \<Rightarrow> bool" where
  "mess_ended cap s \<longleftrightarrow> tmain s = MDone \<or> tmain s = MJoin \<and> (\<forall>p \<in> set (thr s). p = TmEnd \<or> blocked cap s p) \<and> (\<exists>p \<in> set (thr s). blocked cap s p)"

lemma weight_next: "tm_weight nv (next_event js) = 1 + 4 * length js"
  by (simp add: next_event_def split: list.split)

lemma thread_sinks: "t < length (thr s) \<Longrightarrow> tm_weight nv p < tm_weight nv (thr s ! t) \<Longrightarrow>
    mess_weight na nv (set_tm t p u) < mess_weight na nv s" if "thr u = thr s" "tmain u = tmain s" for u
  using thr_upd [of t "thr s" "tm_weight nv" p] that by (simp add: mess_weight_def set_tm_def)

lemma stop_sinks:
  assumes "stop s" "mess_step cap na nv s s'"
  shows "mess_weight na nv s' < mess_weight na nv s"
  using assms(2)
proof cases
  case (thr_write t w js)
  then show ?thesis using thread_sinks [of "put_byte w s" s t nv "next_event js" na] by (simp add: put_byte_def weight_next)
next
  case (thr_read t i js w)
  then show ?thesis using thread_sinks [of "take_byte i s" s t nv "TmWrite w js" na] by (simp add: take_byte_def)
next
  case (main_put i)
  then show ?thesis by (simp add: mess_weight_def put_byte_def)
next
  case main_unlock
  then show ?thesis by (simp add: mess_weight_def)
next
  case main_stop
  then show ?thesis by (simp add: mess_weight_def)
next
  case main_join
  then show ?thesis by (simp add: mess_weight_def)
qed (use assms(1) thread_sinks [of s s] thread_sinks [of "s\<lparr>watched := _\<rparr>" s] in \<open>auto simp: weight_next\<close>)

lemma stop_stays: "mess_step cap na nv s s' \<Longrightarrow> stop s \<Longrightarrow> stop s'"
  by (erule mess_step.cases) (auto simp: set_tm_def put_byte_def take_byte_def)

lemma thread_can_move:
  assumes inv: "mess_inv np nt cap na s" and p: "p \<in> set (thr s)" "p \<noteq> TmEnd" "\<not> blocked cap s p" and st: "started s"
  shows "\<exists>s'. mess_step cap na nv s s'"
proof -
  obtain t where t: "t < length (thr s)" "thr s ! t = p" using p(1) by (auto simp: in_set_conv_nth)
  show ?thesis
  proof (cases p)
    case TmWait
    then show ?thesis using mess_step.thr_wait [of t s "[]"] t by auto
  next
    case (TmRead i js)
    then have "i < length (pbytes s)" using thr_pipes [OF inv t(1)] t inv by (auto simp: mess_inv_def)
    then show ?thesis using mess_step.thr_read [of t s i js i] t TmRead by auto
  next
    case (TmWrite w js)
    then have "w < length (pbytes s)" using thr_pipes [OF inv t(1)] t inv by (auto simp: mess_inv_def)
    then have "pbytes s ! w < cap" using inv p(3) TmWrite by (simp add: mess_inv_def blocked_def le_neq_implies_less)
    then show ?thesis using mess_step.thr_write [of t s w js cap] t TmWrite by blast
  qed (use t p(2) st mess_step.begin_thread [of t s] mess_step.thr_head [of t s] mess_step.thr_del [of t s] mess_step.thr_add [of t s]
       in blast)+
qed

lemma stop_moves:
  assumes inv: "mess_inv np nt cap na s" "na \<le> np" "0 < cap" and st: "stop s" and n: "\<not> mess_ended cap s"
  shows "\<exists>s'. mess_step cap na nv s s'"
proof (cases "tmain s")
  case (MPut i)
  then have "i < na \<Longrightarrow> pbytes s ! i = 0" "i \<le> na" using inv by (auto simp: mess_inv_def)
  then show ?thesis using MPut inv(3) mess_step.main_put [of s i na cap] mess_step.main_unlock [of s na] by (cases "i = na") auto
next
  case MSleep
  then show ?thesis using mess_step.main_stop st by blast
next
  case MJoin
  show ?thesis
  proof (cases "\<forall>p \<in> set (thr s). p = TmEnd")
    case True
    then show ?thesis using mess_step.main_join MJoin by blast
  next
    case False
    then obtain p where "p \<in> set (thr s)" "p \<noteq> TmEnd" "\<not> blocked cap s p" using n MJoin by (auto simp: mess_ended_def)
    then show ?thesis using thread_can_move inv(1) MJoin by (simp add: started_def)
  qed
qed (use n in \<open>simp add: mess_ended_def\<close>)

interpretation stopping: ending_system "mess_step cap na nv" "\<lambda>s. (mess_inv np nt cap na s \<and> na \<le> np) \<and> stop s \<and> 0 < cap"
    "mess_weight na nv" "mess_ended cap" for cap na nv np nt
proof (unfold_locales, goal_cases)
  case (3 s)
  then show ?case using stop_moves [of np nt cap na s] by blast
qed (use mess_step_inv stop_stays stop_sinks in blast)+

subsection \<open>Two threads\<close>

text \<open>A thread at the head of its loop can be led to the read of any pipe that has something.\<close>

lemma reaches_read:
  assumes "t < length (thr s)" "thr s ! t = TmHead" "\<not> stop s" "i < length (pbytes s)" "length (watched s) = length (pbytes s)"
    "watched s ! i" "0 < pbytes s ! i"
  shows "(mess_step cap na 1)\<^sup>*\<^sup>* s (set_tm t (TmRead i []) s)"
proof -
  let ?w = "set_tm t TmWait s" and ?d = "set_tm t (TmDel i []) s"
  let ?a = "set_tm t (TmAdd i []) (s\<lparr>watched := (watched s)[i := False]\<rparr>)"
  have "mess_step cap na 1 s ?w" using mess_step.thr_head [of t s] assms by simp
  moreover have "mess_step cap na 1 ?w ?d" using mess_step.thr_wait [of t ?w "[i]"] assms by (simp add: set_tm_def next_event_def)
  moreover have "mess_step cap na 1 ?d ?a" using mess_step.thr_del [of t ?d i "[]"] assms by (simp add: set_tm_def)
  moreover have "(watched s)[i := True] = watched s" using assms by (metis list_update_id)
  then have "mess_step cap na 1 ?a (set_tm t (TmRead i []) s)" using mess_step.thr_add [of t ?a i "[]"] assms by (simp add: set_tm_def)
  ultimately show ?thesis by (meson rtranclp.rtrancl_into_rtrancl rtranclp.rtrancl_refl)
qed

definition duo :: "nat \<Rightarrow> nat \<Rightarrow> tm_pos \<Rightarrow> tm_pos \<Rightarrow> nat \<Rightarrow> mess" where
  "duo b0 b1 p q m = \<lparr>pbytes = [b0, b1], watched = [True, True], thr = [p, q], tmain = MSleep, stop = False, misses = m\<rparr>"

text \<open>Both threads are told of the one byte in the first pipe; one of them reads it, the other finds nothing, and both write.\<close>

lemma duo_reads:
  assumes "w < 2" "w' < 2"
  shows "(mess_step cap na 1)\<^sup>*\<^sup>* (duo 1 b TmHead TmHead m) (duo 0 b (TmWrite w []) (TmWrite w' []) (Suc m))"
proof -
  have 1: "(mess_step cap na 1)\<^sup>*\<^sup>* (duo 1 b TmHead TmHead m) (duo 1 b (TmRead 0 []) TmHead m)"
    using reaches_read [of 0 "duo 1 b TmHead TmHead m" 0] by (simp add: duo_def set_tm_def)
  have 2: "(mess_step cap na 1)\<^sup>*\<^sup>* (duo 1 b (TmRead 0 []) TmHead m) (duo 1 b (TmRead 0 []) (TmRead 0 []) m)"
    using reaches_read [of 1 "duo 1 b (TmRead 0 []) TmHead m" 0] by (simp add: duo_def set_tm_def)
  have 3: "mess_step cap na 1 (duo 1 b (TmRead 0 []) (TmRead 0 []) m) (duo 0 b (TmWrite w []) (TmRead 0 []) m)"
    using mess_step.thr_read [of 0 "duo 1 b (TmRead 0 []) (TmRead 0 []) m" 0 "[]" w] assms by (simp add: duo_def set_tm_def take_byte_def)
  have 4: "mess_step cap na 1 (duo 0 b (TmWrite w []) (TmRead 0 []) m) (duo 0 b (TmWrite w []) (TmWrite w' []) (Suc m))"
    using mess_step.thr_read [of 1 "duo 0 b (TmWrite w []) (TmRead 0 []) m" 0 "[]" w'] assms by (simp add: duo_def set_tm_def take_byte_def)
  show ?thesis using 1 2 3 4 by (meson rtranclp.rtrancl_into_rtrancl rtranclp_trans)
qed

lemma duo_gains:
  assumes "b < cap"
  shows "(mess_step cap na 1)\<^sup>*\<^sup>* (duo 1 b TmHead TmHead m) (duo 1 (Suc b) TmHead TmHead (Suc m))"
proof -
  have "mess_step cap na 1 (duo 0 b (TmWrite 0 []) (TmWrite 1 []) (Suc m)) (duo 1 b TmHead (TmWrite 1 []) (Suc m))"
    using mess_step.thr_write [of 0 "duo 0 b (TmWrite 0 []) (TmWrite 1 []) (Suc m)" 0 "[]" cap] assms
    by (simp add: duo_def set_tm_def put_byte_def next_event_def)
  moreover have "mess_step cap na 1 (duo 1 b TmHead (TmWrite 1 []) (Suc m)) (duo 1 (Suc b) TmHead TmHead (Suc m))"
    using mess_step.thr_write [of 1 "duo 1 b TmHead (TmWrite 1 []) (Suc m)" 1 "[]" cap] assms
    by (simp add: duo_def set_tm_def put_byte_def next_event_def)
  ultimately show ?thesis using duo_reads [of 0 1 cap na b m] by (simp add: rtranclp.rtrancl_into_rtrancl)
qed

lemma duo_fills: "b \<le> cap \<Longrightarrow> (mess_step cap na 1)\<^sup>*\<^sup>* (duo 1 0 TmHead TmHead 0) (duo 1 b TmHead TmHead b)"
proof (induction b)
  case (Suc b)
  then show ?case using duo_gains [of b cap na b] by (simp add: rtranclp_trans)
qed simp

lemma duo_starts: "0 < cap \<Longrightarrow> (mess_step cap 1 1)\<^sup>*\<^sup>* (mess_init 2 2) (duo 1 0 TmHead TmHead 0)"
proof -
  assume c: "0 < cap"
  let ?a = "\<lparr>pbytes = [1, 0], watched = [True, True], thr = [TmStart, TmStart], tmain = MPut 1, stop = False, misses = 0\<rparr>"
  have "mess_step cap 1 1 (mess_init 2 2) ?a"
    using c mess_step.main_put [of "mess_init 2 2" 0 1 cap] by (simp add: mess_init_def put_byte_def numeral_2_eq_2)
  moreover have "mess_step cap 1 1 ?a (duo 1 0 TmStart TmStart 0)" using mess_step.main_unlock [of ?a 1] by (simp add: duo_def)
  moreover have "mess_step cap 1 1 (duo 1 0 TmStart TmStart 0) (duo 1 0 TmHead TmStart 0)"
    using mess_step.begin_thread [of 0 "duo 1 0 TmStart TmStart 0"] by (simp add: duo_def set_tm_def started_def)
  moreover have "mess_step cap 1 1 (duo 1 0 TmHead TmStart 0) (duo 1 0 TmHead TmHead 0)"
    using mess_step.begin_thread [of 1 "duo 1 0 TmHead TmStart 0"] by (simp add: duo_def set_tm_def started_def)
  ultimately show ?thesis by (meson rtranclp.rtrancl_into_rtrancl rtranclp.rtrancl_refl)
qed

subsection \<open>Properties\<close>

lemma mess_init_inv: "mess_inv np nt cap na (mess_init np nt)" "nt = 1 \<Longrightarrow> solo_inv (mess_init np nt)"
  by (auto simp: mess_inv_def mess_init_def placed_def sum_list_replicate solo_inv_def)

text \<open>C40. In every interleaving the threads stay inside the array of pipes, every pipe is watched or about to be watched again,
  and no byte is lost: once \<^verbatim>\<open>main\<close> has placed its bytes, there are as many in the pipes and in the hands of threads as it has placed, and one
  more for each read that found its pipe empty, which with one thread never happens. After the signal no run goes on for ever, and it stops only
  when \<^verbatim>\<open>main\<close> has joined all threads, or waits for threads that are all at their end or blocked in a write to a full pipe.\<close>

theorem totalmess_tokens:
  assumes "na \<le> np" "0 < cap" "(mess_step cap na nv)\<^sup>*\<^sup>* (mess_init np nt) s"
  shows "(\<forall>p \<in> set (thr s). set (pipes_of p) \<subseteq> {..<np}) \<and> (\<forall>i < np. watched s ! i \<or> (\<exists>js. TmAdd i js \<in> set (thr s)))
    \<and> (started s \<longrightarrow> sum_list (pbytes s) + sum_list (map holds (thr s)) = na + misses s) \<and> (nt = 1 \<longrightarrow> misses s = 0)
    \<and> (stop s \<longrightarrow> (\<forall>k s'. (mess_step cap na nv ^^ k) s s' \<longrightarrow> k \<le> mess_weight na nv s \<and> ((\<nexists>u. mess_step cap na nv s' u) \<longrightarrow> mess_ended cap s')))"
proof -
  have i: "mess_inv np nt cap na s \<and> na \<le> np" using mess.reach_inv [OF assms(3)] mess_init_inv(1) assms(1) by blast
  have "misses s = 0" if "nt = 1"
    using solo.reach_inv [OF assms(3)] mess_init_inv assms(1) that unfolding solo_inv_def by blast
  moreover have "k \<le> mess_weight na nv s \<and> ((\<nexists>u. mess_step cap na nv s' u) \<longrightarrow> mess_ended cap s')"
    if "stop s" "(mess_step cap na nv ^^ k) s s'" for k s'
    using stopping.run_bound [OF that(2)] stopping.stuck_ended [OF relpowp_imp_rtranclp [OF that(2)]] i that(1) assms(2)
    by (meson le_add1 le_trans)
  moreover have "placed na s = na" if "started s" using that by (cases "tmain s") (auto simp: started_def placed_def)
  ultimately show ?thesis using i by (auto simp: mess_inv_def)
qed

theorem totalmess_tokens_witness:
  "(mess_step 65536 1 1)\<^sup>*\<^sup>* (mess_init 2 2) (duo 1 7 TmHead TmHead 7) \<and> sum_list (pbytes (duo 1 7 TmHead TmHead 7)) = 1 + 7"
proof -
  have "(mess_step 65536 1 1)\<^sup>*\<^sup>* (mess_init 2 2) (duo 1 7 TmHead TmHead 7)"
    by (rule rtranclp_trans [OF duo_starts duo_fills]) simp_all
  moreover from totalmess_tokens [OF _ _ this] have "sum_list (pbytes (duo 1 7 TmHead TmHead 7)) = 1 + 7"
    by (simp add: duo_def started_def)
  ultimately show ?thesis by blast
qed

text \<open>Without options the program is within these bounds: 100 pipes, one of them active, two threads and at most 21 events.\<close>

lemma totalmess_defaults:
  "totalmess_main e [] = Inr (opt, s) \<Longrightarrow> s = mess_init 100 2 \<and> tm_active opt \<le> num_pipes opt \<and> num_evts opt = 21"
  by (auto simp: totalmess_main_def tm_defaults_def split: option.splits)

text \<open>With two threads the bytes can become ever more, until both threads are blocked in a write to a full pipe. The signal does not
  end the program then: \<^verbatim>\<open>main\<close> waits for threads that cannot go on.\<close>

theorem totalmess_blocks:
  assumes "0 < cap"
  shows "\<exists>s. (mess_step cap 1 1)\<^sup>*\<^sup>* (mess_init 2 2) s \<and> stop s \<and> tmain s = MJoin \<and> (\<nexists>u. mess_step cap 1 1 s u)
    \<and> thr s = [TmWrite 1 [], TmWrite 1 []] \<and> misses s = Suc cap"
proof -
  let ?s = "duo 0 cap (TmWrite 1 []) (TmWrite 1 []) (Suc cap)"
  let ?t = "?s\<lparr>stop := True\<rparr>" and ?u = "?s\<lparr>stop := True, tmain := MJoin\<rparr>"
  have "(mess_step cap 1 1)\<^sup>*\<^sup>* (mess_init 2 2) ?s"
    by (rule rtranclp_trans [OF duo_starts [OF assms] rtranclp_trans [OF duo_fills [OF order_refl] duo_reads]]) simp_all
  moreover have "mess_step cap 1 1 ?s ?t" by (rule mess_step.sig_int) (simp add: duo_def)
  moreover have "mess_step cap 1 1 ?t ?u" using mess_step.main_stop [of ?t] by (simp add: duo_def)
  ultimately have "(mess_step cap 1 1)\<^sup>*\<^sup>* (mess_init 2 2) ?u" by (meson rtranclp.rtrancl_into_rtrancl)
  moreover have t: "thr ?u ! t = TmWrite 1 []" if "t < length (thr ?u)" for t using that by (auto simp: duo_def less_Suc_eq)
  have "False" if "mess_step cap 1 1 ?u v" for v
    using that by cases (use t in \<open>simp_all add: duo_def\<close>)
  then have "\<nexists>v. mess_step cap 1 1 ?u v" by blast
  ultimately show ?thesis by (intro exI [of _ ?u]) (simp add: duo_def)
qed

end
