(* ===== verification/EpollWait.thy ===== *)
theory EpollWait
  imports CStr
begin

text \<open>
  \<^verbatim>\<open>epwbench.c\<close> times calls of \<^verbatim>\<open>epoll_wait\<close> that are to report all pipes, over the readings of a clock and the answers of the calls.
  \<^verbatim>\<open>epoll_pwait_test.c\<close> compares the answers of \<^verbatim>\<open>epoll_pwait\<close> in nine situations with the ones expected.
\<close>

subsection \<open>\<^verbatim>\<open>epwbench.c\<close>\<close>

definition NBATCH :: nat where "NBATCH = 16"
definition EPW_RUNTIMES :: nat where "EPW_RUNTIMES = 16"
definition MIN_TESTTIME :: u64 where "MIN_TESTTIME = 250 * 1000"

text \<open>\<open>clk\<close> and \<open>ans\<close> are the readings of the clock and the answers of \<^verbatim>\<open>epoll_wait\<close> to come. A batch prints a line for every answer
  that is not the number of pipes.\<close>

definition epw_batch :: "int \<Rightarrow> (nat \<Rightarrow> int) \<Rightarrow> nat \<Rightarrow> int list" where
  "epw_batch np ans w = filter (\<lambda>res. res \<noteq> np) (map ans [w..<w + NBATCH])"

partial_function (option) epw_loop ::
  "int \<Rightarrow> (nat \<Rightarrow> u64) \<Rightarrow> (nat \<Rightarrow> int) \<Rightarrow> u64 \<Rightarrow> nat \<Rightarrow> nat \<Rightarrow> nat \<Rightarrow> int list \<Rightarrow> (nat \<times> u64 \<times> nat \<times> nat \<times> int list) option" where
  "epw_loop np clk ans ts c w work errs =
     (let errs = errs @ epw_batch np ans w; work = work + NBATCH; tr = clk c - ts in
      if tr < MIN_TESTTIME then epw_loop np clk ans ts (Suc c) (w + NBATCH) work errs
      else Some (work, tr, Suc c, w + NBATCH, errs))"

definition epw_run_once ::
  "int \<Rightarrow> (nat \<Rightarrow> u64) \<Rightarrow> (nat \<Rightarrow> int) \<Rightarrow> nat \<Rightarrow> nat \<Rightarrow> (nat \<times> u64 \<times> nat \<times> nat \<times> int list) option" where
  "epw_run_once np clk ans c w = epw_loop np clk ans (clk c) (Suc c) w 0 []"

text \<open>The rounds of \<^verbatim>\<open>main\<close>: the status, the samples as time and work, and the lines printed.\<close>

primrec epw_rounds :: "nat \<Rightarrow> int \<Rightarrow> (nat \<Rightarrow> u64) \<Rightarrow> (nat \<Rightarrow> int) \<Rightarrow> nat \<Rightarrow> nat \<Rightarrow> (int \<times> (u64 \<times> nat) list \<times> int list) option" where
  "epw_rounds 0 np clk ans c w = Some (0, [], [])"
| "epw_rounds (Suc n) np clk ans c w = do {
     (work, tr, c, w, errs) \<leftarrow> epw_run_once np clk ans c w;
     if work = 0 then Some (7, [], errs)
     else do {
       (st, samps, errs') \<leftarrow> epw_rounds n np clk ans c w;
       Some (st, (tr, work) # samps, errs @ errs') } }"

datatype epw_opt = EpwN cstr | EpwQ | EpwH

fun epw_options :: "epw_opt list \<Rightarrow> int \<Rightarrow> bool \<Rightarrow> (int \<times> bool) option" where
  "epw_options [] np quiet = Some (np, quiet)"
| "epw_options (EpwN arg # as) np quiet = epw_options as (atoi arg) quiet"
| "epw_options (EpwQ # as) np quiet = epw_options as np True"
| "epw_options (EpwH # as) np quiet = None"

text \<open>\<open>setup np\<close> is the status of the first call that fails while the descriptors are made, 2 to 6, if one does.\<close>

definition epwbench_main ::
  "(int \<Rightarrow> int option) \<Rightarrow> (nat \<Rightarrow> u64) \<Rightarrow> (nat \<Rightarrow> int) \<Rightarrow> epw_opt list \<Rightarrow> (int \<times> (u64 \<times> nat) list \<times> int list) option" where
  "epwbench_main setup clk ans opts = (case epw_options opts 200 False of
     None \<Rightarrow> Some (1, [], [])
   | Some (np, quiet) \<Rightarrow> (case setup np of Some st \<Rightarrow> Some (st, [], [])
     | None \<Rightarrow> epw_rounds EPW_RUNTIMES np clk ans 0 0))"

text \<open>The clock gets past the time of a test from wherever it is read.\<close>

definition progresses :: "(nat \<Rightarrow> u64) \<Rightarrow> bool" where
  "progresses clk \<longleftrightarrow> (\<forall>c. \<exists>j. \<not> clk (Suc c + j) - clk c < MIN_TESTTIME)"

lemma epw_loop_ends:
  assumes "\<not> clk (c + j) - ts < MIN_TESTTIME"
  shows "\<exists>n tr c'. epw_loop np clk ans ts c w work errs =
      Some (work + n * NBATCH, tr, c', w + n * NBATCH, errs @ filter (\<lambda>res. res \<noteq> np) (map ans [w..<w + n * NBATCH]))
    \<and> 0 < n \<and> \<not> tr < MIN_TESTTIME"
  using assms
proof (induction j arbitrary: c w work errs)
  case 0
  then show ?case by (subst epw_loop.simps) (auto simp: Let_def epw_batch_def intro!: exI [of _ "1::nat"])
next
  case (Suc j)
  show ?case
  proof (cases "clk c - ts < MIN_TESTTIME")
    case True
    obtain n tr c' where n: "epw_loop np clk ans ts (Suc c) (w + NBATCH) (work + NBATCH) (errs @ epw_batch np ans w) =
        Some (work + NBATCH + n * NBATCH, tr, c', w + NBATCH + n * NBATCH,
          (errs @ epw_batch np ans w) @ filter (\<lambda>res. res \<noteq> np) (map ans [w + NBATCH..<w + NBATCH + n * NBATCH]))" "\<not> tr < MIN_TESTTIME"
      using Suc.IH [of "Suc c" "w + NBATCH" "work + NBATCH" "errs @ epw_batch np ans w"] Suc.prems by auto
    have "[w..<w + Suc n * NBATCH] = [w..<w + NBATCH] @ [w + NBATCH..<w + NBATCH + n * NBATCH]"
      using upt_add_eq_append [of w "w + NBATCH" "n * NBATCH"] by (simp add: algebra_simps)
    then show ?thesis using True n by (subst epw_loop.simps) (auto simp: Let_def epw_batch_def algebra_simps intro!: exI [of _ "Suc n"])
  next
    case False
    then show ?thesis by (subst epw_loop.simps) (auto simp: Let_def epw_batch_def intro!: exI [of _ "1::nat"])
  qed
qed

text \<open>With such a clock the rounds end; every sample is a time not below the minimum over a positive multiple of the batch, and the
  lines printed are exactly the answers that are not the number of pipes, in their order.\<close>

lemma epw_rounds_end:
  assumes "progresses clk"
  shows "\<exists>samps m. epw_rounds n np clk ans c w = Some (0, samps, filter (\<lambda>res. res \<noteq> np) (map ans [w..<w + m * NBATCH]))
    \<and> length samps = n \<and> sum_list (map snd samps) = m * NBATCH \<and> (\<forall>(tr, work) \<in> set samps. \<not> tr < MIN_TESTTIME \<and> 0 < work \<and> NBATCH dvd work)"
proof (induction n arbitrary: c w)
  case (Suc n)
  obtain j where "\<not> clk (Suc c + j) - clk c < MIN_TESTTIME" using assms unfolding progresses_def by blast
  from epw_loop_ends [of clk "Suc c" j "clk c" np ans w 0 "[]", OF this] obtain k tr c' where
    k: "epw_run_once np clk ans c w = Some (k * NBATCH, tr, c', w + k * NBATCH, filter (\<lambda>res. res \<noteq> np) (map ans [w..<w + k * NBATCH]))"
      "0 < k" "\<not> tr < MIN_TESTTIME" unfolding epw_run_once_def by auto
  from Suc.IH [of c' "w + k * NBATCH"] obtain samps m where
    m: "epw_rounds n np clk ans c' (w + k * NBATCH) =
        Some (0, samps, filter (\<lambda>res. res \<noteq> np) (map ans [w + k * NBATCH..<w + k * NBATCH + m * NBATCH]))"
      "length samps = n" "sum_list (map snd samps) = m * NBATCH" "\<forall>(tr, work) \<in> set samps. \<not> tr < MIN_TESTTIME \<and> 0 < work \<and> NBATCH dvd work"
    by auto
  have "[w..<w + (k + m) * NBATCH] = [w..<w + k * NBATCH] @ [w + k * NBATCH..<w + k * NBATCH + m * NBATCH]"
    using upt_add_eq_append [of w "w + k * NBATCH" "m * NBATCH"] by (simp add: algebra_simps)
  then show ?case using k m by (intro exI [of _ "(tr, k * NBATCH) # samps"] exI [of _ "k + m"]) (auto simp: NBATCH_def algebra_simps)
qed (auto intro!: exI [of _ 0])

subsection \<open>\<^verbatim>\<open>epoll_pwait_test.c\<close>\<close>

definition PW_EINVAL :: int where "PW_EINVAL = 22"
definition PW_EBADF :: int where "PW_EBADF = 9"
definition PW_EINTR :: int where "PW_EINTR = 4"
definition INT_MAX :: int where "INT_MAX = 2147483647"
definition SIZEOF_SIGSET :: nat where "SIZEOF_SIGSET = 64 div 8"

text \<open>The signal mask of a call: none, the one that is not initialised, or the one of the process with \<^verbatim>\<open>SIGUSR1\<close> added or taken out.\<close>

datatype sigmask = NoMask | Garbage | Blocking | Unblocking

text \<open>The kernel: \<^verbatim>\<open>epoll_pwait\<close> with its descriptor, number of events, time-out, mask and mask size gives a result and \<^verbatim>\<open>errno\<close>; a write and a
  read of one byte of the pipe; the fork of a child that sends the signal, which says whether it could be made.\<close>

record 'k pw_kernel =
  pw_set_up :: "'k \<Rightarrow> (int \<times> int \<times> int) option \<times> 'k"
  pw_sigaction :: "'k \<Rightarrow> bool \<times> 'k"
  pw_wait :: "int \<Rightarrow> int \<Rightarrow> int \<Rightarrow> sigmask \<Rightarrow> nat \<Rightarrow> 'k \<Rightarrow> (int \<times> int) \<times> 'k"
  pw_close :: "int \<Rightarrow> 'k \<Rightarrow> 'k"
  pw_write :: "int \<Rightarrow> 'k \<Rightarrow> 'k"
  pw_read :: "int \<Rightarrow> 'k \<Rightarrow> 'k"
  pw_fork :: "'k \<Rightarrow> bool \<times> 'k"
  pw_waitpid :: "'k \<Rightarrow> 'k"

datatype pw_verdict = PwOK | PwReturned int | PwErrno int

definition expect_error :: "int \<Rightarrow> int \<times> int \<Rightarrow> pw_verdict" where
  "expect_error e ans = (if fst ans \<noteq> -1 then PwReturned (fst ans) else if snd ans \<noteq> e then PwErrno (snd ans) else PwOK)"

definition expect_none :: "int \<times> int \<Rightarrow> pw_verdict" where
  "expect_none ans = (if fst ans > 0 then PwReturned (fst ans) else PwOK)"

definition expect_value :: "int \<Rightarrow> int \<times> int \<Rightarrow> pw_verdict" where
  "expect_value v ans = (if fst ans \<noteq> v then PwReturned (fst ans) else PwOK)"

text \<open>The seven tests without a signal.\<close>

definition pw_plain :: "'k pw_kernel \<Rightarrow> int \<Rightarrow> int \<Rightarrow> int \<Rightarrow> 'k \<Rightarrow> pw_verdict list \<times> 'k" where
  "pw_plain K epfd rfd wfd k =
     (let (a1, k) = pw_wait K rfd 1 0 NoMask 0 k;
          (a2, k) = pw_wait K 17 1 0 NoMask 0 (pw_close K 17 k);
          (a3, k) = pw_wait K epfd 0 0 NoMask 0 k;
          (a4, k) = pw_wait K epfd INT_MAX 0 NoMask 0 k;
          (a5, k) = pw_wait K epfd 1 0 Garbage (SIZEOF_SIGSET div 2) k;
          (a6, k) = pw_wait K epfd 1 0 NoMask 0 k;
          (a7, k) = pw_wait K epfd 1 0 NoMask 0 (pw_write K wfd k);
          k = (if fst a7 \<noteq> 1 then k else pw_read K rfd k)
      in ([expect_error PW_EINVAL a1, expect_error PW_EBADF a2, expect_error PW_EINVAL a3, expect_error PW_EINVAL a4,
           expect_error PW_EINVAL a5, expect_none a6, expect_value 1 a7], k))"

text \<open>A wait for a second with a child that sends the signal meanwhile.\<close>

definition pw_signal :: "'k pw_kernel \<Rightarrow> int \<Rightarrow> sigmask \<Rightarrow> (int \<times> int \<Rightarrow> pw_verdict) \<Rightarrow> 'k \<Rightarrow> pw_verdict option \<times> 'k" where
  "pw_signal K epfd sm expect k =
     (let (forked, k) = pw_fork K k in
      if \<not> forked then (None, k)
      else let (a, k) = pw_wait K epfd 1 1000 sm SIZEOF_SIGSET k in (Some (expect a), pw_waitpid K k))"

text \<open>\<^verbatim>\<open>main\<close>: the status and the verdicts printed.\<close>

definition pw_main :: "'k pw_kernel \<Rightarrow> 'k \<Rightarrow> int \<times> pw_verdict list" where
  "pw_main K k = (case pw_set_up K k of
     (None, k) \<Rightarrow> (1, [])
   | (Some (epfd, rfd, wfd), k) \<Rightarrow>
       (let (vs, k) = pw_plain K epfd rfd wfd k; (ok, k) = pw_sigaction K k in
        if \<not> ok then (1, vs)
        else case pw_signal K epfd Blocking (expect_value 0) k of
          (None, k) \<Rightarrow> (1, vs)
        | (Some v8, k) \<Rightarrow> (case pw_signal K epfd Unblocking (expect_error PW_EINTR) k of
            (None, k) \<Rightarrow> (1, vs @ [v8])
          | (Some v9, k) \<Rightarrow> (let vs = vs @ [v8, v9]; fails = length (filter (\<lambda>v. v \<noteq> PwOK) vs) in (if fails \<noteq> 0 then 2 else 0, vs)))))"

text \<open>Whatever the kernel answers, the status is 0 exactly when all nine tests have been made and passed, and 2 exactly when all
  have been made and one has failed.\<close>

lemma pw_plain_length: "length (fst (pw_plain K epfd rfd wfd k)) = 7"
  by (simp add: pw_plain_def Let_def split: prod.split)

lemma pw_main_status:
  "fst (pw_main K k) = 0 \<longleftrightarrow> snd (pw_main K k) = replicate 9 PwOK" (is ?zero)
  "fst (pw_main K k) = 2 \<longleftrightarrow> length (snd (pw_main K k)) = 9 \<and> (\<exists>v \<in> set (snd (pw_main K k)). v \<noteq> PwOK)" (is ?two)
proof -
  have all: "(vs :: pw_verdict list) = replicate 9 PwOK \<longleftrightarrow> length vs = 9 \<and> filter (\<lambda>v. v \<noteq> PwOK) vs = []" for vs
    by (metis (mono_tags, lifting) filter_empty_conv in_set_replicate length_replicate replicate_length_same)
  have some: "(\<exists>v \<in> set vs. v \<noteq> PwOK) \<longleftrightarrow> filter (\<lambda>v. v \<noteq> PwOK) vs \<noteq> []" for vs :: "pw_verdict list"
    by (auto simp: filter_empty_conv)
  obtain st vs where m: "pw_main K k = (st, vs)" by fastforce
  have "st = 1 \<and> length vs < 9 \<or> length vs = 9 \<and> st = (if filter (\<lambda>v. v \<noteq> PwOK) vs \<noteq> [] then 2 else 0)"
    using m unfolding pw_main_def
    by (auto simp: Let_def pw_plain_length dest!: arg_cong [where f = "\<lambda>x. length (fst x)"] split: option.splits prod.splits if_splits)
  then show ?zero ?two unfolding m all some by (auto split: if_splits)
qed

text \<open>The sixth test says that it wants 0, but lets an error pass.\<close>

lemma pw_none_lets_errors_pass: "expect_none (-1, e) = PwOK"
  by (simp add: expect_none_def)

end
