(* ===== verification/SLoadRun.thy ===== *)
theory SLoadRun
  imports SLoad
begin

text \<open>
  The rest of \<^verbatim>\<open>sload.c\<close>: the calibration, the children and the parent that collects their reports. The clock, the answers of the
  kernel and the clock readings a child sees until it is stopped are parameters. The quotients the calibration compares
  in floating point are kept as pairs of a time and a number of loops; what \<^verbatim>\<open>burn\<close> does with them is left out.
\<close>

subsection \<open>Calibration\<close>

text \<open>\<open>c\<close> is the number of clock readings so far.\<close>

partial_function (option) cal_loop :: "(nat \<Rightarrow> u64) \<Rightarrow> u64 \<Rightarrow> nat \<Rightarrow> nat \<Rightarrow> (u64 \<times> nat \<times> nat) option" where
  "cal_loop clk ts c lp = (let lp = lp + 1024; tn = clk c in
     if tn - ts < 25000 then cal_loop clk ts (Suc c) lp else Some (tn - ts, lp, Suc c))"

primrec cal_rounds :: "nat \<Rightarrow> (nat \<Rightarrow> u64) \<Rightarrow> nat \<Rightarrow> (u64 \<times> nat) list option" where
  "cal_rounds 0 clk c = Some []"
| "cal_rounds (Suc k) clk c = do {
     (t, lp, c) \<leftarrow> cal_loop clk (clk c) (Suc c) 0;
     rest \<leftarrow> cal_rounds k clk c;
     Some ((t, lp) # rest) }"

text \<open>What the kernel answers: to the two questions about the scheduler, to the change to \<^verbatim>\<open>SCHED_RR\<close>, to the binding to a
  processor, and for child \<open>k\<close> of task \<open>i\<close> to the pipe and the fork. \<open>readings\<close> are the clock readings of that child.\<close>

record sl_env =
  sched_ok :: bool
  rr_ok :: bool
  affinity_ok :: bool
  pipe_ok :: "nat \<Rightarrow> nat \<Rightarrow> bool"
  fork_ok :: "nat \<Rightarrow> nat \<Rightarrow> bool"
  readings :: "nat \<Rightarrow> nat \<Rightarrow> (u64 \<times> u64) list"

definition calibrate_loop :: "sl_env \<Rightarrow> (nat \<Rightarrow> u64) \<Rightarrow> (int + (u64 \<times> nat) list) option" where
  "calibrate_loop e clk = (if \<not> sched_ok e then Some (Inl 1)
     else map_option Inr (cal_rounds (if rr_ok e then 2 else 8) clk 0))"

subsection \<open>Children and parent\<close>

text \<open>A child starts with the random state of the parent, which never draws a number.\<close>

definition sl_child :: "sltask \<Rightarrow> (u64 \<times> u64) list \<Rightarrow> slreport option" where
  "sl_child t clk = map_option fst (child_passes t clk (\<lparr>missd = 0, time = 0\<rparr>, 0))"

definition sl_all :: "slmain \<Rightarrow> (nat \<times> nat) list" where
  "sl_all s = concat (map (\<lambda>i. map (Pair i) [0..<nat (count (tasks s ! i))]) [0..<nat (n s)])"

text \<open>The loop that forks: \<open>None\<close> is a child that could not be made, whose \<^verbatim>\<open>pids\<close> entry is -1. The outer \<open>None\<close> is a fault of a child.\<close>

primrec sl_spawn :: "sl_env \<Rightarrow> slmain \<Rightarrow> (nat \<times> nat) list \<Rightarrow> (int + slreport option list) option" where
  "sl_spawn e s [] = Some (Inr [])"
| "sl_spawn e s (x # xs) =
     (if \<not> pipe_ok e (fst x) (snd x) then Some (Inl 1)
      else do {
        r \<leftarrow> (if fork_ok e (fst x) (snd x) then map_option Some (sl_child (tasks s ! fst x) (readings e (fst x) (snd x))) else Some None);
        rest \<leftarrow> sl_spawn e s xs;
        Some (case rest of Inl st \<Rightarrow> Inl st | Inr rs \<Rightarrow> Inr (r # rs)) })"

text \<open>The loop that waits: \<^verbatim>\<open>waitpid(-1)\<close> gives another child, which is not -1, or, if there is none left, -1. Then the read waits
  for ever for a report that nobody writes, since the parent has the write side open itself.\<close>

primrec sl_collect :: "slreport option list \<Rightarrow> (int + slreport list) option" where
  "sl_collect [] = Some (Inr [])"
| "sl_collect (r # rs) = (case r of
     Some rep \<Rightarrow> map_option (\<lambda>x. case x of Inl st \<Rightarrow> Inl st | Inr reps \<Rightarrow> Inr (rep # reps)) (sl_collect rs)
   | None \<Rightarrow> if list_ex (\<lambda>r. r \<noteq> None) rs then Some (Inl 1) else None)"

text \<open>A line of the report: the name, the number, the priority, the time in milliseconds and the deadlines missed.\<close>

definition sl_line :: "slmain \<Rightarrow> nat \<times> nat \<Rightarrow> slreport \<Rightarrow> cstr \<times> nat \<times> int \<times> u64 \<times> u64" where
  "sl_line s x rep = (name (tasks s ! fst x), snd x, nice (tasks s ! fst x), time rep div 1000, missd rep)"

text \<open>\<^verbatim>\<open>main\<close>: the status and, if it is 0, the total and the lines.\<close>

definition sl_main ::
  "sl_env \<Rightarrow> (nat \<Rightarrow> u64) \<Rightarrow> (int \<Rightarrow> bool) \<Rightarrow> nat \<Rightarrow> slopt list \<Rightarrow> (int + u64 \<times> (cstr \<times> nat \<times> int \<times> u64 \<times> u64) list) option" where
  "sl_main e clk alloc ac opts = (case sl_parse alloc ac opts of
     None \<Rightarrow> None
   | Some (Inl st) \<Rightarrow> Some (Inl st)
   | Some (Inr s) \<Rightarrow>
       if 0 \<le> cpu_bind s \<and> \<not> affinity_ok e then Some (Inl 1)
       else (case calibrate_loop e clk of
         None \<Rightarrow> None
       | Some (Inl st) \<Rightarrow> Some (Inl st)
       | Some (Inr us) \<Rightarrow> (case sl_spawn e s (sl_all s) of
           None \<Rightarrow> None
         | Some (Inl st) \<Rightarrow> Some (Inl st)
         | Some (Inr rs) \<Rightarrow> (case sl_collect rs of
             None \<Rightarrow> None
           | Some (Inl st) \<Rightarrow> Some (Inl st)
           | Some (Inr reps) \<Rightarrow> (let totcpu = sl_total reps in
               Some (Inr (totcpu div 1000, if totcpu \<noteq> 0 then map2 (sl_line s) (sl_all s) reps else [])))))))"

subsection \<open>Every part ends\<close>

definition cal_clock :: "(nat \<Rightarrow> u64) \<Rightarrow> bool" where
  "cal_clock clk \<longleftrightarrow> (\<forall>c. \<exists>j. \<not> clk (Suc c + j) - clk c < 25000)"

lemma cal_loop_ends: "\<not> clk (c + j) - ts < 25000 \<Longrightarrow> \<exists>t k c'. cal_loop clk ts c lp = Some (t, lp + Suc k * 1024, c') \<and> \<not> t < 25000"
proof (induction j arbitrary: c lp)
  case 0
  then show ?case by (subst cal_loop.simps) (auto simp: Let_def)
next
  case (Suc j)
  show ?case
  proof (cases "clk c - ts < 25000")
    case True
    obtain t k c' where k: "cal_loop clk ts (Suc c) (lp + 1024) = Some (t, lp + 1024 + Suc k * 1024, c')" "\<not> t < 25000"
      using Suc.IH [of "Suc c" "lp + 1024"] Suc.prems by auto
    have "lp + 1024 + Suc k * 1024 = lp + Suc (Suc k) * 1024" by simp
    with k(1) have "cal_loop clk ts (Suc c) (lp + 1024) = Some (t, lp + Suc (Suc k) * 1024, c')" by (simp only:)
    moreover have "cal_loop clk ts c lp = cal_loop clk ts (Suc c) (lp + 1024)" using True by (subst cal_loop.simps) (simp add: Let_def)
    ultimately show ?thesis using k(2) by metis
  next
    case False
    then show ?thesis by (subst cal_loop.simps) (auto simp: Let_def intro!: exI [of _ "0::nat"])
  qed
qed

text \<open>No quotient of the calibration is zero or divides by zero.\<close>

lemma cal_rounds_end:
  "cal_clock clk \<Longrightarrow> \<exists>us. cal_rounds k clk c = Some us \<and> length us = k \<and> (\<forall>(t, lp) \<in> set us. \<not> t < 25000 \<and> 0 < lp \<and> 1024 dvd lp)"
proof (induction k arbitrary: c)
  case (Suc k)
  obtain j where "\<not> clk (Suc c + j) - clk c < 25000" using Suc.prems unfolding cal_clock_def by blast
  from cal_loop_ends [of clk "Suc c" j "clk c" 0, OF this] obtain t m c' where
    t: "cal_loop clk (clk c) (Suc c) 0 = Some (t, Suc m * 1024, c')" "\<not> t < 25000" by auto
  from Suc.IH [OF Suc.prems, of c'] obtain us where "cal_rounds k clk c' = Some us" "length us = k"
    "\<forall>(t, lp) \<in> set us. \<not> t < 25000 \<and> 0 < lp \<and> 1024 dvd lp" by blast
  moreover have "(1024::nat) dvd Suc m * 1024" by (rule dvd_triv_right)
  ultimately show ?case using t by (auto simp del: mult_Suc)
qed simp

text \<open>A jitter that \<^verbatim>\<open>jval\<close> can deal with.\<close>

definition tame :: "sltask \<Rightarrow> bool" where
  "tame t \<longleftrightarrow> unat (jbus t) < 2 ^ 62 \<and> unat (jsus t) < 2 ^ 62 \<and> unat (jwus t) < 2 ^ 62"

lemma jval_returns: "unat j < 2 ^ 62 \<Longrightarrow> \<exists>r. jval v j nxt = Some r"
  by (cases "j = 0") (use jval_ok [of j v nxt] in \<open>auto simp: word_neq_0_conv\<close>, simp add: jval_def)

lemma child_pass_returns: "tame t \<Longrightarrow> \<exists>r. child_pass t ts tn x = Some r"
proof -
  assume "tame t"
  then have j: "\<exists>v nxt'. jval (bus t) (jbus t) nxt = Some (v, nxt')" "\<exists>v nxt'. jval (sus t) (jsus t) nxt = Some (v, nxt')"
    "\<exists>v nxt'. jval (wus t) (jwus t) nxt = Some (v, nxt')" for nxt
    using jval_returns by (auto simp: tame_def)
  obtain rep nxt where x: "x = (rep, nxt)" by fastforce
  obtain rep' nxt' where 1: "(if bus t \<noteq> 0 then do { (b, nxt) \<leftarrow> jval (bus t) (jbus t) nxt; Some (rep\<lparr>time := time rep + b\<rparr>, nxt) }
      else Some (rep, nxt)) = Some (rep', nxt')" using j(1) [of nxt] by (cases "bus t = 0") auto
  obtain sl nxt'' where 2: "(if sus t \<noteq> 0 then do { (u, nxt) \<leftarrow> jval (sus t) (jsus t) nxt'; Some ([ucast u :: u32], nxt) }
      else Some ([], nxt')) = Some (sl, nxt'')" using j(2) [of nxt'] by (cases "sus t = 0") auto
  obtain v r where "jval (wus t) (jwus t) nxt'' = Some (v, r)" using j(3) by blast
  then show ?thesis using 1 2 unfolding child_pass_def x by auto
qed

lemma child_passes_return: "tame t \<Longrightarrow> \<exists>r. child_passes t clk x = Some r"
proof (induction clk arbitrary: x)
  case (Cons p clk)
  obtain ts tn where "p = (ts, tn)" by fastforce
  moreover obtain rep nxt sl where "child_pass t ts tn x = Some (rep, nxt, sl)" using child_pass_returns [OF Cons.prems] by (metis prod_cases3)
  ultimately show ?case using Cons.IH [OF Cons.prems] by simp
qed simp

definition report_of :: "sl_env \<Rightarrow> slmain \<Rightarrow> nat \<times> nat \<Rightarrow> slreport" where
  "report_of e s x = the (sl_child (tasks s ! fst x) (readings e (fst x) (snd x)))"

lemma sl_spawn_all:
  assumes "\<And>x. x \<in> set xs \<Longrightarrow> pipe_ok e (fst x) (snd x) \<and> tame (tasks s ! fst x)"
  shows "sl_spawn e s xs = Some (Inr (map (\<lambda>x. if fork_ok e (fst x) (snd x) then Some (report_of e s x) else None) xs))"
  using assms
proof (induction xs)
  case (Cons x xs)
  obtain r where "child_passes (tasks s ! fst x) (readings e (fst x) (snd x)) (\<lparr>missd = 0, time = 0\<rparr>, 0) = Some r"
    using child_passes_return Cons.prems by fastforce
  then have "sl_child (tasks s ! fst x) (readings e (fst x) (snd x)) = Some (report_of e s x)" by (simp add: report_of_def sl_child_def)
  then show ?case using Cons by simp
qed simp

lemma sl_collect_all: "sl_collect (map Some reps) = Some (Inr reps)"
  by (induction reps) auto

lemma sl_collect_fail:
  "sl_collect (map Some reps @ None # rs) = (if \<exists>r \<in> set rs. r \<noteq> None then Some (Inl 1) else None)"
  by (induction reps) (auto simp: list_ex_iff)

subsection \<open>The program\<close>

text \<open>The calls before the children succeed, the clock goes on, and the jitters are such that \<^verbatim>\<open>jval\<close> does not fault.\<close>

definition sl_runs :: "sl_env \<Rightarrow> (nat \<Rightarrow> u64) \<Rightarrow> slmain \<Rightarrow> bool" where
  "sl_runs e clk s \<longleftrightarrow> (0 \<le> cpu_bind s \<longrightarrow> affinity_ok e) \<and> sched_ok e \<and> cal_clock clk
     \<and> (\<forall>x \<in> set (sl_all s). pipe_ok e (fst x) (snd x) \<and> tame (tasks s ! fst x))"

lemma sl_main_collect:
  assumes "sl_parse alloc ac opts = Some (Inr s)" "sl_runs e clk s"
  shows "sl_main e clk alloc ac opts =
    (case sl_collect (map (\<lambda>x. if fork_ok e (fst x) (snd x) then Some (report_of e s x) else None) (sl_all s)) of
       None \<Rightarrow> None
     | Some (Inl st) \<Rightarrow> Some (Inl st)
     | Some (Inr reps) \<Rightarrow> Some (Inr (sl_total reps div 1000, if sl_total reps \<noteq> 0 then map2 (sl_line s) (sl_all s) reps else [])))"
proof -
  obtain us where us: "cal_rounds (if rr_ok e then 2 else 8) clk 0 = Some us" using cal_rounds_end assms(2) unfolding sl_runs_def by blast
  have c: "calibrate_loop e clk = Some (Inr us)" using us assms(2) by (simp add: calibrate_loop_def sl_runs_def)
  have "sl_spawn e s (sl_all s) = Some (Inr (map (\<lambda>x. if fork_ok e (fst x) (snd x) then Some (report_of e s x) else None) (sl_all s)))"
    by (rule sl_spawn_all) (use assms(2) in \<open>simp add: sl_runs_def\<close>)
  then show ?thesis using assms c by (auto simp: sl_main_def sl_runs_def Let_def split: option.split sum.split)
qed

lemma sl_total_sum: "sl_total reps = sum_list (map time reps)"
proof -
  have "foldl (\<lambda>tot rep. tot + time rep) a reps = a + sum_list (map time reps)" for a by (induction reps arbitrary: a) simp_all
  then show ?thesis by (simp add: sl_total_def)
qed

lemma map2_map_self: "map2 f xs (map g xs) = map (\<lambda>x. f x (g x)) xs"
  by (induction xs) simp_all

text \<open>If all children can be made, the program ends with 0 and reports for every task, in their order, one line for each of its children
  with what that child has counted, and the sum of the times.\<close>

theorem sload_main_reports:
  assumes "sl_parse alloc ac opts = Some (Inr s)" "sl_runs e clk s" "\<forall>x \<in> set (sl_all s). fork_ok e (fst x) (snd x)"
  shows "let T = sum_list (map (time \<circ> report_of e s) (sl_all s)) in
     sl_main e clk alloc ac opts = Some (Inr (T div 1000, if T \<noteq> 0 then map (\<lambda>x. sl_line s x (report_of e s x)) (sl_all s) else []))"
proof -
  have f: "map (\<lambda>x. if fork_ok e (fst x) (snd x) then Some (report_of e s x) else None) (sl_all s) = map Some (map (report_of e s) (sl_all s))"
    using assms(3) by simp
  show ?thesis unfolding sl_main_collect [OF assms(1,2)] f sl_collect_all by (simp add: sl_total_sum map2_map_self Let_def)
qed

text \<open>If a fork fails the program returns 1, provided that a later one has succeeded; if all forks from the first failure on fail, it never
  returns.\<close>

theorem sload_fork_fails:
  assumes "sl_parse alloc ac opts = Some (Inr s)" "sl_runs e clk s"
    and "sl_all s = xs @ y # ys" "\<forall>x \<in> set xs. fork_ok e (fst x) (snd x)" "\<not> fork_ok e (fst y) (snd y)"
  shows "sl_main e clk alloc ac opts = (if \<exists>x \<in> set ys. fork_ok e (fst x) (snd x) then Some (Inl 1) else None)"
proof -
  let ?f = "\<lambda>x. if fork_ok e (fst x) (snd x) then Some (report_of e s x) else None"
  have "map ?f (sl_all s) = map Some (map (report_of e s) xs) @ None # map ?f ys" using assms(3-5) by simp
  then show ?thesis unfolding sl_main_collect [OF assms(1,2)] by (simp only: sl_collect_fail) auto
qed

end
