(* ===== verification/SpinMain.thy ===== *)
theory SpinMain
  imports SpinLocks CStr
begin

text \<open>
  The rest of \<^verbatim>\<open>qspins.c\<close>: the arguments, the limit on the number of threads, the locks made before the threads start, and the samples a
  thread takes. The number of processors and the answers of the kernel are parameters; the average and the deviation, in floating point, are those of
  the samples in the middle, which is as far as the model goes.
\<close>

definition MAX_CPUS :: nat where "MAX_CPUS = 128"
definition NAVG :: nat where "NAVG = 16"
definition MAX_SAMPLES :: nat where "MAX_SAMPLES = 32"

datatype sched_pol = SCHED_FIFO | SCHED_OTHER | SCHED_RR

record qs_opts =
  num_threads :: int
  sched_prio :: int
  sched_policy :: sched_pol
  use_spin :: bool

definition qs_defaults :: qs_opts where
  "qs_defaults = \<lparr>num_threads = 1, sched_prio = 90, sched_policy = SCHED_FIFO, use_spin = False\<rparr>"

fun qs_args :: "cstr list \<Rightarrow> qs_opts \<Rightarrow> qs_opts" where
  "qs_args [] opt = opt"
| "qs_args (a # as) opt = (
     if a = bytes ''-n'' then (case as of [] \<Rightarrow> opt | v # as \<Rightarrow> qs_args as (opt\<lparr>num_threads := atoi v\<rparr>))
     else if a = bytes ''-p'' then (case as of [] \<Rightarrow> opt | v # as \<Rightarrow> qs_args as (opt\<lparr>sched_prio := atoi v\<rparr>))
     else if a = bytes ''-s'' then qs_args as (opt\<lparr>use_spin := True\<rparr>)
     else if a = bytes ''-F'' then qs_args as (opt\<lparr>sched_policy := SCHED_FIFO\<rparr>)
     else if a = bytes ''-O'' then qs_args as (opt\<lparr>sched_policy := SCHED_OTHER\<rparr>)
     else if a = bytes ''-R'' then qs_args as (opt\<lparr>sched_policy := SCHED_RR\<rparr>)
     else qs_args as opt)"

definition qs_limit :: "int \<Rightarrow> qs_opts \<Rightarrow> qs_opts" where
  "qs_limit ncpus opt = (if num_threads opt > ncpus then opt\<lparr>num_threads := ncpus\<rparr> else opt)"

text \<open>The loop that makes the locks writes to an array of \<open>MAX_CPUS\<close> entries.\<close>

definition init_locks :: "'l \<Rightarrow> int \<Rightarrow> 'l list \<Rightarrow> 'l list option" where
  "init_locks l n ls = foldM (\<lambda>i ls. if nat i < length ls then Some (ls[nat i := l]) else None) [0..n - 1] ls"

text \<open>\<open>create i\<close> is what \<^verbatim>\<open>pthread_create\<close> returns for thread \<open>i\<close>: 0 or, when it fails, a positive error number. The test for -1 does not see
  the latter, and the join of a thread that does not exist is a fault.\<close>

record qs_env =
  ncpus :: int
  memory_ok :: bool
  sched_ok :: "int \<Rightarrow> bool"
  create :: "int \<Rightarrow> int"

fun qs_create :: "qs_env \<Rightarrow> int list \<Rightarrow> (int + unit) option" where
  "qs_create e [] = Some (Inr ())"
| "qs_create e (i # is) = (if create e i = -1 then Some (Inl 1)
     else case qs_create e is of Some (Inr u) \<Rightarrow> if create e i = 0 then (if sched_ok e i then Some (Inr ()) else Some (Inl 1)) else None | r \<Rightarrow> r)"

text \<open>\<^verbatim>\<open>main\<close> up to the start of the threads: an exit status, or the options and both arrays of locks.\<close>

definition qs_start :: "qs_env \<Rightarrow> tspinlock_t list \<Rightarrow> spinlock_t list \<Rightarrow> cstr list \<Rightarrow> (int + qs_opts \<times> tspinlock_t list \<times> spinlock_t list) option" where
  "qs_start e ts ss args = (
     let opt = qs_limit (ncpus e) (qs_args args qs_defaults); n = num_threads opt in
     if \<not> memory_ok e then None
     else do {
       ts \<leftarrow> init_locks tspin_lock_init n ts;
       ss \<leftarrow> init_locks spin_lock_init n ss;
       if \<not> sched_ok e 0 then Some (Inl 1)
       else do {
         r \<leftarrow> qs_create e [0..n - 1];
         Some (case r of Inl st \<Rightarrow> Inl st | Inr _ \<Rightarrow> Inr (opt, ts, ss)) } })"

text \<open>The samples of a thread are differences of the cycle counter, \<open>tsc\<close>, around each of the \<open>MAX_SAMPLES\<close> rounds; the ones averaged are in the
  middle of them in the order of \<^verbatim>\<open>cmp_ull\<close>.\<close>

definition qs_samples :: "(nat \<Rightarrow> u64) \<Rightarrow> u64 list" where
  "qs_samples tsc = map (\<lambda>j. tsc (2 * j + 1) - tsc (2 * j)) [0..<MAX_SAMPLES]"

definition cmp_ull :: "u64 \<Rightarrow> u64 \<Rightarrow> int" where
  "cmp_ull d1 d2 = (if d1 > d2 then 1 else if d1 < d2 then -1 else 0)"

definition qs_middle :: "u64 list \<Rightarrow> u64 list" where
  "qs_middle samples = map (\<lambda>j. sort samples ! (j + MAX_SAMPLES div 2 - NAVG div 2)) [0..<NAVG]"

subsection \<open>The start\<close>

lemma init_locks_prefix:
  "n \<le> length ls \<Longrightarrow> foldM (\<lambda>i ls. if nat i < length ls then Some (ls[nat i := l]) else None) (map int [0..<n]) ls = Some (replicate n l @ drop n ls)"
proof (induction n)
  case (Suc n)
  then have "(replicate n l @ drop n ls)[n := l] = replicate (Suc n) l @ drop (Suc n) ls"
    by (simp add: list_update_append Cons_nth_drop_Suc [symmetric] replicate_append_same flip: replicate_Suc)
  then show ?case using Suc by simp
qed simp

lemma upto_int: "[0..n - 1] = map int [0..<nat n]"
proof -
  have "[0..int m - 1] = map int [0..<m]" for m by (induction m) (simp_all add: upto_rec2)
  then show ?thesis by (cases "0 \<le> n") (metis int_nat_eq, simp)
qed

lemma init_locks_all: "nat n \<le> length ls \<Longrightarrow> init_locks l n ls = Some (replicate (nat n) l @ drop (nat n) ls)"
  by (simp add: init_locks_def upto_int init_locks_prefix)

lemma init_locks_overrun: "length ls < nat n \<Longrightarrow> init_locks l n ls = None"
proof -
  assume "length ls < nat n"
  then obtain m where m: "nat n = length ls + Suc m" using less_iff_Suc_add by auto
  have "map int [0..<nat n] = map int [0..<length ls] @ int (length ls) # map int [Suc (length ls)..<nat n]"
    unfolding m using upt_add_eq_append [of 0 "length ls" "Suc m"] upt_conv_Cons [of "length ls" "length ls + Suc m"] by simp
  then show ?thesis using init_locks_prefix [of "length ls" ls l] by (simp add: init_locks_def upto_int)
qed

lemma qs_limit_threads: "num_threads (qs_limit c opt) = min c (num_threads opt)"
  by (simp add: qs_limit_def)

text \<open>When memory, scheduler and threads are granted, the benchmark starts with as many threads as asked for, but not more than there are
  processors, and with a free lock for each of them, provided that these are not more than 128; with more it writes behind the arrays.
  The hypotheses of the theorems on the locks hold then.\<close>

lemma qs_create_all: "\<forall>i. create e i = 0 \<and> sched_ok e i \<Longrightarrow> qs_create e is = Some (Inr ())"
  by (induction "is") auto

theorem qspins_starts:
  assumes "length ts = MAX_CPUS" "length ss = MAX_CPUS" "memory_ok e" "\<forall>i. create e i = 0 \<and> sched_ok e i"
    and "opt = qs_limit (ncpus e) (qs_args args qs_defaults)" "n = nat (num_threads opt)"
  shows "qs_start e ts ss args = (if MAX_CPUS < n then None
      else Some (Inr (opt, replicate n tspin_lock_init @ drop n ts, replicate n spin_lock_init @ drop n ss)))
    \<and> num_threads opt \<le> ncpus e"
proof (cases "MAX_CPUS < n")
  case True
  then show ?thesis using assms(1-3) unfolding qs_start_def Let_def assms(5) [symmetric]
    by (simp add: init_locks_overrun assms(6) [symmetric]) (simp add: assms(5) qs_limit_threads)
next
  case False
  then show ?thesis using assms(1-3) qs_create_all [OF assms(4)] assms(4) unfolding qs_start_def Let_def assms(5) [symmetric]
    by (simp add: init_locks_all assms(6) [symmetric]) (simp add: assms(5) qs_limit_threads)
qed

text \<open>A failed thread creation is not noticed.\<close>

theorem qspins_create_unseen:
  assumes "num_threads (qs_limit (ncpus e) (qs_args args qs_defaults)) = 1" "length ts = MAX_CPUS" "length ss = MAX_CPUS"
    "memory_ok e" "sched_ok e 0" "0 < create e 0"
  shows "qs_start e ts ss args = None"
  using assms by (simp add: qs_start_def Let_def init_locks_all MAX_CPUS_def)

subsection \<open>The samples\<close>

text \<open>The order of \<^verbatim>\<open>cmp_ull\<close> is the one that \<open>sort\<close> uses, and of the samples averaged none is among the eight smallest or the eight greatest:
  at least eight samples are not greater and at least eight not smaller.\<close>

lemma cmp_ull_order: "cmp_ull d1 d2 \<le> 0 \<longleftrightarrow> d1 \<le> d2"
  by (auto simp: cmp_ull_def)

lemma sorted_rank:
  assumes "sorted xs" "i < length xs"
  shows "i < length (filter (\<lambda>x. x \<le> xs ! i) xs)" "length xs - i \<le> length (filter (\<lambda>x. xs ! i \<le> x) xs)"
proof -
  have split: "length (filter P xs) = length (filter P (take k xs)) + length (filter P (drop k xs))" for P k
    by (metis append_take_drop_id filter_append length_append)
  have "filter (\<lambda>x. x \<le> xs ! i) (take (Suc i) xs) = take (Suc i) xs"
    using assms by (auto simp: filter_id_conv in_set_conv_nth sorted_iff_nth_mono)
  then show "i < length (filter (\<lambda>x. x \<le> xs ! i) xs)" using assms(2) by (simp add: split [of _ "Suc i"])
  have "filter (\<lambda>x. xs ! i \<le> x) (drop i xs) = drop i xs"
    using assms by (auto simp: filter_id_conv in_set_conv_nth sorted_iff_nth_mono)
  then show "length xs - i \<le> length (filter (\<lambda>x. xs ! i \<le> x) xs)" by (simp add: split [of _ i])
qed

theorem qspins_middle:
  assumes "x \<in> set (qs_middle (qs_samples tsc))"
  shows "x \<in> set (qs_samples tsc) \<and> 8 < length (filter (\<lambda>y. y \<le> x) (qs_samples tsc)) \<and> 8 < length (filter (\<lambda>y. x \<le> y) (qs_samples tsc))"
proof -
  let ?s = "sort (qs_samples tsc)"
  have l: "length ?s = 32" by (simp add: qs_samples_def MAX_SAMPLES_def)
  obtain j where j: "j < 16" "x = ?s ! (8 + j)" using assms by (auto simp: qs_middle_def MAX_SAMPLES_def NAVG_def)
  have f: "length (filter P (sort xs)) = length (filter P xs)" for P and xs :: "u64 list"
    by (simp add: filter_sort)
  have "8 + j < length (filter (\<lambda>y. y \<le> x) ?s)" "32 - (8 + j) \<le> length (filter (\<lambda>y. x \<le> y) ?s)"
    using sorted_rank [of ?s "8 + j"] l j by simp_all
  moreover have "x \<in> set ?s" unfolding j(2) by (rule nth_mem) (use l j(1) in simp)
  ultimately show ?thesis using j(1) by (simp add: f)
qed

end
