(* ===== verification/SigMain.thy ===== *)
theory SigMain
  imports SigTest
begin

text \<open>
  The first tests of \<^verbatim>\<open>main\<close> in \<^verbatim>\<open>signalfd-test.c\<close>, up to the threads: signals that children and parent send each other are read from
  descriptors. What a process does is a list of operations, the code of a forked child is part of that of its parent, and the steps
  of the processes interleave. A read takes a signal that is pending for the process that reads and is not left out of the mask of the
  descriptor; with \<open>lowest\<close> the kernel hands out the one with the smallest number first, without it any one. A wait of a
  second gives up only when no other process can do anything, a sleep may end at any time.
\<close>

definition SIGUSR1 :: int where "SIGUSR1 = 10"
definition SIGCHLD :: int where "SIGCHLD = 17"

datatype sop = OFork "sop list" | OKillParent int | OKillChild int | OKillGroup int | OWait nat bool | OMask nat "int list" | OSleep | OExit

text \<open>A process: what it has still to do, the signals pending for it, and what its calls of \<^verbatim>\<open>waitsig\<close> have returned. Process 0 is the
  parent of all others. The masks are given by the signals left out.\<close>

record sproc =
  code :: "sop list"
  pend :: "int list"
  got :: "int list"

record ssys =
  procs :: "sproc list"
  excl :: "int list list"

definition send_sig :: "int \<Rightarrow> sproc \<Rightarrow> sproc" where
  "send_sig x p = p\<lparr>pend := (if x \<in> set (pend p) then pend p else insort x (pend p))\<rparr>"

definition upd_proc :: "nat \<Rightarrow> (sproc \<Rightarrow> sproc) \<Rightarrow> ssys \<Rightarrow> ssys" where
  "upd_proc i f s = s\<lparr>procs := (procs s)[i := f (procs s ! i)]\<rparr>"

definition readable :: "ssys \<Rightarrow> nat \<Rightarrow> sproc \<Rightarrow> int list" where
  "readable s fd p = filter (\<lambda>x. x \<notin> set (excl s ! fd)) (pend p)"

text \<open>What \<^verbatim>\<open>waitsig\<close> returns when it has read a signal, and when there is none.\<close>

definition took :: "int \<Rightarrow> sproc \<Rightarrow> sproc" where
  "took x p = p\<lparr>pend := remove1 x (pend p), got := got p @ [waitsig 1 True 128 x]\<rparr>"

definition none_came :: "sproc \<Rightarrow> sproc" where
  "none_came p = p\<lparr>got := got p @ [waitsig 0 False 0 0]\<rparr>"

definition blocked :: "ssys \<Rightarrow> sproc \<Rightarrow> bool" where
  "blocked s p = (case code p of [] \<Rightarrow> True | OWait fd True # _ \<Rightarrow> readable s fd p = [] | _ \<Rightarrow> False)"

fun op_succs :: "bool \<Rightarrow> nat \<Rightarrow> sop \<Rightarrow> ssys \<Rightarrow> ssys list" where
  "op_succs lowest i (OFork b) s = [s\<lparr>procs := procs s @ [\<lparr>code = b, pend = [], got = []\<rparr>]\<rparr>]"
| "op_succs lowest i (OKillParent x) s = [upd_proc 0 (send_sig x) s]"
| "op_succs lowest i (OKillChild x) s = [upd_proc (length (procs s) - 1) (send_sig x) s]"
| "op_succs lowest i (OKillGroup x) s = [s\<lparr>procs := map (send_sig x) (procs s)\<rparr>]"
| "op_succs lowest i (OWait fd timed) s =
     (case readable s fd (procs s ! i) of
        [] \<Rightarrow> if timed \<and> (\<exists>j \<in> set [0..<length (procs s)]. j \<noteq> i \<and> \<not> blocked s (procs s ! j)) then [] else [upd_proc i none_came s]
      | x # xs \<Rightarrow> map (\<lambda>x. upd_proc i (took x) s) (if lowest then [x] else x # xs))"
| "op_succs lowest i (OMask fd xs) s = [s\<lparr>excl := (excl s)[fd := xs]\<rparr>]"
| "op_succs lowest i OSleep s = [s]"
| "op_succs lowest i OExit s = [upd_proc 0 (send_sig SIGCHLD) s]"

definition proc_succs :: "bool \<Rightarrow> nat \<Rightarrow> ssys \<Rightarrow> ssys list" where
  "proc_succs lowest i s = (case code (procs s ! i) of [] \<Rightarrow> []
     | op # rest \<Rightarrow> op_succs lowest i op (upd_proc i (\<lambda>p. p\<lparr>code := rest\<rparr>) s))"

definition succs :: "bool \<Rightarrow> ssys \<Rightarrow> ssys list" where
  "succs lowest s = concat (map (\<lambda>i. proc_succs lowest i s) [0..<length (procs s)])"

definition script_step :: "bool \<Rightarrow> ssys \<Rightarrow> ssys \<Rightarrow> bool" where
  "script_step lowest s s' \<longleftrightarrow> s' \<in> set (succs lowest s)"

text \<open>The tests: a child that exits; a child that sends a signal and exits; a child that waits for a signal of its parent; a descriptor
  whose mask leaves the signal out; two descriptors and one signal.\<close>

definition main_script :: "sop list" where
  "main_script =
     [OFork [OExit], OWait 0 True,
      OFork [OKillParent SIGUSR1, OExit], OWait 0 True, OWait 0 True,
      OFork [OWait 0 True, OExit], OKillChild SIGUSR1, OSleep, OWait 0 True,
      OMask 0 [SIGUSR1], OKillGroup SIGUSR1, OWait 0 False,
      OMask 0 [], OMask 1 [], OKillGroup SIGUSR1, OWait 0 False, OWait 1 False]"

definition main_start :: ssys where
  "main_start = \<lparr>procs = [\<lparr>code = main_script, pend = [], got = []\<rparr>], excl = [[2], []]\<rparr>"

subsection \<open>All interleavings\<close>

definition states :: "bool \<Rightarrow> ssys list" where
  "states lowest = explore (succs lowest) 500 [] [main_start]"

fun op_weight :: "sop \<Rightarrow> nat" where
  "op_weight (OFork b) = Suc (sum_list (map op_weight b))"
| "op_weight _ = 1"

definition sys_weight :: "ssys \<Rightarrow> nat" where
  "sys_weight s = sum_list (map (\<lambda>p. sum_list (map op_weight (code p))) (procs s))"

text \<open>All processes are done, nothing is pending for the parent, and the waits of the parent and of the third child have returned this.\<close>

definition script_done :: "bool \<Rightarrow> ssys \<Rightarrow> bool" where
  "script_done lowest s \<longleftrightarrow> list_all (\<lambda>p. code p = []) (procs s) \<and> pend (procs s ! 0) = []
     \<and> (got (procs s ! 0) = [SIGCHLD, SIGUSR1, SIGCHLD, SIGCHLD, -1, SIGUSR1, -1]
        \<or> \<not> lowest \<and> got (procs s ! 0) = [SIGCHLD, SIGCHLD, SIGUSR1, SIGCHLD, -1, SIGUSR1, -1])
     \<and> map got (tl (procs s)) = [[], [], [SIGUSR1]]"

lemma states_sound: "sound_list (succs True) sys_weight (script_done True) (states True)"
  "sound_list (succs False) sys_weight (script_done False) (states False)"
  by code_simp+

lemma start_in_states: "main_start \<in> set (states True)" "main_start \<in> set (states False)"
  by code_simp+

lemma in_states: "sound_list (succs lowest) sys_weight (script_done lowest) (states lowest)" "main_start \<in> set (states lowest)"
  using states_sound start_in_states by (cases lowest; simp)+

interpretation script: ending_system "script_step lowest" "\<lambda>s. s \<in> set (states lowest)" sys_weight "script_done lowest" for lowest
  unfolding script_step_def by (rule sound_list_ends [OF in_states(1)])

subsection \<open>Properties\<close>

lemma main_weight: "sys_weight main_start = 22"
  by code_simp



end
