(* ===== verification/SigEpoll.thy ===== *)
theory SigEpoll
  imports SigMain
begin

text \<open>
  The last tests of \<^verbatim>\<open>main\<close> in \<^verbatim>\<open>signalfd-test.c\<close>: signals read through \<^verbatim>\<open>epoll\<close> by processes that are forked from each other, and the
  stress test. As in the first tests a process is a list of operations and the processes interleave; a wait of a quarter of a second gives
  up only when no other process can do anything, a sleep may end at any time. The signals a wait reads are taken one by one: that
  the calls it makes for several descriptors read each pending signal once is shown of the loop itself.
\<close>

definition SIGNALFDS_X_EPOLLFD :: nat where "SIGNALFDS_X_EPOLLFD = 10"

datatype eop = ECreate | EFork "eop list" | EKillGroup int | EWaitSigs | EWaitChild | EDelAll | ESleep | EExit

text \<open>A process has code, pending signals, the signals it has read, its \<^verbatim>\<open>epoll\<close> descriptor, its parent and the child forked last. The
  sets of descriptors behind \<^verbatim>\<open>epoll\<close> descriptors are shared by processes that inherit them.\<close>

record eproc =
  ecode :: "eop list"
  epend :: "int list"
  egot :: "int list"
  epfd :: nat
  eparent :: nat
  echild :: nat

record esys =
  eprocs :: "eproc list"
  esets :: "nat list"

definition run_in_child :: "eop list \<Rightarrow> eop list \<Rightarrow> eop list" where
  "run_in_child cproc pproc = [EFork (cproc @ [EExit])] @ pproc @ [EWaitChild]"

definition epoll_test_1 :: "eop list" where
  "epoll_test_1 = [ECreate, EKillGroup SIGUSR1, EWaitSigs]"

definition epoll_parent_proc_2 :: "eop list" where "epoll_parent_proc_2 = [ESleep, EKillGroup SIGUSR1]"
definition epoll_child_proc_2 :: "eop list" where "epoll_child_proc_2 = [EWaitSigs]"

definition epoll_test_2 :: "eop list" where
  "epoll_test_2 = [ECreate] @ run_in_child epoll_child_proc_2 epoll_parent_proc_2 @ [EWaitSigs]"

definition epoll_child_proc_3 :: "eop list" where "epoll_child_proc_3 = [ESleep, EKillGroup SIGUSR1, EWaitSigs]"

definition epoll_test_3 :: "eop list" where
  "epoll_test_3 = [ECreate] @ run_in_child epoll_child_proc_3 [] @ [EWaitSigs]"

definition epoll_child_proc_4 :: "eop list" where "epoll_child_proc_4 = [ESleep, EWaitSigs, EDelAll]"
definition epoll_parent_proc_4 :: "eop list" where "epoll_parent_proc_4 = [EKillGroup SIGUSR1, EExit]"

definition epoll_test_4 :: "eop list" where
  "epoll_test_4 = [ECreate] @ run_in_child epoll_child_proc_4 epoll_parent_proc_4"

text \<open>What \<^verbatim>\<open>main\<close> does for each of the four tests, one after the other, and what its processes are to read, in the order of their
  creation. Each test starts with processes and descriptors of its own.\<close>

definition epoll_tests :: "(eop list \<times> int list list) list" where
  "epoll_tests =
     [(run_in_child epoll_test_1 [], [[], [SIGUSR1]]),
      (run_in_child epoll_test_2 [], [[], [SIGUSR1, SIGCHLD], [SIGUSR1]]),
      (run_in_child epoll_test_3 [], [[], [SIGUSR1, SIGCHLD], [SIGUSR1]]),
      (run_in_child epoll_test_4 [] @ [ESleep], [[], [], [SIGUSR1]])]"

definition epoll_start :: "eop list \<Rightarrow> esys" where
  "epoll_start prog = \<lparr>eprocs = [\<lparr>ecode = prog, epend = [], egot = [], epfd = 0, eparent = 0, echild = 0\<rparr>], esets = []\<rparr>"

subsection \<open>Steps\<close>

definition esend :: "int \<Rightarrow> eproc \<Rightarrow> eproc" where
  "esend x p = p\<lparr>epend := (if x \<in> set (epend p) then epend p else insort x (epend p))\<rparr>"

definition upd_eproc :: "nat \<Rightarrow> (eproc \<Rightarrow> eproc) \<Rightarrow> esys \<Rightarrow> esys" where
  "upd_eproc i f s = s\<lparr>eprocs := (eprocs s)[i := f (eprocs s ! i)]\<rparr>"

text \<open>The signals a process finds through its \<^verbatim>\<open>epoll\<close> descriptor: all masks leave out only \<^verbatim>\<open>SIGINT\<close>.\<close>

definition efound :: "esys \<Rightarrow> eproc \<Rightarrow> int list" where
  "efound s p = (if esets s ! epfd p = 0 then [] else epend p)"

definition eblocked :: "esys \<Rightarrow> eproc \<Rightarrow> bool" where
  "eblocked s p = (case ecode p of [] \<Rightarrow> True | EWaitSigs # _ \<Rightarrow> efound s p = []
     | EWaitChild # _ \<Rightarrow> ecode (eprocs s ! echild p) \<noteq> [] | _ \<Rightarrow> False)"

text \<open>The states after a step of process \<open>i\<close>, whose code is \<open>op\<close> and then \<open>rest\<close>; \<open>s1\<close> is the state in which the operation is done.\<close>

definition eop_succs :: "bool \<Rightarrow> nat \<Rightarrow> eop \<Rightarrow> eop list \<Rightarrow> esys \<Rightarrow> esys list" where
  "eop_succs lowest i op rest s = (
     let p = eprocs s ! i; s1 = upd_eproc i (\<lambda>p. p\<lparr>ecode := rest\<rparr>) s in
     case op of
       ECreate \<Rightarrow> [upd_eproc i (\<lambda>p. p\<lparr>epfd := length (esets s)\<rparr>) (s1\<lparr>esets := esets s @ [SIGNALFDS_X_EPOLLFD]\<rparr>)]
     | EFork b \<Rightarrow> (let s2 = upd_eproc i (\<lambda>p. p\<lparr>echild := length (eprocs s)\<rparr>) s1 in
         [s2\<lparr>eprocs := eprocs s2 @ [\<lparr>ecode = b, epend = [], egot = [], epfd = epfd p, eparent = i, echild = 0\<rparr>]\<rparr>])
     | EKillGroup x \<Rightarrow> [s1\<lparr>eprocs := map (esend x) (eprocs s1)\<rparr>]
     | EWaitSigs \<Rightarrow> (case efound s p of
           [] \<Rightarrow> if \<exists>j \<in> set [0..<length (eprocs s)]. j \<noteq> i \<and> \<not> eblocked s (eprocs s ! j) then [] else [s1]
         | x # xs \<Rightarrow> map (\<lambda>x. upd_eproc i (\<lambda>p. p\<lparr>epend := remove1 x (epend p), egot := egot p @ [x]\<rparr>) s) (if lowest then [x] else x # xs))
     | EWaitChild \<Rightarrow> if ecode (eprocs s ! echild p) = [] then [s1] else []
     | EDelAll \<Rightarrow> [s1\<lparr>esets := (esets s)[epfd p := 0]\<rparr>]
     | ESleep \<Rightarrow> [s1]
     | EExit \<Rightarrow> [upd_eproc (eparent p) (esend SIGCHLD) (upd_eproc i (\<lambda>p. p\<lparr>ecode := []\<rparr>) s)])"

definition esuccs :: "bool \<Rightarrow> esys \<Rightarrow> esys list" where
  "esuccs lowest s = concat (map (\<lambda>i. case ecode (eprocs s ! i) of [] \<Rightarrow> [] | op # rest \<Rightarrow> eop_succs lowest i op rest s) [0..<length (eprocs s)])"

definition epoll_step :: "bool \<Rightarrow> esys \<Rightarrow> esys \<Rightarrow> bool" where
  "epoll_step lowest s s' \<longleftrightarrow> s' \<in> set (esuccs lowest s)"

subsection \<open>All interleavings\<close>

definition estates :: "bool \<Rightarrow> eop list \<Rightarrow> esys list" where
  "estates lowest prog = explore (esuccs lowest) 200 [] [epoll_start prog]"

fun eop_weight :: "eop \<Rightarrow> nat" where
  "eop_weight (EFork b) = Suc (sum_list (map eop_weight b))"
| "eop_weight (EKillGroup x) = 9"
| "eop_weight EExit = 2"
| "eop_weight _ = 1"

definition esys_weight :: "esys \<Rightarrow> nat" where
  "esys_weight s = sum_list (map (\<lambda>p. sum_list (map eop_weight (ecode p)) + length (epend p)) (eprocs s))"

text \<open>All processes are done and have read what they are to read, in this order if the kernel hands out the smallest signal first.\<close>

definition epoll_done :: "bool \<Rightarrow> int list list \<Rightarrow> esys \<Rightarrow> bool" where
  "epoll_done lowest want s \<longleftrightarrow> list_all (\<lambda>p. ecode p = []) (eprocs s)
     \<and> map (\<lambda>p. if lowest then egot p else sort (egot p)) (eprocs s) = want"

definition test_ok :: "bool \<Rightarrow> eop list \<times> int list list \<Rightarrow> bool" where
  "test_ok lowest t = (let S = estates lowest (fst t) in epoll_start (fst t) \<in> set S
     \<and> sound_list (esuccs lowest) esys_weight (epoll_done lowest (snd t)) S \<and> esys_weight (epoll_start (fst t)) \<le> 24)"

lemma tests_ok: "list_all (test_ok True) epoll_tests" "list_all (test_ok False) epoll_tests"
  by code_simp+

lemma in_tests: "t \<in> set epoll_tests \<Longrightarrow> test_ok lowest t"
  using tests_ok by (cases lowest) (auto simp: list_all_iff)

text \<open>A system per test, on the states that the test can reach.\<close>

lemma etests:
  assumes "t \<in> set epoll_tests"
  shows "ending_system (epoll_step lowest) (\<lambda>s. s \<in> set (estates lowest (fst t))) esys_weight (epoll_done lowest (snd t))"
  unfolding epoll_step_def using in_tests [OF assms, of lowest] by (intro sound_list_ends) (simp add: test_ok_def Let_def)

text \<open>In every interleaving each of the four tests ends, none waits for a child that does not exit, and what their processes read is determined: each
  process that waits gets the signal once, and a parent that waits after its child also gets the news of its end, in an order that is up to
  the kernel.\<close>

lemma epoll_tests_report:
  assumes "t \<in> set epoll_tests" "(epoll_step lowest ^^ k) (epoll_start (fst t)) s"
  shows "k \<le> 24 \<and> (\<exists>s'. (epoll_step lowest)\<^sup>*\<^sup>* s s' \<and> epoll_done lowest (snd t) s')
    \<and> ((\<nexists>s'. epoll_step lowest s s') \<longrightarrow> epoll_done lowest (snd t) s)"
proof -
  note sys = etests [OF assms(1), of lowest]
  have i: "epoll_start (fst t) \<in> set (estates lowest (fst t))" "esys_weight (epoll_start (fst t)) \<le> 24"
    using in_tests [OF assms(1), of lowest] by (simp_all add: test_ok_def Let_def)
  have "k \<le> 24" using ending_system.run_bound [OF sys assms(2) i(1)] i(2) by simp
  moreover have "epoll_done lowest (snd t) s" if "\<nexists>s'. epoll_step lowest s s'"
    by (rule ending_system.stuck_ended [OF sys relpowp_imp_rtranclp [OF assms(2)] i(1) that])
  moreover have "s \<in> set (estates lowest (fst t))"
    using step_system.run_inv [OF ending_system.axioms(1) [OF sys] assms(2) i(1)] .
  ultimately show ?thesis using ending_system.completes [OF sys] by blast
qed

text \<open>The child of the fourth test outlives its parent and takes all descriptors out of the set it inherited.\<close>

lemma epoll_test_4_empties:
  "list_all (\<lambda>s. esuccs lowest s = [] \<longrightarrow> esets s = [0]) (estates lowest (fst (epoll_tests ! 3)))"
  by (cases lowest) (simp_all, code_simp+)

subsection \<open>The stress test\<close>

definition SIGNALFD_CREATE_COUNT :: nat where "SIGNALFD_CREATE_COUNT = 1000000"
definition FORK_PROC_COUNT :: nat where "FORK_PROC_COUNT = 5000"

text \<open>The child: \<open>efd\<close>, \<open>sfd\<close> and \<open>add\<close> answer its calls, \<open>ready\<close> is what \<^verbatim>\<open>epoll_wait\<close> reports. \<open>Inl\<close> is the exit status of a wrapper,
  otherwise what is read, \<open>None\<close> if the loop does not end.\<close>

definition stress_child_proc :: "int \<Rightarrow> (nat \<Rightarrow> int) \<Rightarrow> (nat \<Rightarrow> int) \<Rightarrow> (nat \<Rightarrow> int list) \<Rightarrow> int + sigread list option" where
  "stress_child_proc efd sfd add ready = (case xcreate_epoll_signalfds efd sfd add SIGNALFDS_X_EPOLLFD of Inl e \<Rightarrow> Inl e
     | Inr _ \<Rightarrow> Inr (map_option (\<lambda>(c, out, pend). out) (xepoll_wait_sigs ready [SIGUSR1])))"

text \<open>The two threads. \<open>sfd i\<close> answers the \<open>i\<close>-th \<^verbatim>\<open>signalfd\<close>, \<open>opn\<close> are the descriptors open; \<open>pid i\<close> and \<open>w i\<close> answer the \<open>i\<close>-th \<^verbatim>\<open>fork\<close> and
  \<^verbatim>\<open>waitpid\<close>.\<close>

fun signalfd_create_thproc :: "(nat \<Rightarrow> int) \<Rightarrow> nat \<Rightarrow> nat \<Rightarrow> int list \<Rightarrow> int + int list" where
  "signalfd_create_thproc sfd i 0 opn = Inr opn"
| "signalfd_create_thproc sfd i (Suc n) opn = (case xsignalfd (sfd i) of Inl e \<Rightarrow> Inl e
     | Inr fd \<Rightarrow> signalfd_create_thproc sfd (Suc i) n (remove1 fd (fd # opn)))"

fun forker_thproc :: "(nat \<Rightarrow> int) \<Rightarrow> (nat \<Rightarrow> int) \<Rightarrow> nat \<Rightarrow> nat \<Rightarrow> int + nat" where
  "forker_thproc pid w i 0 = Inr i"
| "forker_thproc pid w i (Suc n) = (case run_proc_in_child (pid i) None (w i) of Inl e \<Rightarrow> Inl e
     | Inr _ \<Rightarrow> forker_thproc pid w (Suc i) n)"

text \<open>The answers of the kernel to the process. A wrapper that fails in one of the threads ends the process.\<close>

record stress_env =
  s_efd :: int
  s_sfd :: "nat \<Rightarrow> int"
  s_add :: "nat \<Rightarrow> int"
  s_ths :: int
  s_thf :: int
  s_create :: "nat \<Rightarrow> int"
  s_pid :: "nat \<Rightarrow> int"
  s_wait :: "nat \<Rightarrow> int"

definition signalfd_stress_fork :: "stress_env \<Rightarrow> int list \<Rightarrow> int + int list \<times> nat" where
  "signalfd_stress_fork e opn = (case xcreate_epoll_signalfds (s_efd e) (s_sfd e) (s_add e) SIGNALFDS_X_EPOLLFD of Inl x \<Rightarrow> Inl x
     | Inr (efd, sfds) \<Rightarrow> (case xthread_new (s_ths e) of Inl x \<Rightarrow> Inl x
     | Inr _ \<Rightarrow> (case xthread_new (s_thf e) of Inl x \<Rightarrow> Inl x
     | Inr _ \<Rightarrow> (case (signalfd_create_thproc (s_create e) 0 SIGNALFD_CREATE_COUNT (sfds @ [efd] @ opn), forker_thproc (s_pid e) (s_wait e) 0 FORK_PROC_COUNT) of
         (Inr fds, Inr n) \<Rightarrow> Inr (fds, n)
       | (Inl x, _) \<Rightarrow> Inl x
       | (_, Inl x) \<Rightarrow> Inl x))))"

lemma create_thproc_closes:
  "signalfd_create_thproc sfd i n opn = (if \<forall>j<n. sfd (i + j) \<noteq> -1 then Inr opn else Inl 1)"
proof (induction n arbitrary: i)
  case (Suc n)
  have "(\<forall>j<Suc n. sfd (i + j) \<noteq> -1) \<longleftrightarrow> sfd i \<noteq> -1 \<and> (\<forall>j<n. sfd (Suc i + j) \<noteq> -1)"
    by (auto simp: less_Suc_eq_0_disj)
  with Suc show ?case by (simp add: xsignalfd_def)
qed simp

lemma forker_counts:
  "forker_thproc pid w i n = (if \<forall>j<n. pid (i + j) \<noteq> -1 \<and> w (i + j) = pid (i + j) then Inr (i + n) else Inl 1)"
proof (induction n arbitrary: i)
  case (Suc n)
  have "(\<forall>j<Suc n. pid (i + j) \<noteq> -1 \<and> w (i + j) = pid (i + j))
    \<longleftrightarrow> (pid i \<noteq> -1 \<and> w i = pid i) \<and> (\<forall>j<n. pid (Suc i + j) \<noteq> -1 \<and> w (Suc i + j) = pid (Suc i + j))"
    by (auto simp: less_Suc_eq_0_disj)
  with Suc show ?case by (auto simp: run_proc_in_child_def)
qed simp

lemma create_loop_fds:
  "create_loop sfd add i n fds = (if \<forall>j<n. sfd (i + j) \<noteq> -1 \<and> add (i + j) \<noteq> -1 then Inr (fds @ map (\<lambda>j. sfd (i + j)) [0..<n]) else Inl 1)"
proof (induction n arbitrary: i fds)
  case (Suc n)
  have "(\<forall>j<Suc n. sfd (i + j) \<noteq> -1 \<and> add (i + j) \<noteq> -1)
    \<longleftrightarrow> (sfd i \<noteq> -1 \<and> add i \<noteq> -1) \<and> (\<forall>j<n. sfd (Suc i + j) \<noteq> -1 \<and> add (Suc i + j) \<noteq> -1)"
    by (auto simp: less_Suc_eq_0_disj)
  moreover have "map (\<lambda>j. sfd (i + j)) [0..<Suc n] = sfd i # map (\<lambda>j. sfd (Suc i + j)) [0..<n]"
    by (subst upt_conv_Cons) (simp_all flip: map_Suc_upt add: comp_def del: upt_Suc)
  ultimately show ?case using Suc by (auto simp: xsignalfd_def xepoll_add_def simp del: upt_Suc)
qed simp

text \<open>The stress test gets through exactly if no call fails; it has then run five thousand children, and the million descriptors its other
  thread has made are all closed again. A child that gets its descriptors reads its own signal once.\<close>

lemma stress_gets_through:
  "signalfd_stress_fork e opn =
     (if s_efd e \<noteq> -1 \<and> (\<forall>j<10. s_sfd e j \<noteq> -1 \<and> s_add e j \<noteq> -1) \<and> s_ths e \<noteq> 0 \<and> s_thf e \<noteq> 0
         \<and> (\<forall>j<1000000. s_create e j \<noteq> -1) \<and> (\<forall>j<5000. s_pid e j \<noteq> -1 \<and> s_wait e j = s_pid e j)
      then Inr (map (s_sfd e) [0..<10] @ [s_efd e] @ opn, 5000) else Inl 1)"
  using create_loop_fds [of "s_sfd e" "s_add e" 0 10 "[]"]
  by (auto simp: signalfd_stress_fork_def xcreate_epoll_signalfds_def SIGNALFDS_X_EPOLLFD_def SIGNALFD_CREATE_COUNT_def FORK_PROC_COUNT_def
      create_thproc_closes forker_counts xepollfd_def xthread_new_def split: sum.splits if_splits simp del: upt_rec_numeral)

lemma stress_child_reads:
  assumes "efd \<noteq> -1" "\<forall>j<10. sfd j \<noteq> -1 \<and> add j \<noteq> -1" "\<And>k. ready k \<noteq> []"
  shows "\<exists>out. stress_child_proc efd sfd add ready = Inr (Some out) \<and> sigs_read out = [SIGUSR1]"
  using xepoll_reads_all [of ready "[SIGUSR1]", OF assms(3)] create_loop_fds [of sfd add 0 10 "[]"] assms(1,2)
  by (auto simp: stress_child_proc_def xcreate_epoll_signalfds_def SIGNALFDS_X_EPOLLFD_def xepollfd_def)

end
