(* ===== verification/Probes.thy ===== *)
theory Probes
  imports CStr
begin

text \<open>
  Four small programs. \<^verbatim>\<open>pollrdhup-test.c\<close> polls a socket that its child has half closed; \<^verbatim>\<open>extfd-test.c\<close> exercises system calls that hand
  out descriptors; \<^verbatim>\<open>syminfo.c\<close> prints what the dynamic linker knows of symbols, \<^verbatim>\<open>ht2date.c\<close> numbers as dates. The answers of the
  kernel, the linker and \<^verbatim>\<open>ctime\<close> are parameters.
\<close>

subsection \<open>\<^verbatim>\<open>pollrdhup-test.c\<close>\<close>

definition P_POLLIN :: u16 where "P_POLLIN = 1"
definition P_POLLOUT :: u16 where "P_POLLOUT = 4"
definition P_POLLHUP :: u16 where "P_POLLHUP = 0x10"
definition P_POLLRDHUP :: u16 where "P_POLLRDHUP = 0x2000"

text \<open>What \<^verbatim>\<open>socket\<close>, \<^verbatim>\<open>bind\<close> and \<^verbatim>\<open>listen\<close> answer to the parent, \<^verbatim>\<open>socket\<close> and \<^verbatim>\<open>connect\<close> to the child, and the rest to the parent.\<close>

record prdht_env =
  p_socket :: int
  p_bind :: int
  p_listen :: int
  p_fork :: int
  p_accept :: int
  p_revents :: u16
  c_socket :: int
  c_connect :: int

definition prdht_connect :: "prdht_env \<Rightarrow> int" where
  "prdht_connect e = (if c_socket e = -1 then -1 else if c_connect e = -1 then -1 else c_socket e)"

definition prdht_sockcreate :: "prdht_env \<Rightarrow> int" where
  "prdht_sockcreate e = (if p_socket e = -1 then -1 else if p_bind e = -1 then -1 else if p_listen e = -1 then -1 else p_socket e)"

definition prdht_events_print :: "u16 \<Rightarrow> string list" where
  "prdht_events_print events =
     (if events AND P_POLLIN \<noteq> 0 then ['' POLLIN''] else []) @ (if events AND P_POLLOUT \<noteq> 0 then ['' POLLOUT''] else [])
     @ (if events AND P_POLLHUP \<noteq> 0 then ['' POLLHUP''] else []) @ (if events AND P_POLLRDHUP \<noteq> 0 then ['' POLLRDHUP''] else [])"

text \<open>\<^verbatim>\<open>main\<close>: the status and what is printed. \<^verbatim>\<open>accept\<close> waits for ever, \<open>None\<close>, if it does not fail and the child has exited
  without a connection.\<close>

definition pollrdhup_main :: "prdht_env \<Rightarrow> (int \<times> string list) option" where
  "pollrdhup_main e =
     (let ufd = prdht_sockcreate e in
      if ufd = -1 then Some (1, [])
      else if p_fork e = -1 then Some (2, [])
      else if p_accept e = -1 then Some (3, [])
      else if prdht_connect e = -1 then None
      else Some (0, ''events:'' # prdht_events_print (p_revents e)))"

text \<open>The names printed are those of the bits set, in the order of the code; and the parent hangs exactly when it listens, can accept and its child
  cannot connect.\<close>

lemma prdht_names:
  "prdht_events_print ev = map snd (filter (\<lambda>(k, n). bit ev k) [(0, '' POLLIN''), (2, '' POLLOUT''), (4, '' POLLHUP''), (13, '' POLLRDHUP'')])"
  using and_exp_eq_0_iff_not_bit [of ev 0] and_exp_eq_0_iff_not_bit [of ev 2] and_exp_eq_0_iff_not_bit [of ev 4] and_exp_eq_0_iff_not_bit [of ev 13]
  by (simp add: prdht_events_print_def P_POLLIN_def P_POLLOUT_def P_POLLHUP_def P_POLLRDHUP_def)

lemma pollrdhup_hangs:
  "pollrdhup_main e = None \<longleftrightarrow> prdht_sockcreate e \<noteq> -1 \<and> p_fork e \<noteq> -1 \<and> p_accept e \<noteq> -1 \<and> prdht_connect e = -1"
  by (auto simp: pollrdhup_main_def Let_def)

subsection \<open>\<^verbatim>\<open>extfd-test.c\<close>\<close>

text \<open>The descriptors of the process, and how many closes have found nothing to close.\<close>

record fd_table =
  open_fds :: "int list"
  bad_closes :: nat

text \<open>The calls answer with a descriptor, given the ones in use, or -1; \<^verbatim>\<open>null_write\<close> is the answer to the write to \<^verbatim>\<open>/dev/null\<close>.\<close>

record ext_kernel =
  k_nonseqfd :: "int list \<Rightarrow> int"
  k_dup :: "int list \<Rightarrow> int"
  k_dup2_ok :: bool
  k_socket2 :: "int list \<Rightarrow> int"
  k_open :: "int list \<Rightarrow> int"
  null_write :: int

definition new_fd :: "int \<Rightarrow> fd_table \<Rightarrow> (int \<times> fd_table) option" where
  "new_fd fd s = (if fd = -1 then None else Some (fd, s\<lparr>open_fds := fd # open_fds s\<rparr>))"

definition fd_close :: "int \<Rightarrow> fd_table \<Rightarrow> fd_table" where
  "fd_close fd s = (if fd \<in> set (open_fds s) then s\<lparr>open_fds := remove1 fd (open_fds s)\<rparr> else s\<lparr>bad_closes := bad_closes s + 1\<rparr>)"

text \<open>\<^verbatim>\<open>dup2(1, xfd)\<close> gives the number it is asked for, which is in use and stays so.\<close>

definition dup2_onto :: "ext_kernel \<Rightarrow> int \<Rightarrow> fd_table \<Rightarrow> (int \<times> fd_table) option" where
  "dup2_onto K xfd s = (if k_dup2_ok K then Some (xfd, s\<lparr>open_fds := (if xfd \<in> set (open_fds s) then open_fds s else xfd # open_fds s)\<rparr>) else None)"

text \<open>\<^verbatim>\<open>main\<close>: \<open>None\<close> is a return of 1, otherwise it returns 0 with these descriptors.\<close>

definition extfd_main :: "ext_kernel \<Rightarrow> fd_table \<Rightarrow> fd_table option" where
  "extfd_main K s = do {
     (xfd, s) \<leftarrow> new_fd (k_nonseqfd K (open_fds s)) s;
     (nfd, s) \<leftarrow> new_fd (k_dup K (open_fds s)) s;
     let s = fd_close nfd s;
     (nfd, s) \<leftarrow> dup2_onto K xfd s;
     let s = fd_close xfd (fd_close nfd s);
     (xfd, s) \<leftarrow> new_fd (k_socket2 K (open_fds s)) s;
     let s = fd_close xfd s;
     (xfd, s) \<leftarrow> new_fd (k_open K (open_fds s)) s;
     if null_write K \<noteq> 7 then None else Some (fd_close xfd s) }"

text \<open>The child: 800 descriptors and no close.\<close>

fun fdmap_grow :: "nat \<Rightarrow> ext_kernel \<Rightarrow> fd_table \<Rightarrow> fd_table option" where
  "fdmap_grow 0 K s = Some s"
| "fdmap_grow (Suc n) K s = new_fd (k_nonseqfd K (open_fds s)) s \<bind> (\<lambda>(xfd, s). fdmap_grow n K s)"

definition test_fdmap_grow :: "ext_kernel \<Rightarrow> fd_table \<Rightarrow> fd_table option" where
  "test_fdmap_grow K s = fdmap_grow 800 K s"

text \<open>A kernel that always has a descriptor that is not in use.\<close>

definition fresh_fds :: "ext_kernel \<Rightarrow> bool" where
  "fresh_fds K \<longleftrightarrow> (\<forall>fds. \<forall>f \<in> {k_nonseqfd K, k_dup K, k_socket2 K, k_open K}. f fds \<notin> set fds \<and> f fds \<noteq> -1) \<and> k_dup2_ok K \<and> null_write K = 7"

text \<open>On such a kernel the test passes and leaves the descriptors as they were, but one of its closes fails: \<^verbatim>\<open>dup2\<close> has returned the number
  that is closed once more after it.\<close>

lemma extfd_closes_twice:
  assumes "fresh_fds K"
  shows "extfd_main K s = Some (s\<lparr>bad_closes := bad_closes s + 1\<rparr>)"
  using assms by (simp add: fresh_fds_def extfd_main_def new_fd_def fd_close_def dup2_onto_def)

lemma fdmap_grow_fds:
  assumes "fresh_fds K" "distinct (open_fds s)"
  shows "\<exists>s'. fdmap_grow n K s = Some s' \<and> length (open_fds s') = length (open_fds s) + n \<and> distinct (open_fds s') \<and> set (open_fds s) \<subseteq> set (open_fds s')"
  using assms(2)
proof (induction n arbitrary: s)
  case (Suc n)
  let ?fd = "k_nonseqfd K (open_fds s)"
  have f: "?fd \<notin> set (open_fds s)" "?fd \<noteq> -1" using assms(1) by (simp_all add: fresh_fds_def)
  have "distinct (open_fds (s\<lparr>open_fds := ?fd # open_fds s\<rparr>))" using f Suc.prems by simp
  from Suc.IH [OF this] show ?case using f by (auto simp: new_fd_def)
qed simp

subsection \<open>\<^verbatim>\<open>syminfo.c\<close>\<close>

text \<open>A library is a handle; \<open>None\<close> is \<^verbatim>\<open>NULL\<close>.\<close>

record dl =
  dlopen :: "cstr \<Rightarrow> u64 option"
  dlsym :: "u64 \<Rightarrow> cstr \<Rightarrow> u64"
  dladdr :: "u64 \<Rightarrow> (cstr \<times> u64 \<times> cstr \<times> u64) option"

definition RTLD_NEXT :: u64 where "RTLD_NEXT = -1"

text \<open>The option loop: an exit status, or the library and the arguments that are left.\<close>

fun sym_options :: "dl \<Rightarrow> u64 \<Rightarrow> cstr list \<Rightarrow> int + u64 \<times> cstr list" where
  "sym_options D lib [] = Inr (lib, [])"
| "sym_options D lib (a # as) =
     (if a = bytes ''-l'' then (case as of [] \<Rightarrow> Inr (lib, [])
        | p # as \<Rightarrow> (case dlopen D p of None \<Rightarrow> Inl 2 | Some lib \<Rightarrow> sym_options D lib as))
      else if a = bytes ''-h'' then Inl 1
      else Inr (lib, a # as))"

definition sym_line :: "dl \<Rightarrow> u64 \<Rightarrow> cstr \<Rightarrow> cstr \<times> u64 \<times> (cstr \<times> u64 \<times> cstr \<times> u64) option" where
  "sym_line D lib a = (let symaddr = dlsym D lib a in (a, symaddr, dladdr D symaddr))"

definition syminfo_main :: "dl \<Rightarrow> cstr list \<Rightarrow> int + (cstr \<times> u64 \<times> (cstr \<times> u64 \<times> cstr \<times> u64) option) list" where
  "syminfo_main D args = (case sym_options D RTLD_NEXT args of Inl st \<Rightarrow> Inl st | Inr (lib, syms) \<Rightarrow> Inr (map (sym_line D lib) syms))"

text \<open>Symbols are looked up in the library of the last \<^verbatim>\<open>-l\<close> before them, a line each; options behind the first symbol are symbols.\<close>

lemma sym_options_libs:
  assumes "\<And>p. p \<in> set ps \<Longrightarrow> dlopen D p = Some (h p)" "syms \<noteq> [] \<longrightarrow> hd syms \<noteq> bytes ''-l'' \<and> hd syms \<noteq> bytes ''-h''"
  shows "sym_options D lib (concat (map (\<lambda>p. [bytes ''-l'', p]) ps) @ syms) = Inr (if ps = [] then lib else h (last ps), syms)"
  using assms
proof (induction ps arbitrary: lib)
  case Nil
  then show ?case by (cases syms) auto
qed auto

lemma syminfo_lines:
  assumes "\<And>p. p \<in> set ps \<Longrightarrow> dlopen D p = Some (h p)" "syms \<noteq> [] \<longrightarrow> hd syms \<noteq> bytes ''-l'' \<and> hd syms \<noteq> bytes ''-h''"
  shows "syminfo_main D (concat (map (\<lambda>p. [bytes ''-l'', p]) ps) @ syms) = Inr (map (sym_line D (if ps = [] then RTLD_NEXT else h (last ps))) syms)"
  by (simp add: syminfo_main_def sym_options_libs [OF assms])

subsection \<open>\<^verbatim>\<open>ht2date.c\<close>\<close>

text \<open>\<open>ctime\<close> is \<open>None\<close> for a year that does not fit; the result is then printed without a test, which is a fault.\<close>

fun ht2date_main :: "(int \<Rightarrow> cstr option) \<Rightarrow> cstr list \<Rightarrow> cstr option" where
  "ht2date_main ctime [] = Some []"
| "ht2date_main ctime (a # as) = do {
     d \<leftarrow> ctime (sint (strtoull 0 a));
     rest \<leftarrow> ht2date_main ctime as;
     Some (a @ [9] @ d @ rest) }"

lemma ht2date_lines:
  assumes "\<And>a. a \<in> set args \<Longrightarrow> ctime (sint (strtoull 0 a)) \<noteq> None"
  shows "ht2date_main ctime args = Some (concat (map (\<lambda>a. a @ [9] @ the (ctime (sint (strtoull 0 a)))) args))"
  using assms
proof (induction args)
  case (Cons a args)
  then obtain d where "ctime (sint (strtoull 0 a)) = Some d" by force
  then show ?case using Cons by simp
qed simp

end
