(* ===== verification/Spec2Isabelle.thy ===== *)
theory Spec2Isabelle
  imports Prelude RBTree RBShape RBInsert RBErase RBOps CFS KList TimedRing CStr SmartMain XGsm XGsmModem SessionQueue BStream Http ThrHttp HttpMain SpinLocks MemIsZero BinPatch SplitMb EConv SLoad SymAddr EthCat EventSem TokenRing PrivExec Systems AioTest StackTest PingPong PageTests Timers SigTest ByteTools XGsmTop ReadBench EpollChain EpollMess EpollWait SLoadRun SpinMain SigMain SigEpoll Probes
begin

text \<open>
  \<^bold>\<open>Trivia: a verification development\<close>

  The repository is a collection of independent C programs, one file each under \<^verbatim>\<open>src/\<close>. This development models the C
  programs and proves what makes them correct; what is left out is listed under ``Not modelled''.

  \<^bold>\<open>Conventions.\<close> Machine integers are words (\<^verbatim>\<open>u8\<close> to \<^verbatim>\<open>u64\<close>, LP64), so that wrap-around is that of the code; counts that cannot
  overflow are naturals. A structure is a record, memory with aliasing (tree nodes, list heads, the block of \<^verbatim>\<open>memiszero\<close>) is a
  map from addresses. Code that can fault or loop for ever is in the option monad: \<open>None\<close> is a NULL or dangling dereference, an
  index outside its array, an undefined shift or overflow, or a loop that does not end. A theorem \<open>f x = Some y\<close> thus says that
  the code is safe, that it ends and what it returns. Loops that may not end are \<open>partial_function (option)\<close>, so no fuel is used
  anywhere. System calls, clocks, allocation, files and the peer of a socket are parameters; what a theorem needs of them is a
  hypothesis of it (\<open>sends_all\<close>, \<open>delivers\<close>, \<open>reads\<close>), and its witness gives a concrete one. An exit or an early return is a value.

  \<^bold>\<open>Shared theories.\<close>
  \<^item> \<^verbatim>\<open>Prelude\<close>: integer types, the collections of simplification rules, lemmas on words, lists and options.
  \<^item> \<^verbatim>\<open>CStr\<close>: the character, string, number and line functions of the C library that the programs use.
  \<^item> \<^verbatim>\<open>Systems\<close>: step relations with an invariant and a measure: invariants along runs, a bound on the length of runs, and what a
    stuck state is.

  \<^bold>\<open>smart-queue.c\<close>: two run queues of tasks that are compared in a benchmark.
  \<^item> \<^verbatim>\<open>RBTree\<close>: the red-black tree, one definition per function, nodes with packed parent and colour word. \<^verbatim>\<open>RBShape\<close>: the abstract
    tree, its zipper and the invariant. \<^verbatim>\<open>RBInsert\<close>, \<^verbatim>\<open>RBErase\<close>: the fix-up loops. \<^verbatim>\<open>RBOps\<close>: insertion, erasure, replacement and
    traversal of the whole tree, and its height.
  \<^item> \<^verbatim>\<open>CFS\<close>: the run queue \<^verbatim>\<open>cfs_rq\<close> on the tree, which refines a list sorted by key, and \<^verbatim>\<open>cfs_test\<close>.
  \<^item> \<^verbatim>\<open>KList\<close>: the doubly linked lists. \<^verbatim>\<open>TimedRing\<close>: the ring \<^verbatim>\<open>tr_rq\<close> of slots with a bit map, which refines an array of queues,
    and the places where its scan and its index go wrong. \<^verbatim>\<open>SmartMain\<close>: the options and both benchmarks.

  \<^bold>\<open>xgsm.c\<close>: text messages over a modem.
  \<^item> \<^verbatim>\<open>XGsm\<close>: numbers, seven-bit packing, validity, the PDU and its hexadecimal form, with the decoder they are to be read by.
  \<^item> \<^verbatim>\<open>XGsmModem\<close>: responses, prompts and the dialogue of \<^verbatim>\<open>main\<close> with a device that is a parameter.
  \<^item> \<^verbatim>\<open>XGsmTop\<close>: dumps, time stamp, options and the whole program, and what a modem that acknowledges every command receives.

  \<^bold>\<open>thrplhttp.c\<close>: an HTTP server with a pool of threads per processor.
  \<^item> \<^verbatim>\<open>SessionQueue\<close>: the queue of descriptors and the threads around it, as a step relation with the mutex and the two
    conditions: safety of every interleaving, absence of deadlock, and the wake-up that the shutdown can lose.
  \<^item> \<^verbatim>\<open>BStream\<close>: the buffered stream. \<^verbatim>\<open>Http\<close>: request lines, headers, responses, sessions, the acceptor and the options.

  \<^bold>\<open>thrhttp.c\<close>: an HTTP server with a thread per connection.
  \<^item> \<^verbatim>\<open>ThrHttp\<close>: its stream, which reads lines of any length, its responses, sessions, options and accept loop. Code that is the same
    as in \<^verbatim>\<open>thrplhttp.c\<close> is taken from there. The main theorem covers pipelined requests that are cut into packets anywhere.
  \<^item> \<^verbatim>\<open>HttpMain\<close>: how both servers come up, from the options and the answers of the kernel to contexts and threads.

  \<^bold>\<open>Smaller programs.\<close>
  \<^item> \<^verbatim>\<open>SpinLocks\<close> (\<^verbatim>\<open>qspins.c\<close>): the ticket lock and the decrement lock, the benchmark threads as a step relation over either; a
    contract of spin locks from which mutual exclusion and progress follow, which both locks fulfil. \<^verbatim>\<open>SpinMain\<close>: arguments, start and samples.
  \<^item> \<^verbatim>\<open>MemIsZero\<close> (\<^verbatim>\<open>memiszero.c\<close>): the word-wise tests against the byte loop, over addresses, and the benchmark.
  \<^item> \<^verbatim>\<open>BinPatch\<close> (\<^verbatim>\<open>binpatch.c\<close>): search and replacement of a byte sequence. \<^verbatim>\<open>SplitMb\<close> (\<^verbatim>\<open>splitmb.c\<close>): address syntax and the split
    of a mailbox. \<^verbatim>\<open>EConv\<close> (\<^verbatim>\<open>econv.c\<close>): conversion of queue files.
  \<^item> \<^verbatim>\<open>SLoad\<close> (\<^verbatim>\<open>sload.c\<close>): jitter, options and the children of the load generator. \<^verbatim>\<open>SLoadRun\<close>: calibration, and the parent that collects the reports.
  \<^item> \<^verbatim>\<open>SymAddr\<close> (\<^verbatim>\<open>ka2n.c\<close>, \<^verbatim>\<open>nma2n.c\<close>): nearest symbol of an address; both scans are instances of one contract.
  \<^item> \<^verbatim>\<open>EthCat\<close> (\<^verbatim>\<open>ethcat.c\<close>): a frame from the standard input to an interface.
  \<^item> \<^verbatim>\<open>EventSem\<close> (\<^verbatim>\<open>eventfd-sem.c\<close>): two processes with semaphores, every interleaving.
  \<^item> \<^verbatim>\<open>TokenRing\<close> (\<^verbatim>\<open>pipetest-4.c\<close>, \<^verbatim>\<open>eventfd-bench.c\<close>): tokens around a ring of pipes or event descriptors that \<^verbatim>\<open>epoll\<close> watches; the
    order of its reports is a parameter.
  \<^item> \<^verbatim>\<open>PrivExec\<close> (\<^verbatim>\<open>swrap.c\<close>, \<^verbatim>\<open>sexecp.c\<close>, \<^verbatim>\<open>sxncat.c\<close>): identity changes before a command runs.

  \<^item> \<^verbatim>\<open>ByteTools\<close>: the hex dump (\<^verbatim>\<open>chexdump.c\<close>), the poll loop and the character map of the terminal bridge (\<^verbatim>\<open>xtty.c\<close>), and the retries
    of the connection flooder (\<^verbatim>\<open>deadconn.c\<close>).
  \<^item> \<^verbatim>\<open>ReadBench\<close>: the read loop of \<^verbatim>\<open>fget-light-test.c\<close> and the cycles of \<^verbatim>\<open>ztest.c\<close>, with the calls of zlib as parameters.

  \<^bold>\<open>Test programs for kernel interfaces.\<close> The kernel is a parameter, or the environment of a step relation; the theorems say what the
  program does for every answer, or what it reports when the kernel answers as documented.
  \<^item> \<^verbatim>\<open>AioTest\<close> (\<^verbatim>\<open>eventfd-aio-test.c\<close>): asynchronous requests announced on an event descriptor. Completions interleave with the reads
    of the program; every run ends, and the file and the buffer hold the pattern. A partial submission makes it wait for ever.
  \<^item> \<^verbatim>\<open>StackTest\<close> (\<^verbatim>\<open>pth-stk-test.c\<close>): threads on mapped stacks that start, finish and are joined; no stack is unmapped under a thread.
  \<^item> \<^verbatim>\<open>PingPong\<close> (\<^verbatim>\<open>pthread-lat-ctx.c\<close>): two threads that exchange a byte over two pipes.
  \<^item> \<^verbatim>\<open>PageTests\<close> (\<^verbatim>\<open>nzmalloc-test.c\<close>, \<^verbatim>\<open>nzmmap-test.c\<close>, \<^verbatim>\<open>smiffy.c\<close>): counts of the pages of a block that are not cleared.
  \<^item> \<^verbatim>\<open>Timers\<close> (\<^verbatim>\<open>timerfd-test.c\<close>, \<^verbatim>\<open>timerfd-test2.c\<close>): the sequence of timers of both tests over any kernel, and over one with exact clocks.
  \<^item> \<^verbatim>\<open>SigTest\<close> (\<^verbatim>\<open>signalfd-test.c\<close>): the chain of threads that pass a signal on, the descriptors of the epoll test and its read loop. \<^verbatim>\<open>SigMain\<close>: the
    first tests of its \<^verbatim>\<open>main\<close> as scripts of processes that share descriptors; all interleavings are explored. \<^verbatim>\<open>SigEpoll\<close>: the tests through \<^verbatim>\<open>epoll\<close> in the same
    way, and the stress test.
  \<^item> \<^verbatim>\<open>EpollChain\<close> (\<^verbatim>\<open>epoll_test.c\<close>): chains and loops of \<^verbatim>\<open>epoll\<close> descriptors; its verdicts on a kernel that follows chains to a given depth.
  \<^item> \<^verbatim>\<open>EpollMess\<close> (\<^verbatim>\<open>totalmess.c\<close>): threads that pass bytes at random among watched pipes; the bytes are conserved up to reads that
    find nothing, all runs end after the signal, and the state in which the threads block each other can be reached.
  \<^item> \<^verbatim>\<open>EpollWait\<close> (\<^verbatim>\<open>epwbench.c\<close>, \<^verbatim>\<open>epoll_pwait_test.c\<close>): timed waits that are to report all pipes, and the nine tests of \<^verbatim>\<open>epoll_pwait\<close>.
  \<^item> \<^verbatim>\<open>Probes\<close> (\<^verbatim>\<open>pollrdhup-test.c\<close>, \<^verbatim>\<open>extfd-test.c\<close>, \<^verbatim>\<open>syminfo.c\<close>, \<^verbatim>\<open>ht2date.c\<close>): programs that print what the kernel or a library answers
    to a fixed sequence of calls, for every answer, and the answers after which they wait for ever or close a descriptor twice.

  \<^bold>\<open>Interfaces.\<close> \<open>run_queue\<close> (\<open>cfs\<close>) is what the scheduler benchmark relies on in a run queue; \<open>spin_lock_contract\<close> (\<open>tick\<close> and
  \<open>spin\<close>) is what the benchmark threads rely on in a lock; \<open>token_channel\<close> (\<open>pipe\<close>, \<open>efd\<close>) what the ring relies on in a channel;
  \<open>nearest_scan\<close> (\<open>ka\<close>, \<open>nm\<close>) is what a line of a symbol table does to the scan;
  \<open>step_system\<close> and its extension \<open>ending_system\<close> (\<open>aio_all\<close> and its like, \<open>stk\<close>, \<open>pp\<close>, \<open>sig\<close>, \<open>script\<close>, \<open>mess\<close>, \<open>solo\<close>, \<open>stopping\<close>) are what a concurrent test has to show of its
  steps; \<open>page_checker\<close> (\<open>zero_pages\<close>, \<open>checked_pages\<close>) is what the page loops rely on in the test of one page. The other components meet through their
  definitions: the run queue calls the tree, the ring the lists, the sessions the stream.

  \<^bold>\<open>Bounds.\<close> The hypotheses on sizes are those of the code: a message below \<open>2\<^sup>6\<^sup>4\<close> bytes, an input of \<^verbatim>\<open>ethcat\<close> that an \<^verbatim>\<open>int\<close> can count, at
  most \<open>2\<^sup>1\<^sup>6\<close> threads at a ticket lock, a jitter below \<open>2\<^sup>6\<^sup>2\<close>. The ones that a user can break are recorded as findings.

  \<^bold>\<open>Not modelled.\<close> Socket options, scheduling parameters, statistics in floating point and messages to the user have no
  effect on what is proved. The scripts and the C++ files are in other languages.
\<close>

end
